(* ===== verification/Prelude.thy ===== *)
theory Prelude
  imports Main "HOL-Library.Word" "HOL-Library.Sublist"
begin

text \<open>
  The shared vocabulary of the development.

  \<^item> Rust's \<open>Result<A, E>\<close> is the sum \<open>'e + 'a\<close> (\<open>Inl\<close> the error); the \<open>?\<close> operator is
    \<open>and_then\<close>.
  \<^item> Rust's unsigned integers are words of their width; \<open>saturating_add\<close> and \<open>checked_add\<close>
    are the methods of those names.  \<open>usize\<close> values that only measure or index what is in
    memory are \<open>nat\<close>.
  \<^item> A Rust \<open>str\<close> is its UTF-8 bytes, a \<open>char list\<close>: \<open>split\<close>, \<open>replace\<close>, \<open>starts_with\<close>,
    \<open>strip_prefix\<close>, \<open>trim_matches\<close> with an ASCII needle act on bytes, and \<open>len()\<close> is the
    length of the list.
  \<^item> The collection \<open>result_simps\<close> holds the rules that open results.
\<close>

named_theorems result_simps \<open>rules that open Result-valued computations\<close>
named_theorems bound_simps \<open>rules that read fixed-width arithmetic as arithmetic on nat\<close>

type_synonym u8 = "8 word"
type_synonym u16 = "16 word"
type_synonym u32 = "32 word"
type_synonym u64 = "64 word"

section \<open>Results\<close>

type_synonym ('e, 'a) result = "'e + 'a"

fun and_then :: "('e, 'a) result \<Rightarrow> ('a \<Rightarrow> ('e, 'b) result) \<Rightarrow> ('e, 'b) result" where
  "and_then (Inl e) f = Inl e"
| "and_then (Inr x) f = f x"

lemma and_then_eq_Inr [result_simps]:
  "and_then r f = Inr y \<longleftrightarrow> (\<exists>x. r = Inr x \<and> f x = Inr y)"
  by (cases r) auto

lemma and_then_eq_Inl [result_simps]:
  "and_then r f = Inl e \<longleftrightarrow> r = Inl e \<or> (\<exists>x. r = Inr x \<and> f x = Inl e)"
  by (cases r) auto

lemma and_then_cong [fundef_cong]:
  "r = r' \<Longrightarrow> (\<And>x. r' = Inr x \<Longrightarrow> f x = g x) \<Longrightarrow> and_then r f = and_then r' g"
  by (cases r') auto

fun map_err :: "('e \<Rightarrow> 'f) \<Rightarrow> ('e, 'a) result \<Rightarrow> ('f, 'a) result" where
  "map_err f (Inl e) = Inl (f e)"
| "map_err f (Inr x) = Inr x"

lemma map_err_eq_Inr [result_simps]: "map_err f r = Inr x \<longleftrightarrow> r = Inr x"
  by (cases r) auto

lemma map_err_eq_Inl [result_simps]: "map_err f r = Inl e \<longleftrightarrow> (\<exists>d. r = Inl d \<and> e = f d)"
  by (cases r) auto

lemma and_then_assoc: "and_then (and_then r f) g = and_then r (\<lambda>x. and_then (f x) g)"
  by (cases r) auto

text \<open>A check that returns \<open>()\<close>: all of a list of checks, in order, stopping at the first error.\<close>

fun check_each :: "('a \<Rightarrow> ('e, unit) result) \<Rightarrow> 'a list \<Rightarrow> ('e, unit) result" where
  "check_each chk [] = Inr ()"
| "check_each chk (x # xs) = and_then (chk x) (\<lambda>_. check_each chk xs)"

lemma check_each_ok [result_simps]:
  "check_each chk xs = Inr () \<longleftrightarrow> (\<forall>x \<in> set xs. chk x = Inr ())"
  by (induction xs) (auto simp: result_simps)

text \<open>The same for a method with \<open>&mut self\<close>: it returns its result and the state it leaves
  behind, and \<open>?\<close> keeps the state that the failing call left.\<close>

fun and_then_st ::
  "('e, 'a) result \<times> 's \<Rightarrow> ('a \<Rightarrow> 's \<Rightarrow> ('e, 'b) result \<times> 's) \<Rightarrow> ('e, 'b) result \<times> 's" where
  "and_then_st (Inl e, s) f = (Inl e, s)"
| "and_then_st (Inr x, s) f = f x s"

lemma and_then_st_eq_Inr [result_simps]:
  "and_then_st r f = (Inr y, t) \<longleftrightarrow> (\<exists>x s. r = (Inr x, s) \<and> f x s = (Inr y, t))"
  by (cases "(r, f)" rule: and_then_st.cases) auto

lemma and_then_st_eq_Inl [result_simps]:
  "and_then_st r f = (Inl e, t) \<longleftrightarrow> r = (Inl e, t) \<or> (\<exists>x s. r = (Inr x, s) \<and> f x s = (Inl e, t))"
  by (cases "(r, f)" rule: and_then_st.cases) auto

lemma and_then_st_cong [fundef_cong]:
  "r = r' \<Longrightarrow> (\<And>x s. r' = (Inr x, s) \<Longrightarrow> f x s = g x s) \<Longrightarrow> and_then_st r f = and_then_st r' g"
  by (cases "(r', f)" rule: and_then_st.cases) auto

lemma and_then_st_snd:
  assumes "I (snd r)" and "\<And>x s. r = (Inr x, s) \<Longrightarrow> I s \<Longrightarrow> I (snd (f x s))"
  shows "I (snd (and_then_st r f))"
  using assms by (cases "(r, f)" rule: and_then_st.cases) auto

lemma check_each_append:
  "check_each chk (xs @ ys) = and_then (check_each chk xs) (\<lambda>_. check_each chk ys)"
  by (induction xs) (auto simp: and_then_assoc)

section \<open>Fixed-width arithmetic\<close>

definition saturating_add :: "'a::len word \<Rightarrow> 'a word \<Rightarrow> 'a word" where
  "saturating_add a b = (if unat a + unat b < 2 ^ LENGTH('a) then a + b else - 1)"

definition checked_add :: "'a::len word \<Rightarrow> 'a word \<Rightarrow> 'a word option" where
  "checked_add a b = (if unat a + unat b < 2 ^ LENGTH('a) then Some (a + b) else None)"

lemma unat_max_word [bound_simps]: "unat (- 1 :: 'a::len word) = 2 ^ LENGTH('a) - 1"
  by (simp add: unsigned_minus_1_eq_mask mask_eq_exp_minus_1)

lemma unat_saturating_add [bound_simps]:
  "unat (saturating_add a b) = min (unat a + unat b) (2 ^ LENGTH('a) - 1)"
  for a b :: "'a::len word"
  by (auto simp: saturating_add_def unat_word_ariths unat_max_word)

lemma saturating_add_mono: "a \<le> saturating_add a b" for a b :: "'a::len word"
proof -
  have "unat a \<le> 2 ^ LENGTH('a) - 1" using unsigned_less [of a, where ?'a = nat] by linarith
  then show ?thesis by (simp add: word_le_nat_alt bound_simps)
qed

lemma saturating_add_exact:
  fixes a b l :: "'a::len word"
  assumes "saturating_add a b \<le> l" and "l < - 1"
  shows "unat (saturating_add a b) = unat a + unat b"
proof -
  from assms have "unat (saturating_add a b) < 2 ^ LENGTH('a) - 1"
    by (simp add: word_le_nat_alt word_less_nat_alt unat_max_word)
  then show ?thesis by (auto simp: bound_simps min_def split: if_splits)
qed

lemma checked_add_Some [bound_simps]:
  "checked_add a b = Some c \<Longrightarrow> unat c = unat a + unat b" for a b :: "'a::len word"
  by (auto simp: checked_add_def unat_word_ariths split: if_splits)

lemma word_succ_unat: "i < l \<Longrightarrow> unat (i + 1) = Suc (unat i)" for i l :: "'a::len word"
proof -
  assume "i < l"
  then have "unat i < unat l" by (simp add: word_less_nat_alt)
  moreover have "unat l < 2 ^ LENGTH('a)" by (rule unsigned_less)
  ultimately have "Suc (unat i) < 2 ^ LENGTH('a)" by linarith
  then show ?thesis by (simp add: unat_word_ariths)
qed

text \<open>The same by comparing after the addition, for evaluation.\<close>

lemma word_add_overflow: "a + b < a \<longleftrightarrow> \<not> unat a + unat b < 2 ^ LENGTH('a)" for a b :: "'a::len word"
proof (cases "unat a + unat b < 2 ^ LENGTH('a)")
  case True
  then show ?thesis by (simp add: word_less_nat_alt unat_word_ariths)
next
  case False
  have b: "unat a < 2 ^ LENGTH('a)" "unat b < 2 ^ LENGTH('a)" by (rule unsigned_less)+
  then have "unat a + unat b - 2 ^ LENGTH('a) < 2 ^ LENGTH('a)" by linarith
  then have "(unat a + unat b) mod 2 ^ LENGTH('a) = unat a + unat b - 2 ^ LENGTH('a)"
    using False by (simp add: le_mod_geq)
  then have "unat (a + b) = unat a + unat b - 2 ^ LENGTH('a)" by (simp add: unat_word_ariths)
  then have "unat (a + b) < unat a" using False b by linarith
  then show ?thesis using False by (simp add: word_less_nat_alt)
qed

lemma saturating_add_code [code]: "saturating_add a b = (let c = a + b in if c < a then - 1 else c)"
  by (simp add: saturating_add_def word_add_overflow Let_def)

lemma checked_add_code [code]: "checked_add a b = (let c = a + b in if c < a then None else Some c)"
  by (simp add: checked_add_def word_add_overflow Let_def)

lemma take_length_take: "take k xs = take (length (take k xs)) xs"
  by (cases "k \<le> length xs") auto

section \<open>Strings\<close>

text \<open>Decimal digits, as \<open>format!\<close> prints an unsigned integer.\<close>

definition digit :: "nat \<Rightarrow> char" where
  "digit d = char_of (48 + d)"

fun decimal :: "nat \<Rightarrow> string" where
  "decimal n = (if n < 10 then [digit n] else decimal (n div 10) @ [digit (n mod 10)])"

declare decimal.simps [simp del]

lemma decimal_ne [simp]: "decimal n \<noteq> []"
  by (subst decimal.simps) simp

lemma of_char_digit: "d < 10 \<Longrightarrow> of_char (digit d) = 48 + d"
  by (simp add: digit_def)

lemma digit_inj:
  assumes "d < 10" "e < 10" "digit d = digit e"
  shows "d = e"
proof -
  have "(of_char (digit d) :: nat) = of_char (digit e)" by (rule arg_cong [OF assms(3)])
  then show ?thesis unfolding of_char_digit [OF assms(1)] of_char_digit [OF assms(2)] by (rule add_left_imp_eq)
qed

lemma decimal_digits: "c \<in> set (decimal n) \<Longrightarrow> \<exists>d < 10. c = digit d"
proof (induction n rule: decimal.induct)
  case (1 n)
  show ?case
  proof (cases "n < 10")
    case True
    then show ?thesis using "1.prems" decimal.simps [of n] by auto
  next
    case False
    then have "decimal n = decimal (n div 10) @ [digit (n mod 10)]"
      by (subst decimal.simps) simp
    then consider "c \<in> set (decimal (n div 10))" | "c = digit (n mod 10)"
      using "1.prems" by auto
    then show ?thesis
    proof cases
      case 1
      show ?thesis by (rule "1.IH" [OF False 1])
    next
      case 2
      then show ?thesis by (intro exI [of _ "n mod 10"]) simp
    qed
  qed
qed

lemma decimal_inj: "decimal m = decimal n \<Longrightarrow> m = n"
proof (induction m arbitrary: n rule: decimal.induct)
  case (1 m)
  have len: "length (decimal k) = 1 \<longleftrightarrow> k < 10" for k
    by (subst decimal.simps) auto
  show ?case
  proof (cases "m < 10")
    case True
    then have "n < 10" using len "1.prems" by metis
    then show ?thesis using True "1.prems" digit_inj decimal.simps [of m] decimal.simps [of n] by auto
  next
    case False
    then have n: "\<not> n < 10" using len "1.prems" by metis
    then have "decimal (m div 10) @ [digit (m mod 10)] = decimal (n div 10) @ [digit (n mod 10)]"
      using False "1.prems" decimal.simps [of m] decimal.simps [of n] by simp
    then have "m div 10 = n div 10" "m mod 10 = n mod 10"
      using "1.IH" [OF False] digit_inj [of "m mod 10" "n mod 10"] by auto
    then show ?thesis by (metis div_mult_mod_eq)
  qed
qed

fun split_on :: "'a \<Rightarrow> 'a list \<Rightarrow> 'a list list" where
  "split_on c [] = [[]]"
| "split_on c (x # xs) =
     (if x = c then [] # split_on c xs
      else (case split_on c xs of [] \<Rightarrow> [[x]] | p # ps \<Rightarrow> (x # p) # ps))"

fun join_with :: "'a list \<Rightarrow> 'a list list \<Rightarrow> 'a list" where
  "join_with sep [] = []"
| "join_with sep [p] = p"
| "join_with sep (p # q # ps) = p @ sep @ join_with sep (q # ps)"

lemma split_on_ne [simp]: "split_on c s \<noteq> []"
  by (cases s) (auto split: list.splits)

lemma split_on_no_sep: "c \<notin> set s \<Longrightarrow> split_on c s = [s]"
  by (induction s) auto

lemma split_on_append_sep:
  "c \<notin> set p \<Longrightarrow> split_on c (p @ c # s) = p # split_on c s"
  by (induction p) auto

lemma split_on_parts: "p \<in> set (split_on c s) \<Longrightarrow> c \<notin> set p \<and> set p \<subseteq> set s"
  by (induction s arbitrary: p) (fastforce split: if_splits list.splits)+

lemma join_split: "join_with [c] (split_on c s) = s"
proof (induction s)
  case (Cons x s)
  then show ?case by (cases "split_on c s") (auto split: list.splits, (metis append_Cons join_with.simps(2,3) list.exhaust)+)
qed simp

lemma split_join:
  "ps \<noteq> [] \<Longrightarrow> \<forall>p \<in> set ps. c \<notin> set p \<Longrightarrow> split_on c (join_with [c] ps) = ps"
proof (induction ps rule: induct_list012)
  case (3 p q ps)
  then show ?case by (simp add: split_on_append_sep)
qed (simp_all add: split_on_no_sep)

definition trim_start_matches :: "'a \<Rightarrow> 'a list \<Rightarrow> 'a list" where
  "trim_start_matches c s = dropWhile (\<lambda>x. x = c) s"

definition trim_end_matches :: "'a \<Rightarrow> 'a list \<Rightarrow> 'a list" where
  "trim_end_matches c s = rev (dropWhile (\<lambda>x. x = c) (rev s))"

definition trim_matches :: "'a \<Rightarrow> 'a list \<Rightarrow> 'a list" where
  "trim_matches c s = trim_end_matches c (trim_start_matches c s)"

lemma split_on_cut: "split_on c (a @ c # b) = split_on c a @ split_on c b"
proof (induction a)
  case (Cons x a)
  then show ?case by (cases "split_on c a") (auto split: list.splits)
qed simp

lemma filter_split_trim_start:
  "\<not> P [] \<Longrightarrow> filter P (split_on c (trim_start_matches c s)) = filter P (split_on c s)"
  by (induction s) (auto simp: trim_start_matches_def)

lemma filter_split_trim_end:
  assumes "\<not> P []"
  shows "filter P (split_on c (trim_end_matches c s)) = filter P (split_on c s)"
proof (induction s rule: rev_induct)
  case (snoc x s)
  then show ?case
    using assms split_on_cut [of c s "[]"] by (cases "x = c") (auto simp: trim_end_matches_def)
qed (simp add: trim_end_matches_def)

lemma filter_split_trim:
  "\<not> P [] \<Longrightarrow> filter P (split_on c (trim_matches c s)) = filter P (split_on c s)"
  by (simp add: trim_matches_def filter_split_trim_end filter_split_trim_start)

lemma trim_end_matches_decomp: "\<exists>n. s = trim_end_matches c s @ replicate n c"
proof (induction s rule: rev_induct)
  case (snoc x s)
  then obtain n where n: "s = trim_end_matches c s @ replicate n c" by blast
  show ?case
  proof (cases "x = c")
    case True
    then have "trim_end_matches c (s @ [x]) = trim_end_matches c s" by (simp add: trim_end_matches_def)
    then have "s @ [x] = trim_end_matches c (s @ [x]) @ replicate (Suc n) c"
      using n True by (metis append.assoc replicate_Suc replicate_app_Cons_same append_Nil2 append_Cons append_Nil)
    then show ?thesis by blast
  next
    case False
    then have "trim_end_matches c (s @ [x]) = s @ [x]" by (simp add: trim_end_matches_def)
    then show ?thesis by (metis append_Nil2 replicate_0)
  qed
qed (simp add: trim_end_matches_def)

lemma trim_end_matches_snoc [simp]: "trim_end_matches c (s @ [c]) = trim_end_matches c s"
  by (simp add: trim_end_matches_def)

lemma trim_end_matches_idem [simp]: "trim_end_matches c (trim_end_matches c s) = trim_end_matches c s"
  by (simp add: trim_end_matches_def)

lemma join_with_ne: "\<lbrakk>ps \<noteq> []; \<forall>p \<in> set ps. p \<noteq> []\<rbrakk> \<Longrightarrow> join_with sep ps \<noteq> []"
  by (induction ps rule: induct_list012) auto

lemma join_with_append:
  "ps \<noteq> [] \<Longrightarrow> qs \<noteq> [] \<Longrightarrow> join_with sep (ps @ qs) = join_with sep ps @ sep @ join_with sep qs"
proof (induction ps rule: induct_list012)
  case (2 p)
  then show ?case by (cases qs) auto
qed auto

lemma set_join_with: "set (join_with sep ps) \<subseteq> set sep \<union> (\<Union>p \<in> set ps. set p)"
  by (induction ps rule: induct_list012) auto

definition replace_char :: "'a \<Rightarrow> 'a \<Rightarrow> 'a list \<Rightarrow> 'a list" where
  "replace_char a b s = map (\<lambda>c. if c = a then b else c) s"

lemma replace_char_length [simp]: "length (replace_char a b s) = length s"
  by (simp add: replace_char_def)

lemma replace_char_absent [simp]: "a \<notin> set s \<Longrightarrow> replace_char a b s = s"
  by (auto simp: replace_char_def intro: map_idI)

lemma replace_char_removes: "a \<noteq> b \<Longrightarrow> a \<notin> set (replace_char a b s)"
  by (auto simp: replace_char_def)

lemma set_replace_char: "set (replace_char a b s) \<subseteq> insert b (set s)"
  by (auto simp: replace_char_def)

definition starts_with :: "'a list \<Rightarrow> 'a list \<Rightarrow> bool" where
  "starts_with s p = (take (length p) s = p)"

lemma starts_with_iff: "starts_with s p \<longleftrightarrow> (\<exists>r. s = p @ r)"
  unfolding starts_with_def by (metis append_eq_conv_conj append_take_drop_id)

definition ends_with :: "'a list \<Rightarrow> 'a list \<Rightarrow> bool" where
  "ends_with s p = starts_with (rev s) (rev p)"

lemma ends_with_iff: "ends_with s p \<longleftrightarrow> (\<exists>r. s = r @ p)"
  unfolding ends_with_def starts_with_iff
  by (metis rev_append rev_rev_ident)

definition strip_prefix :: "'a list \<Rightarrow> 'a list \<Rightarrow> 'a list option" where
  "strip_prefix p s = (if starts_with s p then Some (drop (length p) s) else None)"

lemma strip_prefix_Some: "strip_prefix p s = Some r \<longleftrightarrow> s = p @ r"
  by (auto simp: strip_prefix_def starts_with_iff)

lemma strip_prefix_append [simp]: "strip_prefix p (p @ r) = Some r"
  by (simp add: strip_prefix_Some)


section \<open>Sequences of calls\<close>

text \<open>
  Calling an operation again and again on one object: the log pairs each call with its result.
  The contract \<open>logged_object\<close> is an invariant of the object and of the log of all calls so
  far, kept by every call; \<open>run_keeps\<close> is its consequence for any sequence.
\<close>

fun run_calls :: "('c \<Rightarrow> 's \<Rightarrow> 'r \<times> 's) \<Rightarrow> 'c list \<Rightarrow> 's \<Rightarrow> ('c \<times> 'r) list \<times> 's" where
  "run_calls step [] s = ([], s)"
| "run_calls step (c # cs) s =
     (case step c s of (r, s') \<Rightarrow> (case run_calls step cs s' of (log, t) \<Rightarrow> ((c, r) # log, t)))"

lemma run_calls_length: "run_calls step cs s = (log, t) \<Longrightarrow> map fst log = cs"
  by (induction cs arbitrary: s log t) (auto split: prod.splits)

locale logged_object =
  fixes step :: "'c \<Rightarrow> 's \<Rightarrow> 'r \<times> 's"
    and inv :: "('c \<times> 'r) list \<Rightarrow> 's \<Rightarrow> bool"
  assumes step_keeps: "\<lbrakk>inv log s; step c s = (r, s')\<rbrakk> \<Longrightarrow> inv (log @ [(c, r)]) s'"
begin

lemma run_keeps: "\<lbrakk>inv log s; run_calls step cs s = (log', t)\<rbrakk> \<Longrightarrow> inv (log @ log') t"
proof (induction cs arbitrary: log s log')
  case (Cons c cs)
  obtain r s' where 1: "step c s = (r, s')" by (cases "step c s")
  obtain l where 2: "run_calls step cs s' = (l, t)" and l: "log' = (c, r) # l"
    using Cons.prems 1 by (auto split: prod.splits)
  show ?case using Cons.IH [OF step_keeps [OF Cons.prems(1) 1] 2] l by simp
qed simp

lemma run_from_start: "inv [] s \<Longrightarrow> inv (fst (run_calls step cs s)) (snd (run_calls step cs s))"
  using run_keeps [of "[]" s cs, OF _ surjective_pairing] by simp

end

end
