(* ===== verification/Rust_Path.thy ===== *)
theory Rust_Path
  imports Prelude
begin

text \<open>
  What the safety code uses of \<open>std::path\<close>, in its Unix form.  A \<open>Path\<close> compares, prefixes
  and splits by its \<open>components()\<close>, so a \<open>PathBuf\<close> is its list of components;
  \<open>path_of_string\<close> is \<open>Path::new(text).components()\<close> (repeated separators and inner \<open>.\<close>
  vanish, a leading \<open>.\<close> stays), \<open>render_path\<close> the text of a path built by \<open>push\<close>.
  \<open>lexically_normalize\<close> is the function of \<open>crates/zmanager-core/src/safety.rs\<close>.
\<close>

section \<open>Paths\<close>

datatype component = RootDir | CurDir | ParentDir | Normal string

type_synonym path = "component list"

fun body_component :: "string \<Rightarrow> component list" where
  "body_component s =
     (if s = '''' \<or> s = ''.'' then [] else if s = ''..'' then [ParentDir] else [Normal s])"

definition path_of_string :: "string \<Rightarrow> path" where
  "path_of_string s =
     (let parts = split_on (CHR ''/'') s in
      (if starts_with s ''/'' then [RootDir] else if hd parts = ''.'' then [CurDir] else [])
      @ concat (map body_component parts))"

fun component_text :: "component \<Rightarrow> string" where
  "component_text RootDir = ''/''"
| "component_text CurDir = ''.''"
| "component_text ParentDir = ''..''"
| "component_text (Normal s) = s"

fun render_path :: "path \<Rightarrow> string" where
  "render_path (RootDir # p) = ''/'' @ join_with ''/'' (map component_text p)"
| "render_path p = join_with ''/'' (map component_text p)"

fun is_absolute :: "path \<Rightarrow> bool" where
  "is_absolute (RootDir # p) = True"
| "is_absolute p = False"

fun path_join :: "path \<Rightarrow> path \<Rightarrow> path" where
  "path_join p (RootDir # q) = RootDir # q"
| "path_join p (CurDir # q) = (if p = [] then CurDir # q else p @ q)"
| "path_join p q = p @ q"

definition path_parent :: "path \<Rightarrow> path option" where
  "path_parent p = (if p = [] \<or> last p = RootDir then None else Some (butlast p))"

definition path_pop :: "path \<Rightarrow> path" where
  "path_pop p = (case path_parent p of None \<Rightarrow> p | Some q \<Rightarrow> q)"

definition path_file_name :: "path \<Rightarrow> string option" where
  "path_file_name p = (if p = [] then None else (case last p of Normal s \<Rightarrow> Some s | _ \<Rightarrow> None))"

text \<open>\<open>rsplit_file_at_dot\<close> of the standard library: the last dot splits, but not a leading one.\<close>

definition rsplit_file_at_dot :: "string \<Rightarrow> string option \<times> string option" where
  "rsplit_file_at_dot f =
     (if CHR ''.'' \<notin> set f then (None, Some f)
      else let ext = rev (takeWhile (\<lambda>c. c \<noteq> CHR ''.'') (rev f));
               before = take (length f - length ext - 1) f
           in if before = [] then (Some f, None) else (Some before, Some ext))"

definition path_file_stem :: "path \<Rightarrow> string option" where
  "path_file_stem p = (case path_file_name p of None \<Rightarrow> None
     | Some f \<Rightarrow> (case rsplit_file_at_dot f of (Some b, _) \<Rightarrow> Some b | (None, a) \<Rightarrow> a))"

definition path_extension :: "path \<Rightarrow> string option" where
  "path_extension p = (case path_file_name p of None \<Rightarrow> None
     | Some f \<Rightarrow> (case rsplit_file_at_dot f of (Some _, a) \<Rightarrow> a | (None, _) \<Rightarrow> None))"

section \<open>Lexical normalization\<close>

fun lex_push :: "path \<Rightarrow> component \<Rightarrow> path" where
  "lex_push normalized CurDir = normalized"
| "lex_push normalized ParentDir = path_pop normalized"
| "lex_push normalized (Normal part) = normalized @ [Normal part]"
| "lex_push normalized RootDir = [RootDir]"

definition lexically_normalize :: "path \<Rightarrow> path" where
  "lexically_normalize p = foldl lex_push [] p"

text \<open>The paths it returns: an optional root, then plain names only.\<close>

definition normal_path :: "path \<Rightarrow> bool" where
  "normal_path p \<longleftrightarrow> (\<exists>ns. p = map Normal ns \<or> p = RootDir # map Normal ns)"

lemma normal_path_Nil [simp]: "normal_path []"
  by (simp add: normal_path_def)

lemma normal_path_Root [simp]: "normal_path [RootDir]"
  by (auto simp: normal_path_def)

lemma normal_path_append [intro]: "normal_path p \<Longrightarrow> normal_path (p @ map Normal ns)"
  by (auto simp: normal_path_def) (metis map_append)+

lemma normal_path_butlast: "normal_path p \<Longrightarrow> last p \<noteq> RootDir \<Longrightarrow> normal_path (butlast p)"
  by (auto simp: normal_path_def map_butlast [symmetric])

lemma normal_path_pop [intro]: "normal_path p \<Longrightarrow> normal_path (path_pop p)"
  by (auto simp: path_pop_def path_parent_def normal_path_butlast)

lemma normal_path_push [intro]: "normal_path p \<Longrightarrow> normal_path (lex_push p c)"
  using normal_path_append [of p "[_]"] by (cases c) auto

lemma normal_path_foldl: "normal_path p \<Longrightarrow> normal_path (foldl lex_push p cs)"
  by (induction cs arbitrary: p) auto

lemma normal_path_normalize [simp, intro]: "normal_path (lexically_normalize p)"
  by (simp add: lexically_normalize_def normal_path_foldl)

lemma foldl_lex_push_Normal: "foldl lex_push p (map Normal ns) = p @ map Normal ns"
  by (induction ns arbitrary: p) auto

lemma lexically_normalize_append:
  "lexically_normalize (p @ q) = foldl lex_push (lexically_normalize p) q"
  by (simp add: lexically_normalize_def)

lemma lexically_normalize_id [simp]: "normal_path p \<Longrightarrow> lexically_normalize p = p"
  by (auto simp: normal_path_def lexically_normalize_def foldl_lex_push_Normal)

lemma lexically_normalize_below:
  "normal_path root \<Longrightarrow> lexically_normalize (root @ map Normal ns) = root @ map Normal ns"
  by (simp add: normal_path_append)

text \<open>A normal path with at least one name.\<close>

definition named_path :: "path \<Rightarrow> bool" where
  "named_path p \<longleftrightarrow> normal_path p \<and> p \<noteq> [] \<and> last p \<noteq> RootDir"

lemma named_pathE:
  assumes "named_path p"
  obtains ms where "ms \<noteq> []" "p = map Normal ms \<or> p = RootDir # map Normal ms"
proof -
  from assms obtain ms where "p = map Normal ms \<or> p = RootDir # map Normal ms"
    by (auto simp: named_path_def normal_path_def)
  moreover have "ms \<noteq> []" using calculation assms by (auto simp: named_path_def)
  ultimately show ?thesis using that by blast
qed

lemma normal_path_tail: "normal_path (p @ q) \<Longrightarrow> p \<noteq> [] \<Longrightarrow> \<exists>ns. q = map Normal ns"
  by (auto simp: normal_path_def append_eq_map_conv append_eq_Cons_conv Cons_eq_append_conv)

lemma normal_path_prefix: "normal_path (p @ q) \<Longrightarrow> normal_path p"
  by (auto simp: normal_path_def append_eq_map_conv append_eq_Cons_conv Cons_eq_append_conv)

lemma named_path_snoc [simp]: "normal_path p \<Longrightarrow> named_path (p @ [Normal s])"
  using normal_path_append [of p "[s]"] by (simp add: named_path_def)

text \<open>Names a single archive component can carry: \<open>path_of_string\<close> keeps them as they are.\<close>

definition plain_name :: "string \<Rightarrow> bool" where
  "plain_name s \<longleftrightarrow> s \<noteq> '''' \<and> s \<noteq> ''.'' \<and> s \<noteq> ''..'' \<and> CHR ''/'' \<notin> set s"

lemma body_component_plain [simp]: "plain_name s \<Longrightarrow> body_component s = [Normal s]"
  by (simp add: plain_name_def)

declare body_component.simps [simp del]

lemma concat_body_plain: "\<forall>s \<in> set ps. plain_name s \<Longrightarrow> concat (map body_component ps) = map Normal ps"
  by (induction ps) auto

lemma path_of_string_plain:
  assumes "ps \<noteq> []" and "\<forall>s \<in> set ps. plain_name s"
  shows "path_of_string (join_with ''/'' ps) = map Normal ps"
proof -
  have split: "split_on (CHR ''/'') (join_with ''/'' ps) = ps"
    using assms split_join [of ps] by (auto simp: plain_name_def)
  obtain p ps' where ps: "ps = p # ps'" using assms(1) by (cases ps) auto
  then have p: "plain_name p" using assms(2) by auto
  then obtain c cs where c: "p = c # cs" "c \<noteq> CHR ''/''" by (cases p) (auto simp: plain_name_def)
  have "\<not> starts_with (join_with ''/'' ps) ''/''"
    using ps c by (cases ps') (auto simp: starts_with_def)
  moreover have "hd ps \<noteq> ''.''" using ps p by (auto simp: plain_name_def)
  ultimately show ?thesis
    using concat_body_plain [OF assms(2)] by (simp add: path_of_string_def split)
qed

lemma path_join_Normal [simp]: "path_join p (map Normal ns) = p @ map Normal ns"
  by (cases ns) auto

lemma path_join_Normal_Cons [simp]: "path_join p (Normal s # q) = p @ Normal s # q"
  by simp

lemma path_parent_snoc [simp]: "path_parent (p @ [Normal s]) = Some p"
  by (simp add: path_parent_def)

lemma path_file_name_snoc [simp]: "path_file_name (p @ [Normal s]) = Some s"
  by (simp add: path_file_name_def)

lemma rsplit_stem_cases:
  assumes "rsplit_file_at_dot f = (b, a)"
  shows "b = None \<and> a = Some f \<or> b = Some f \<and> a = None \<or>
         (\<exists>b' a'. b = Some b' \<and> a = Some a' \<and> f = b' @ ''.'' @ a' \<and> b' \<noteq> [])"
proof (cases "CHR ''.'' \<in> set f")
  case False
  then show ?thesis using assms by (simp add: rsplit_file_at_dot_def)
next
  case True
  then obtain b' a' where f: "f = b' @ CHR ''.'' # a'" and na: "CHR ''.'' \<notin> set a'"
    using split_list_last by metis
  have "takeWhile (\<lambda>c. c \<noteq> CHR ''.'') (rev f) = rev a'"
    using na by (auto simp: f takeWhile_tail)
  then have eq: "rsplit_file_at_dot f = (if b' = [] then (Some f, None) else (Some b', Some a'))"
    using True by (simp add: rsplit_file_at_dot_def) (simp add: f)
  show ?thesis
  proof (cases "b' = []")
    case True
    then show ?thesis using assms eq by simp
  next
    case False
    then have "b = Some b' \<and> a = Some a'" using assms eq by simp
    then show ?thesis using f False by auto
  qed
qed

lemmas path_simps = path_of_string_plain lexically_normalize_below path_join_Normal

end
