(* ===== verification/Wildcard.thy ===== *)
theory Wildcard
  imports Prelude
begin

text \<open>
  The shared wildcard matcher (\<open>crates/zmanager-core/src/wildcard.rs\<close>): a greedy two-pointer
  loop with one remembered star.  \<open>wildcard_loop\<close> is the first \<open>while\<close> of
  \<open>wildcard_matches_custom\<close> over the same four variables, \<open>skip_multi\<close> the second.
  The abstract specification is \<open>glob\<close>, the textbook meaning of a pattern; the locale
  \<open>glob_tokens\<close> proves once, for any two token predicates, that the loop decides it, and it
  is interpreted on the two uses the code has: bytes with \<open>*\<close> and \<open>?\<close> here, path segments
  with \<open>**\<close> in the theory of \<open>.gitignore\<close> rules.
\<close>

section \<open>The matcher\<close>

function wildcard_loop ::
  "'p list \<Rightarrow> 't list \<Rightarrow> ('p \<Rightarrow> bool) \<Rightarrow> ('p \<Rightarrow> 't \<Rightarrow> bool) \<Rightarrow>
   nat \<Rightarrow> nat \<Rightarrow> nat option \<Rightarrow> nat \<Rightarrow> nat option" where
  "wildcard_loop pattern value is_multi_wildcard matches_single pattern_index value_index last_star star_value_index =
     (if value_index < length value then
        if pattern_index < length pattern \<and> is_multi_wildcard (pattern ! pattern_index) then
          wildcard_loop pattern value is_multi_wildcard matches_single
            (pattern_index + 1) value_index (Some pattern_index) value_index
        else if pattern_index < length pattern \<and> matches_single (pattern ! pattern_index) (value ! value_index) then
          wildcard_loop pattern value is_multi_wildcard matches_single
            (pattern_index + 1) (value_index + 1) last_star star_value_index
        else (case last_star of
            Some star_index \<Rightarrow>
              wildcard_loop pattern value is_multi_wildcard matches_single
                (star_index + 1) (star_value_index + 1) last_star (star_value_index + 1)
          | None \<Rightarrow> None)
      else Some pattern_index)"
  by pat_completeness auto
termination
  by (relation "measures
        [\<lambda>(p, v, m, s, i, j, ls, sv). if (\<exists>k. ls = Some k \<and> i \<le> k) then 1 else 0,
         \<lambda>(p, v, m, s, i, j, ls, sv). length p + 1 - (case ls of None \<Rightarrow> 0 | Some k \<Rightarrow> k + 1),
         \<lambda>(p, v, m, s, i, j, ls, sv). length v - sv,
         \<lambda>(p, v, m, s, i, j, ls, sv). length v - j]")
     (auto split: option.splits)

declare wildcard_loop.simps [simp del]

function skip_multi :: "'p list \<Rightarrow> ('p \<Rightarrow> bool) \<Rightarrow> nat \<Rightarrow> nat" where
  "skip_multi pattern is_multi_wildcard pattern_index =
     (if pattern_index < length pattern \<and> is_multi_wildcard (pattern ! pattern_index)
      then skip_multi pattern is_multi_wildcard (pattern_index + 1) else pattern_index)"
  by pat_completeness auto
termination
  by (relation "measure (\<lambda>(p, m, i). length p - i)") auto

declare skip_multi.simps [simp del]

definition wildcard_matches_custom ::
  "'p list \<Rightarrow> 't list \<Rightarrow> ('p \<Rightarrow> bool) \<Rightarrow> ('p \<Rightarrow> 't \<Rightarrow> bool) \<Rightarrow> bool" where
  "wildcard_matches_custom pattern value is_multi_wildcard matches_single =
     (case wildcard_loop pattern value is_multi_wildcard matches_single 0 0 None 0 of
        None \<Rightarrow> False
      | Some pattern_index \<Rightarrow> skip_multi pattern is_multi_wildcard pattern_index = length pattern)"

definition is_star :: "char \<Rightarrow> bool" where
  "is_star p \<longleftrightarrow> p = CHR ''*''"

definition byte_matches :: "char \<Rightarrow> char \<Rightarrow> bool" where
  "byte_matches p v \<longleftrightarrow> p = CHR ''?'' \<or> p = v"

definition wildcard_matches :: "string \<Rightarrow> string \<Rightarrow> bool" where
  "wildcard_matches pattern value = wildcard_matches_custom pattern value is_star byte_matches"

section \<open>The meaning of a pattern\<close>

fun glob :: "('p \<Rightarrow> bool) \<Rightarrow> ('p \<Rightarrow> 't \<Rightarrow> bool) \<Rightarrow> 'p list \<Rightarrow> 't list \<Rightarrow> bool" where
  "glob multi single [] v \<longleftrightarrow> v = []"
| "glob multi single (p # ps) v \<longleftrightarrow>
     (if multi p then \<exists>k \<le> length v. glob multi single ps (drop k v)
      else (case v of [] \<Rightarrow> False | x # xs \<Rightarrow> single p x \<and> glob multi single ps xs))"

locale glob_tokens =
  fixes multi :: "'p \<Rightarrow> bool" and single :: "'p \<Rightarrow> 't \<Rightarrow> bool"
begin

text \<open>\<open>G\<close> reads the specification at a pair of positions, as the loop does.\<close>

definition G :: "'p list \<Rightarrow> 't list \<Rightarrow> nat \<Rightarrow> nat \<Rightarrow> bool" where
  "G p v i j \<longleftrightarrow> glob multi single (drop i p) (drop j v)"

lemma G_multi:
  assumes "i < length p" and "multi (p ! i)" and "j \<le> length v"
  shows "G p v i j \<longleftrightarrow> (\<exists>k \<ge> j. k \<le> length v \<and> G p v (i + 1) k)"
proof
  assume "G p v i j"
  then obtain k where "k \<le> length v - j" and "G p v (i + 1) (k + j)"
    using assms by (auto simp: G_def Cons_nth_drop_Suc [symmetric])
  with assms(3) have "j \<le> k + j \<and> k + j \<le> length v \<and> G p v (i + 1) (k + j)" by simp
  then show "\<exists>k \<ge> j. k \<le> length v \<and> G p v (i + 1) k" by blast
next
  assume "\<exists>k \<ge> j. k \<le> length v \<and> G p v (i + 1) k"
  then obtain k where k: "j \<le> k" "k \<le> length v" "G p v (i + 1) k" by blast
  then have "k - j \<le> length v - j \<and> glob multi single (drop (i + 1) p) (drop (k - j) (drop j v))"
    by (simp add: G_def)
  then show "G p v i j"
    using assms by (auto simp: G_def Cons_nth_drop_Suc [symmetric])
qed

lemma G_single:
  assumes "i < length p" and "\<not> multi (p ! i)" and "j < length v"
  shows "G p v i j \<longleftrightarrow> single (p ! i) (v ! j) \<and> G p v (i + 1) (j + 1)"
  using assms by (simp add: G_def Cons_nth_drop_Suc [symmetric])

lemma G_single_end:
  assumes "i < length p" and "\<not> multi (p ! i)" and "length v \<le> j"
  shows "\<not> G p v i j"
  using assms by (simp add: G_def Cons_nth_drop_Suc [symmetric])

lemma G_pattern_end: "length p \<le> i \<Longrightarrow> G p v i j \<longleftrightarrow> length v \<le> j"
  by (simp add: G_def)

text \<open>A run of single tokens consumes exactly its length.\<close>

lemma G_run:
  assumes "\<forall>m < n. i + m < length p \<and> \<not> multi (p ! (i + m))" and "G p v i j" and "j \<le> length v"
  shows "j + n \<le> length v \<and> G p v (i + n) (j + n)"
  using assms
proof (induction n)
  case (Suc n)
  then have IH: "j + n \<le> length v" "G p v (i + n) (j + n)" by auto
  from Suc.prems(1) have s: "i + n < length p" "\<not> multi (p ! (i + n))" by auto
  with IH(2) G_single_end have lt: "j + n < length v" by (meson not_le)
  with s IH(2) G_single have "G p v (i + n + 1) (j + n + 1)" by blast
  with lt show ?case by simp
qed simp

lemma skip_multi_G:
  assumes "i \<le> length p"
  shows "skip_multi p multi i = length p \<longleftrightarrow> G p v i (length v)"
  using assms
proof (induction "length p - i" arbitrary: i)
  case 0
  then show ?case by (simp add: skip_multi.simps [of p] G_pattern_end)
next
  case (Suc n)
  then have lt: "i < length p" by simp
  show ?case
  proof (cases "multi (p ! i)")
    case True
    have "skip_multi p multi i = length p \<longleftrightarrow> G p v (i + 1) (length v)"
      using Suc.hyps(1) [of "i + 1"] Suc.hyps(2) lt True by (simp add: skip_multi.simps [of p multi i])
    also have "\<dots> \<longleftrightarrow> G p v i (length v)"
      using G_multi [OF lt True, of "length v" v] by auto
    finally show ?thesis .
  next
    case False
    with lt G_single_end [OF lt False] show ?thesis by (simp add: skip_multi.simps [of p multi i])
  qed
qed

text \<open>
  What the loop's variables mean: behind a remembered star the pattern has matched single
  tokens only, as many as the value has advanced since.
\<close>

definition star_inv :: "'p list \<Rightarrow> 't list \<Rightarrow> nat \<Rightarrow> nat \<Rightarrow> nat option \<Rightarrow> nat \<Rightarrow> bool" where
  "star_inv p v i j ls sv \<longleftrightarrow> i \<le> length p \<and> j \<le> length v \<and>
     (\<forall>s. ls = Some s \<longrightarrow> sv \<le> j \<and> i + sv = j + s + 1 \<and>
        (\<forall>m < j - sv. \<not> multi (p ! (s + 1 + m))))"

definition pending :: "'p list \<Rightarrow> 't list \<Rightarrow> nat option \<Rightarrow> nat \<Rightarrow> bool" where
  "pending p v ls sv \<longleftrightarrow> (\<exists>s k. ls = Some s \<and> sv < k \<and> k \<le> length v \<and> G p v (s + 1) k)"

lemma pending_shifts:
  assumes "star_inv p v i j ls sv" and "pending p v ls sv"
  shows "\<exists>k > j. k \<le> length v \<and> G p v i k"
proof -
  from assms(2) obtain s k where ls: "ls = Some s" and k: "sv < k" "k \<le> length v" "G p v (s + 1) k"
    by (auto simp: pending_def)
  from assms(1) ls have b: "i \<le> length p" "sv \<le> j" "i + sv = j + s + 1"
    and nm: "\<forall>m < j - sv. \<not> multi (p ! (s + 1 + m))" by (auto simp: star_inv_def)
  then have run: "\<forall>m < j - sv. s + 1 + m < length p \<and> \<not> multi (p ! (s + 1 + m))" by auto
  from G_run [OF run k(3,2)] have "k + (j - sv) \<le> length v \<and> G p v (s + 1 + (j - sv)) (k + (j - sv))" .
  moreover have "s + 1 + (j - sv) = i" using b by simp
  ultimately show ?thesis using k(1) b(2) by (intro exI [of _ "k + (j - sv)"]) auto
qed

lemma wildcard_loop_G:
  assumes "star_inv p v i j ls sv"
  shows "(case wildcard_loop p v multi single i j ls sv of
            None \<Rightarrow> False | Some i' \<Rightarrow> skip_multi p multi i' = length p)
         \<longleftrightarrow> G p v i j \<or> pending p v ls sv"
  using assms
proof (induction p v m \<equiv> multi t \<equiv> single i j ls sv rule: wildcard_loop.induct)
  case (1 p v i j ls sv)
  note inv = "1.prems"
  note step = wildcard_loop.simps [of p v multi single i j ls sv]
  show ?case
  proof (cases "j < length v")
    case False
    with inv have j: "j = length v" by (auto simp: star_inv_def)
    then have "\<not> pending p v ls sv" using pending_shifts [OF inv] by auto
    moreover have "wildcard_loop p v multi single i j ls sv = Some i" using False by (simp add: step)
    ultimately show ?thesis using j inv skip_multi_G [of i p v] by (simp add: star_inv_def)
  next
    case lt: True
    consider (multi) "i < length p" "multi (p ! i)"
      | (single) "i < length p" "\<not> multi (p ! i)" "single (p ! i) (v ! j)"
      | (miss) "\<not> (i < length p \<and> multi (p ! i))" "\<not> (i < length p \<and> single (p ! i) (v ! j))" by blast
    then show ?thesis
    proof cases
      case multi
      have "star_inv p v (i + 1) j (Some i) j" using inv multi by (auto simp: star_inv_def)
      then have "(case wildcard_loop p v multi single i j ls sv of None \<Rightarrow> False | Some i' \<Rightarrow> skip_multi p multi i' = length p)
          \<longleftrightarrow> G p v (i + 1) j \<or> pending p v (Some i) j"
        using "1.hyps"(1) lt multi by (simp add: step)
      also have "\<dots> \<longleftrightarrow> G p v i j"
        using G_multi [OF multi, of j v] lt by (auto simp: pending_def le_less)
      also have "\<dots> \<longleftrightarrow> G p v i j \<or> pending p v ls sv"
      proof -
        have "pending p v ls sv \<Longrightarrow> G p v i j"
          using pending_shifts [OF inv] G_multi [OF multi] lt by (meson le_trans less_imp_le)
        then show ?thesis by blast
      qed
      finally show ?thesis .
    next
      case single
      have "star_inv p v (i + 1) (j + 1) ls sv"
        unfolding star_inv_def
      proof (intro conjI allI impI)
        fix s m assume ls: "ls = Some s" and m: "m < j + 1 - sv"
        from inv ls have "sv \<le> j" "i = s + 1 + (j - sv)" by (auto simp: star_inv_def)
        with m inv ls single(2) show "\<not> multi (p ! (s + 1 + m))"
          by (cases "m = j - sv") (auto simp: star_inv_def)
      qed (use inv single lt in \<open>auto simp: star_inv_def\<close>)
      then show ?thesis
        using "1.hyps"(2) lt single G_single [OF single(1,2) lt] by (simp add: step)
    next
      case miss
      have no: "\<not> G p v i j"
        using miss lt G_single [of i p j v] G_pattern_end [of p i v j] by (meson not_le)
      show ?thesis
      proof (cases ls)
        case None
        then have "wildcard_loop p v multi single i j ls sv = None" using lt miss step by auto
        with None no show ?thesis by (simp add: pending_def)
      next
        case (Some k)
        have "star_inv p v (k + 1) (sv + 1) ls (sv + 1)"
          using inv lt Some by (auto simp: star_inv_def)
        moreover have "wildcard_loop p v multi single i j ls sv =
            wildcard_loop p v multi single (k + 1) (sv + 1) ls (sv + 1)"
          using lt miss Some step by auto
        ultimately have "(case wildcard_loop p v multi single i j ls sv of
              None \<Rightarrow> False | Some i' \<Rightarrow> skip_multi p multi i' = length p)
            \<longleftrightarrow> G p v (k + 1) (sv + 1) \<or> pending p v ls (sv + 1)"
          using "1.hyps"(3) [OF lt miss Some] by simp
        moreover have "sv + 1 \<le> length v" using inv lt Some by (auto simp: star_inv_def)
        ultimately show ?thesis
          using no Some by (auto simp: pending_def) (metis Suc_lessI Suc_lessD)+
      qed
    qed
  qed
qed

lemma wildcard_matches_custom_glob:
  "wildcard_matches_custom p v multi single \<longleftrightarrow> glob multi single p v"
proof -
  have "star_inv p v 0 0 None 0" by (simp add: star_inv_def)
  from wildcard_loop_G [OF this] show ?thesis
    by (simp add: wildcard_matches_custom_def pending_def G_def)
qed

end

interpretation bytes: glob_tokens is_star byte_matches .

lemma wildcard_matches_glob: "wildcard_matches pattern value \<longleftrightarrow> glob is_star byte_matches pattern value"
  unfolding wildcard_matches_def by (rule bytes.wildcard_matches_custom_glob)

section \<open>Properties\<close>

text \<open>
  C15. The greedy loop decides the meaning of the pattern: for every byte pattern and every
  byte string, \<open>wildcard_matches\<close> returns true exactly when the value can be cut along the
  pattern's stars, \<open>?\<close> matching any byte.  The loop is total (no input makes it run on), so
  remembering one star only loses no match.
\<close>

theorem wildcard_matches_correct:
  "wildcard_matches pattern value \<longleftrightarrow> glob is_star byte_matches pattern value"
  unfolding wildcard_matches_def by (rule bytes.wildcard_matches_custom_glob)

end
