(* ===== verification/Archive_Path.thy ===== *)
theory Archive_Path
  imports Rust_Path Wildcard
begin

text \<open>
  Archive paths as text (\<open>crates/zmanager-core/src/safety.rs\<close>): the hazards a raw path is
  rejected for, its normalization to a relative slash-separated path, the case-collision
  key, selectors, and include/exclude patterns.  Every early return of the source is a
  constructor of \<open>extraction_safety_error\<close>.  The Unicode lowercase table of the standard
  library is the parameter \<open>ulower\<close> (one non-ASCII character, as its UTF-8 bytes, to the
  bytes of its lowercase form); nothing is assumed of it.
\<close>

section \<open>Errors\<close>

datatype extraction_safety_error =
    EmptyPath
  | NulByte string
  | AbsolutePath string
  | WindowsPrefix string
  | ParentTraversal string
  | PathTooLong string
  | WindowsReservedName string string
  | DestinationEscape string path path
  | NameCollision string string
  | DestinationExists string path
  | OverwritePromptUnavailable string path
  | OverwriteAborted string path
  | DestinationProbe string path string
  | SymlinkAncestor string path
  | UnsafeFileType string
  | LinkTargetEscapes string
  | RenameDestinationExhausted string path
  | ExpandedSizeLimitExceeded string u64 u64
  | ExpansionRatioLimitExceeded string u64 u64 u64
  | EntryCountLimitExceeded string u64 u64

section \<open>ASCII and the collision key\<close>

definition byte_val :: "char \<Rightarrow> nat" where
  "byte_val c = of_char c"

definition ascii_upper :: "char \<Rightarrow> char" where
  "ascii_upper c = (if 97 \<le> byte_val c \<and> byte_val c \<le> 122 then char_of (byte_val c - 32) else c)"

definition ascii_lower :: "char \<Rightarrow> char" where
  "ascii_lower c = (if 65 \<le> byte_val c \<and> byte_val c \<le> 90 then char_of (byte_val c + 32) else c)"

definition is_ascii :: "char \<Rightarrow> bool" where
  "is_ascii c \<longleftrightarrow> byte_val c < 128"

definition is_continuation :: "char \<Rightarrow> bool" where
  "is_continuation c \<longleftrightarrow> 128 \<le> byte_val c \<and> byte_val c < 192"

text \<open>\<open>str::chars\<close> on UTF-8 bytes: a character is an ASCII byte, or a leading byte and its
  continuation bytes.\<close>

fun utf8_chars :: "string \<Rightarrow> string list" where
  "utf8_chars [] = []"
| "utf8_chars (c # cs) =
     (case utf8_chars cs of
        [] \<Rightarrow> [[c]]
      | g # gs \<Rightarrow> if is_continuation (hd g) \<and> \<not> is_ascii c then (c # g) # gs else [c] # g # gs)"

definition char_to_lowercase :: "(string \<Rightarrow> string) \<Rightarrow> string \<Rightarrow> string" where
  "char_to_lowercase ulower g =
     (case g of [c] \<Rightarrow> if is_ascii c then [ascii_lower c] else ulower g | _ \<Rightarrow> ulower g)"

definition case_collision_key :: "(string \<Rightarrow> string) \<Rightarrow> string \<Rightarrow> string" where
  "case_collision_key ulower path =
     (if list_all is_ascii path then map ascii_lower path
      else concat (map (char_to_lowercase ulower) (utf8_chars path)))"

section \<open>Raw path hazards and normalization\<close>

definition has_windows_prefix :: "string \<Rightarrow> bool" where
  "has_windows_prefix path \<longleftrightarrow>
     (length path \<ge> 2 \<and>
        (65 \<le> byte_val (path ! 0) \<and> byte_val (path ! 0) \<le> 90 \<or>
         97 \<le> byte_val (path ! 0) \<and> byte_val (path ! 0) \<le> 122) \<and> path ! 1 = CHR '':'')
     \<or> starts_with path ''//''"

abbreviation nul :: char where
  "nul \<equiv> CHR 0x00"

abbreviation backslash :: char where
  "backslash \<equiv> CHR 0x5C"

definition slash_path :: "string \<Rightarrow> string" where
  "slash_path raw_path = replace_char backslash (CHR ''/'') raw_path"

definition reject_raw_path_hazards :: "string \<Rightarrow> (extraction_safety_error, unit) result" where
  "reject_raw_path_hazards raw_path =
     (if nul \<in> set raw_path then Inl (NulByte raw_path)
      else if has_windows_prefix (slash_path raw_path) then Inl (WindowsPrefix raw_path)
      else if starts_with (slash_path raw_path) ''/'' then Inl (AbsolutePath raw_path)
      else Inr ())"

definition reserved_stems :: "string list" where
  "reserved_stems =
     [''CON'', ''PRN'', ''AUX'', ''NUL'',
      ''COM1'', ''COM2'', ''COM3'', ''COM4'', ''COM5'', ''COM6'', ''COM7'', ''COM8'', ''COM9'',
      ''LPT1'', ''LPT2'', ''LPT3'', ''LPT4'', ''LPT5'', ''LPT6'', ''LPT7'', ''LPT8'', ''LPT9'']"

definition windows_reserved :: "string \<Rightarrow> bool" where
  "windows_reserved part \<longleftrightarrow> hd (split_on (CHR ''.'') (map ascii_upper part)) \<in> set reserved_stems"

fun normalize_parts ::
  "string \<Rightarrow> string list \<Rightarrow> string list \<Rightarrow> (extraction_safety_error, string list) result" where
  "normalize_parts raw_path parts [] = Inr parts"
| "normalize_parts raw_path parts (part # rest) =
     (if length part > 255 then Inl (PathTooLong raw_path)
      else if windows_reserved part then Inl (WindowsReservedName raw_path part)
      else if part = '''' \<or> part = ''.'' then normalize_parts raw_path parts rest
      else if part = ''..'' then Inl (ParentTraversal raw_path)
      else normalize_parts raw_path (parts @ [part]) rest)"

definition normalize_archive_path :: "string \<Rightarrow> (extraction_safety_error, string) result" where
  "normalize_archive_path raw_path =
     and_then (reject_raw_path_hazards raw_path) (\<lambda>_.
     and_then (normalize_parts raw_path [] (split_on (CHR ''/'') (slash_path raw_path))) (\<lambda>parts.
       if parts = [] then Inl EmptyPath else Inr (join_with ''/'' parts)))"

section \<open>Selectors and component stripping\<close>

definition normalize_selector :: "string \<Rightarrow> string" where
  "normalize_selector path =
     join_with ''/'' (filter (\<lambda>segment. segment \<noteq> '''' \<and> segment \<noteq> ''.'')
       (split_on (CHR ''/'') (trim_matches (CHR ''/'') (replace_char backslash (CHR ''/'') path))))"

definition normalized_entry_matches_normalized_selector :: "string \<Rightarrow> string \<Rightarrow> bool" where
  "normalized_entry_matches_normalized_selector norm_entry norm_selected \<longleftrightarrow>
     norm_selected = '''' \<or> norm_entry = norm_selected \<or>
     (length norm_entry > length norm_selected \<and> starts_with norm_entry norm_selected
        \<and> norm_entry ! length norm_selected = CHR ''/'')"

definition archive_entry_matches_selected :: "string \<Rightarrow> string \<Rightarrow> bool" where
  "archive_entry_matches_selected entry_path selected_path =
     normalized_entry_matches_normalized_selector (normalize_selector entry_path) (normalize_selector selected_path)"

definition strip_archive_components :: "string \<Rightarrow> nat \<Rightarrow> string option" where
  "strip_archive_components path count =
     (let components = drop count (split_on (CHR ''/'') path)
      in if components = [] then None else Some (join_with ''/'' components))"

section \<open>Include and exclude patterns\<close>

record compiled_pattern =
  norm_pattern :: string
  clean_prefix :: "string option"
  ends_with_doublestar :: "string option"
  is_wildcard :: bool

text \<open>\<open>trim_end_matches\<close> with a string needle removes it repeatedly.\<close>

function trim_end_str :: "string \<Rightarrow> string \<Rightarrow> string" where
  "trim_end_str suf s =
     (if suf \<noteq> [] \<and> ends_with s suf then trim_end_str suf (take (length s - length suf) s) else s)"
  by pat_completeness auto
termination
  by (relation "measure (\<lambda>(suf, s). length s)") (auto simp: ends_with_iff)

declare trim_end_str.simps [simp del]

definition compile_pattern :: "string \<Rightarrow> compiled_pattern" where
  "compile_pattern pattern =
     (let np = replace_char backslash (CHR ''/'') pattern;
          clean = trim_end_matches (CHR ''/'') np;
          plain = (clean \<noteq> [] \<and> CHR ''*'' \<notin> set clean \<and> CHR ''?'' \<notin> set clean)
      in \<lparr> norm_pattern = np,
           clean_prefix = (if plain then Some (clean @ ''/'') else None),
           ends_with_doublestar = (if ends_with np ''/**'' then Some (trim_end_str ''**'' np) else None),
           is_wildcard = (\<not> plain \<and> (CHR ''*'' \<in> set np \<or> CHR ''?'' \<in> set np)) \<rparr>)"

definition compiled_matches :: "compiled_pattern \<Rightarrow> string \<Rightarrow> bool" where
  "compiled_matches self path =
     (let norm_path = replace_char backslash (CHR ''/'') path in
      if norm_pattern self = norm_path then True
      else if (case ends_with_doublestar self of Some pre \<Rightarrow> starts_with norm_path pre | None \<Rightarrow> False) then True
      else if (case clean_prefix self of
                 Some pre \<Rightarrow> norm_path = trim_end_matches (CHR ''/'') pre \<or> starts_with norm_path pre
               | None \<Rightarrow> False) then True
      else if is_wildcard self then wildcard_matches (norm_pattern self) norm_path
      else False)"

definition compile_patterns :: "string list \<Rightarrow> compiled_pattern list" where
  "compile_patterns patterns = map compile_pattern patterns"

definition compiled_pattern_matches_any ::
  "string \<Rightarrow> compiled_pattern list \<Rightarrow> compiled_pattern list \<Rightarrow> bool" where
  "compiled_pattern_matches_any path includes excludes =
     (let matches_include = (includes = [] \<or> list_ex (\<lambda>p. compiled_matches p path) includes);
          matches_exclude = list_ex (\<lambda>p. compiled_matches p path) excludes
      in matches_include \<and> \<not> matches_exclude)"

definition archive_pattern_matches_any :: "string \<Rightarrow> string list \<Rightarrow> string list \<Rightarrow> bool" where
  "archive_pattern_matches_any path includes excludes =
     compiled_pattern_matches_any path (compile_patterns includes) (compile_patterns excludes)"

definition archive_pattern_matches :: "string \<Rightarrow> string \<Rightarrow> bool" where
  "archive_pattern_matches pattern path = compiled_matches (compile_pattern pattern) path"

section \<open>Normalization: what is accepted and what comes out\<close>

definition kept_part :: "string \<Rightarrow> bool" where
  "kept_part part \<longleftrightarrow> part \<noteq> '''' \<and> part \<noteq> ''.''"

definition clean_part :: "string \<Rightarrow> bool" where
  "clean_part part \<longleftrightarrow> length part \<le> 255 \<and> \<not> windows_reserved part \<and> part \<noteq> ''..''"

text \<open>The components of a normalized archive path.\<close>

definition archive_name :: "string \<Rightarrow> bool" where
  "archive_name part \<longleftrightarrow>
     plain_name part \<and> length part \<le> 255 \<and> \<not> windows_reserved part \<and> backslash \<notin> set part \<and> nul \<notin> set part"

lemma normalize_parts_iff [result_simps]:
  "normalize_parts raw acc ps = Inr out \<longleftrightarrow>
     (\<forall>p \<in> set ps. clean_part p) \<and> out = acc @ filter kept_part ps"
  by (induction raw acc ps rule: normalize_parts.induct) (auto simp: clean_part_def kept_part_def)

lemma reject_raw_path_hazards_ok [result_simps]:
  "reject_raw_path_hazards raw = Inr u \<longleftrightarrow>
     nul \<notin> set raw \<and> \<not> has_windows_prefix (slash_path raw) \<and> \<not> starts_with (slash_path raw) ''/''"
  by (auto simp: reject_raw_path_hazards_def)

lemma slash_path_no_backslash [simp]: "backslash \<notin> set (slash_path raw)"
  by (simp add: slash_path_def replace_char_removes)

lemma slash_path_nul: "nul \<notin> set raw \<Longrightarrow> nul \<notin> set (slash_path raw)"
  using set_replace_char [of backslash "CHR ''/''" raw] by (auto simp: slash_path_def)

lemma normalize_archive_path_parts:
  assumes "normalize_archive_path raw = Inr s"
  obtains ps where "ps = filter kept_part (split_on (CHR ''/'') (slash_path raw))" "ps \<noteq> []"
    "\<forall>p \<in> set ps. archive_name p" "s = join_with ''/'' ps" "split_on (CHR ''/'') s = ps"
proof
  let ?segs = "split_on (CHR ''/'') (slash_path raw)"
  let ?ps = "filter kept_part ?segs"
  show "?ps = filter kept_part ?segs" ..
  from assms show ne: "?ps \<noteq> []" and s: "s = join_with ''/'' ?ps"
    by (auto simp: normalize_archive_path_def result_simps split: if_splits)
  from assms have nul: "nul \<notin> set raw" by (auto simp: normalize_archive_path_def result_simps)
  show names: "\<forall>p \<in> set ?ps. archive_name p"
  proof
    fix p assume p: "p \<in> set ?ps"
    then have "CHR ''/'' \<notin> set p" "set p \<subseteq> set (slash_path raw)" using split_on_parts by fastforce+
    moreover have "clean_part p" using assms p
      by (auto simp: normalize_archive_path_def result_simps)
    ultimately show "archive_name p" using p slash_path_nul [OF nul] slash_path_no_backslash [of raw]
      by (auto simp: archive_name_def plain_name_def clean_part_def kept_part_def)
  qed
  show "split_on (CHR ''/'') s = ?ps"
    unfolding s using ne names by (intro split_join) (auto simp: archive_name_def plain_name_def)
qed

lemma archive_name_plain [simp, intro]: "archive_name p \<Longrightarrow> plain_name p"
  by (simp add: archive_name_def)

lemma normalize_archive_path_path:
  assumes "normalize_archive_path raw = Inr s"
  shows "path_of_string s = map Normal (split_on (CHR ''/'') s)"
  using assms by (elim normalize_archive_path_parts) (metis archive_name_plain path_of_string_plain)

text \<open>
  C14. A path accepted by \<open>normalize_archive_path\<close> is a relative path of plain names: cut at
  its slashes it has at least one component, and no component is empty, \<open>.\<close> or \<open>..\<close>,
  holds a separator (either slash) or a NUL, is longer than 255 bytes, or names a Windows
  device; read as a filesystem path it is exactly those names.
\<close>

theorem normalize_archive_path_safe:
  assumes "normalize_archive_path raw = Inr s"
  shows "(\<forall>p \<in> set (split_on (CHR ''/'') s). archive_name p) \<and>
         path_of_string s = map Normal (split_on (CHR ''/'') s)"
  using assms normalize_archive_path_path by (metis normalize_archive_path_parts)

theorem normalize_archive_path_safe_witness:
  "normalize_archive_path ''./dir//file.txt'' = Inr ''dir/file.txt'' \<and>
   path_of_string ''dir/file.txt'' = map Normal (split_on (CHR ''/'') ''dir/file.txt'')"
proof -
  have h: "normalize_archive_path ''./dir//file.txt'' = Inr ''dir/file.txt''" by code_simp
  show ?thesis using h normalize_archive_path_safe [OF h] by blast
qed


lemma slash_path_id [simp]: "backslash \<notin> set s \<Longrightarrow> slash_path s = s"
  by (simp add: slash_path_def)

lemma archive_names_join:
  assumes "ps \<noteq> []" and "\<forall>p \<in> set ps. archive_name p"
  shows "nul \<notin> set (join_with ''/'' ps)" and "backslash \<notin> set (join_with ''/'' ps)"
    and "\<not> starts_with (join_with ''/'' ps) ''/''"
proof -
  show "nul \<notin> set (join_with ''/'' ps)" "backslash \<notin> set (join_with ''/'' ps)"
    using assms(2) set_join_with [of "''/''" ps] by (auto simp: archive_name_def)
  obtain p ps' where ps: "ps = p # ps'" using assms(1) by (cases ps) auto
  with assms(2) obtain c cs where "p = c # cs" "c \<noteq> CHR ''/''"
    by (cases p) (auto simp: archive_name_def plain_name_def)
  then show "\<not> starts_with (join_with ''/'' ps) ''/''"
    using ps by (cases ps') (auto simp: starts_with_def)
qed

text \<open>
  C38. Normalizing twice: an accepted path normalizes to itself, unless the normal form begins
  with a drive prefix, which the second pass rejects.  So the drive check is on the raw text
  only, and a leading \<open>./\<close> carries a drive prefix through the first pass (the destination
  check of the planner is what then stops it on Windows).
\<close>

theorem normalize_archive_path_twice:
  assumes "normalize_archive_path raw = Inr s"
  shows "normalize_archive_path s = (if has_windows_prefix s then Inl (WindowsPrefix s) else Inr s)"
  using assms
proof (elim normalize_archive_path_parts)
  fix ps assume ps: "ps \<noteq> []" "\<forall>p \<in> set ps. archive_name p" "s = join_with ''/'' ps"
    and split: "split_on (CHR ''/'') s = ps"
  note facts = archive_names_join [OF ps(1,2), folded ps(3)]
  have "normalize_parts s [] ps = Inr ps"
    using ps(2) by (auto simp: result_simps archive_name_def clean_part_def kept_part_def plain_name_def intro!: filter_True)
  then show ?thesis
    using facts split ps by (simp add: normalize_archive_path_def reject_raw_path_hazards_def)
qed

theorem normalize_archive_path_twice_witness:
  "normalize_archive_path ''./C:/x'' = Inr ''C:/x'' \<and> normalize_archive_path ''C:/x'' = Inl (WindowsPrefix ''C:/x'')"
proof -
  have h: "normalize_archive_path ''./C:/x'' = Inr ''C:/x''" by code_simp
  have w: "has_windows_prefix ''C:/x''" by code_simp
  show ?thesis using h w normalize_archive_path_twice [OF h] by simp
qed

section \<open>The collision key\<close>

lemma utf8_chars_ne: "g \<in> set (utf8_chars s) \<Longrightarrow> g \<noteq> []"
  by (induction s arbitrary: g) (fastforce split: list.splits if_splits)+

lemma utf8_chars_hd: "s \<noteq> [] \<Longrightarrow> \<exists>g gs. utf8_chars s = g # gs \<and> hd g = hd s"
  by (cases s) (auto split: list.splits)

lemma utf8_chars_cut:
  "\<not> is_continuation c \<Longrightarrow> utf8_chars (a @ c # b) = utf8_chars a @ utf8_chars (c # b)"
proof (induction a)
  case (Cons x a)
  show ?case
  proof (cases a)
    case Nil
    obtain g gs where "utf8_chars (c # b) = g # gs" "hd g = c" using utf8_chars_hd [of "c # b"] by auto
    then show ?thesis using Cons.prems Nil by simp
  next
    case (Cons y a')
    obtain g gs where "utf8_chars a = g # gs" using utf8_chars_hd [of a] Cons by auto
    then show ?thesis using Cons.IH [OF Cons.prems] by simp
  qed
qed simp

lemma is_ascii_not_continuation: "is_ascii c \<Longrightarrow> \<not> is_continuation c"
  by (simp add: is_ascii_def is_continuation_def)

lemma utf8_chars_ascii: "list_all is_ascii s \<Longrightarrow> utf8_chars s = map (\<lambda>c. [c]) s"
proof (induction s)
  case (Cons c s)
  then show ?case by (cases s) (auto simp: is_ascii_not_continuation)
qed simp

lemma case_collision_key_chars:
  "case_collision_key ulower s = concat (map (char_to_lowercase ulower) (utf8_chars s))"
proof (cases "list_all is_ascii s")
  case True
  then have "concat (map (char_to_lowercase ulower) (map (\<lambda>c. [c]) s)) = map ascii_lower s"
    by (induction s) (auto simp: char_to_lowercase_def)
  with True show ?thesis by (simp add: case_collision_key_def utf8_chars_ascii)
qed (simp add: case_collision_key_def)

lemma case_collision_key_cut:
  assumes "is_ascii c"
  shows "case_collision_key ulower (a @ c # b) =
         case_collision_key ulower a @ ascii_lower c # case_collision_key ulower b"
proof -
  have "utf8_chars (a @ c # b) = utf8_chars a @ utf8_chars (c # b)"
    using assms by (intro utf8_chars_cut is_ascii_not_continuation)
  moreover have "concat (map (char_to_lowercase ulower) (utf8_chars (c # b))) =
      ascii_lower c # concat (map (char_to_lowercase ulower) (utf8_chars b))"
    using assms by (auto simp: char_to_lowercase_def split: list.splits)
  ultimately show ?thesis by (simp add: case_collision_key_chars)
qed

text \<open>
  The contract the planner relies on: a key that tells a path from its proper extensions,
  whatever else it identifies.
\<close>



locale path_keys =
  fixes key :: "path \<Rightarrow> 'k"
  assumes key_extends: "\<lbrakk>named_path p; q \<noteq> []; normal_path (p @ q)\<rbrakk> \<Longrightarrow> key (p @ q) \<noteq> key p"
begin

lemma key_strict_prefix:
  "\<lbrakk>named_path p; normal_path d; starts_with d p; d \<noteq> p\<rbrakk> \<Longrightarrow> key d \<noteq> key p"
  using key_extends by (auto simp: starts_with_iff)

end

lemma render_path_append:
  assumes "named_path p" and "ns \<noteq> []"
  shows "render_path (p @ map Normal ns) = render_path p @ ''/'' @ join_with ''/'' ns"
proof -
  from assms(1) obtain ms where ms: "ms \<noteq> []" "p = map Normal ms \<or> p = RootDir # map Normal ms"
    by (rule named_pathE)
  have m: "map component_text (map Normal xs) = xs" for xs by (induction xs) auto
  from ms(1) obtain x xs where "ms = x # xs" by (cases ms) auto
  with ms(2) show ?thesis
    using join_with_append [OF ms(1) assms(2), of "''/''"] m by (auto simp: map_append [symmetric] simp del: map_append map_map)
qed

definition path_key :: "(string \<Rightarrow> string) \<Rightarrow> path \<Rightarrow> string" where
  "path_key ulower p = case_collision_key ulower (render_path p)"

interpretation collision: path_keys "path_key ulower" for ulower
proof
  fix p q assume p: "named_path p" and q: "q \<noteq> []" and pq: "normal_path (p @ q)"
  from p pq obtain ns where ns: "q = map Normal ns"
    using normal_path_tail [of p q] by (auto simp: named_path_def)
  with q have "ns \<noteq> []" by simp
  then have "path_key ulower (p @ q) = path_key ulower p @ ascii_lower (CHR ''/'') # case_collision_key ulower (join_with ''/'' ns)"
    using case_collision_key_cut [of "CHR ''/''" ulower "render_path p" "join_with ''/'' ns"]
    by (simp add: path_key_def ns render_path_append [OF p] is_ascii_def byte_val_def)
  then show "path_key ulower (p @ q) \<noteq> path_key ulower p" by simp
qed

section \<open>Selectors\<close>

text \<open>A selector or entry path as the components it names.\<close>

definition segments :: "string \<Rightarrow> string list" where
  "segments path = filter kept_part (split_on (CHR ''/'') (slash_path path))"

lemma normalize_selector_segments: "normalize_selector path = join_with ''/'' (segments path)"
proof -
  have "(\<lambda>segment. segment \<noteq> '''' \<and> segment \<noteq> ''.'') = kept_part"
    by (simp add: kept_part_def fun_eq_iff)
  then show ?thesis
    using filter_split_trim [of kept_part "CHR ''/''" "slash_path path"]
    by (simp add: normalize_selector_def segments_def slash_path_def kept_part_def)
qed

lemma segments_parts: "p \<in> set (segments path) \<Longrightarrow> p \<noteq> [] \<and> CHR ''/'' \<notin> set p"
  using split_on_parts by (fastforce simp: segments_def kept_part_def)

lemma join_names_eq:
  assumes "\<forall>p \<in> set ps \<union> set qs. p \<noteq> [] \<and> c \<notin> set p"
  shows "join_with [c] ps = join_with [c] qs \<longleftrightarrow> ps = qs"
proof
  assume eq: "join_with [c] ps = join_with [c] qs"
  have empty: "join_with [c] xs = [] \<longleftrightarrow> xs = []" if "xs = ps \<or> xs = qs" for xs
    using that assms join_with_ne [of xs "[c]"] by auto
  show "ps = qs"
  proof (cases "ps = []")
    case True
    then show ?thesis using empty [of ps] empty [of qs] eq by auto
  next
    case False
    then have "qs \<noteq> []" using empty [of ps] empty [of qs] eq by auto
    then have Q: "split_on c (join_with [c] qs) = qs" using assms by (intro split_join) auto
    have P: "split_on c (join_with [c] ps) = ps" using False assms by (intro split_join) auto
    show ?thesis using P Q unfolding eq by (rule trans [OF sym])
  qed
qed simp

lemma join_names_below:
  assumes "\<forall>p \<in> set ps \<union> set qs. p \<noteq> [] \<and> c \<notin> set p" and "qs \<noteq> []"
  shows "(\<exists>r. join_with [c] ps = join_with [c] qs @ c # r) \<longleftrightarrow> (\<exists>rs. rs \<noteq> [] \<and> ps = qs @ rs)"
proof
  assume "\<exists>r. join_with [c] ps = join_with [c] qs @ c # r"
  then obtain r where r: "join_with [c] ps = join_with [c] qs @ c # r" by blast
  then have "ps \<noteq> []" by (metis Nil_is_append_conv join_with.simps(1) list.distinct(1))
  then have "split_on c (join_with [c] ps) = ps" using assms(1) by (intro split_join) auto
  moreover have "split_on c (join_with [c] ps) = qs @ split_on c r"
    unfolding r split_on_cut using assms split_join [of qs c] by simp
  ultimately show "\<exists>rs. rs \<noteq> [] \<and> ps = qs @ rs"
    by (intro exI [of _ "split_on c r"]) simp
next
  assume "\<exists>rs. rs \<noteq> [] \<and> ps = qs @ rs"
  then show "\<exists>r. join_with [c] ps = join_with [c] qs @ c # r"
    using join_with_append [OF assms(2)] by fastforce
qed

lemma selector_cut:
  "length e > length s \<and> starts_with e s \<and> e ! length s = c \<longleftrightarrow> (\<exists>r. e = s @ c # r)"
proof
  assume h: "length e > length s \<and> starts_with e s \<and> e ! length s = c"
  then obtain r where "e = s @ r" by (auto simp: starts_with_iff)
  with h show "\<exists>r. e = s @ c # r" by (cases r) auto
qed (auto simp: starts_with_iff)

text \<open>
  Selecting by text is selecting by components: an entry matches a selector exactly
  when the selector's components (backslashes as slashes, empty and \<open>.\<close> components dropped)
  are the first components of the entry's.  So \<open>dir\<close> selects \<open>dir/file\<close> and never
  \<open>dirname/file\<close>, and an empty selector selects everything.
\<close>

theorem archive_entry_matches_selected_iff:
  "archive_entry_matches_selected entry_path selected_path \<longleftrightarrow>
     starts_with (segments entry_path) (segments selected_path)"
proof -
  let ?e = "segments entry_path" and ?s = "segments selected_path"
  have names: "\<forall>p \<in> set ?e \<union> set ?s. p \<noteq> [] \<and> CHR ''/'' \<notin> set p" using segments_parts by blast
  show ?thesis
  proof (cases "?s = []")
    case True
    then show ?thesis
      by (simp add: archive_entry_matches_selected_def normalize_selector_segments
          normalized_entry_matches_normalized_selector_def starts_with_def)
  next
    case False
    then have "join_with ''/'' ?s \<noteq> []" using names by (intro join_with_ne) auto
    then have "archive_entry_matches_selected entry_path selected_path \<longleftrightarrow>
        ?e = ?s \<or> (\<exists>rs. rs \<noteq> [] \<and> ?e = ?s @ rs)"
      using join_names_eq [OF names] join_names_below [OF names False]
      by (simp add: archive_entry_matches_selected_def normalize_selector_segments
          normalized_entry_matches_normalized_selector_def selector_cut)
    then show ?thesis by (auto simp: starts_with_iff)
  qed
qed

section \<open>Patterns\<close>

definition has_wild :: "string \<Rightarrow> bool" where
  "has_wild s \<longleftrightarrow> CHR ''*'' \<in> set s \<or> CHR ''?'' \<in> set s"

text \<open>What one pattern selects, in terms of the paths: the path itself; everything below
  \<open>d/\<close> for \<open>d/**\<close>; a plain pattern's directory and everything below it; a glob's matches.\<close>

definition pattern_selects :: "string \<Rightarrow> string \<Rightarrow> bool" where
  "pattern_selects pattern path \<longleftrightarrow>
     (let np = slash_path pattern; p = slash_path path; clean = trim_end_matches (CHR ''/'') np in
      p = np \<or>
      (\<exists>d. np = d @ ''/**'' \<and> starts_with p (d @ ''/'')) \<or>
      (clean \<noteq> [] \<and> \<not> has_wild np \<and> (p = clean \<or> starts_with p (clean @ ''/''))) \<or>
      (has_wild np \<and> glob is_star byte_matches np p))"

lemma trim_end_doublestar: "trim_end_str ''**'' (d @ ''/**'') = d @ ''/''"
proof -
  have e1: "ends_with (d @ ''/**'') ''**''" by (simp add: ends_with_def starts_with_def)
  have e2: "\<not> ends_with (d @ ''/'') ''**''" by (simp add: ends_with_def starts_with_def)
  have "trim_end_str ''**'' (d @ ''/**'') = trim_end_str ''**'' (take (length (d @ ''/**'') - length ''**'') (d @ ''/**''))"
    using e1 by (subst trim_end_str.simps) simp
  also have "take (length (d @ ''/**'') - length ''**'') (d @ ''/**'') = d @ ''/''" by simp
  also have "trim_end_str ''**'' (d @ ''/'') = d @ ''/''" using e2 by (subst trim_end_str.simps) simp
  finally show ?thesis .
qed

lemma has_wild_trim: "has_wild (trim_end_matches (CHR ''/'') s) \<longleftrightarrow> has_wild s"
proof -
  obtain n where n: "s = trim_end_matches (CHR ''/'') s @ replicate n (CHR ''/'')"
    by (rule exE [OF trim_end_matches_decomp])
  have "x \<in> set s \<longleftrightarrow> x \<in> set (trim_end_matches (CHR ''/'') s) \<or> x \<in> set (replicate n (CHR ''/''))" for x
    by (subst n) (simp only: set_append Un_iff)
  then show ?thesis by (simp add: has_wild_def)
qed

lemma archive_pattern_matches_selects: "archive_pattern_matches pattern path \<longleftrightarrow> pattern_selects pattern path"
proof -
  define np where "np = slash_path pattern"
  define clean where "clean = trim_end_matches (CHR ''/'') np"
  have hw: "CHR ''*'' \<notin> set clean \<and> CHR ''?'' \<notin> set clean \<longleftrightarrow> \<not> has_wild np"
    using has_wild_trim [of np] by (auto simp: clean_def has_wild_def)
  have hw': "(CHR ''*'' \<in> set np \<or> CHR ''?'' \<in> set np) \<longleftrightarrow> has_wild np" by (simp add: has_wild_def)
  have ds: "(\<exists>d. np = d @ ''/**'' \<and> starts_with p (d @ ''/'')) \<longleftrightarrow>
      (ends_with np ''/**'' \<and> starts_with p (trim_end_str ''**'' np))" for p
    by (auto simp: ends_with_iff trim_end_doublestar)
  have tc: "trim_end_matches (CHR ''/'') clean = clean" by (simp add: clean_def)
  show ?thesis
    unfolding archive_pattern_matches_def compiled_matches_def compile_pattern_def pattern_selects_def
      Let_def slash_path_def [symmetric] np_def [symmetric] clean_def [symmetric] ds hw hw'
    by (simp add: tc wildcard_matches_glob split: option.splits)
qed

text \<open>
  Include and exclude lists: a path is selected exactly when the include list is empty
  or one of its patterns selects the path, and no exclude pattern does, where a pattern
  selects what \<open>pattern_selects\<close> says.  Compiling the patterns first changes nothing.
\<close>

theorem archive_pattern_matches_any_iff:
  "archive_pattern_matches_any path includes excludes \<longleftrightarrow>
     (includes = [] \<or> list_ex (\<lambda>p. pattern_selects p path) includes) \<and>
     \<not> list_ex (\<lambda>p. pattern_selects p path) excludes"
  using archive_pattern_matches_selects
  by (simp add: archive_pattern_matches_any_def compiled_pattern_matches_any_def compile_patterns_def
      list_ex_iff archive_pattern_matches_def)

end
