(* ===== verification/Host_FS.thy ===== *)
theory Host_FS
  imports Rust_Path
begin

text \<open>
  The operating system as the code observes it.  A \<open>host\<close> is one moment of the file system:
  \<open>fs::symlink_metadata\<close> (which does not follow a final link), \<open>Path::exists\<close> (which does)
  and \<open>fs::canonicalize\<close>, each a total function of a path.  Every operation that probes the
  disk takes a host as an argument, so successive calls may see different disks and nothing is
  assumed to stay the same between them.
\<close>

datatype error_kind =
    NotFound | NotADirectory | IsADirectory | AlreadyExists | PermissionDenied | Interrupted
  | InvalidInput | InvalidData | UnexpectedEof | OtherKind string

record io_error =
  kind :: error_kind
  message :: string

datatype file_kind = RegularFile | DirectoryFile | SymlinkFile | OtherFile

record host =
  symlink_metadata :: "path \<Rightarrow> (io_error, file_kind) result"
  path_exists :: "path \<Rightarrow> bool"
  canonicalize :: "path \<Rightarrow> (io_error, path) result"

text \<open>An empty disk, for concrete runs: nothing exists.\<close>

definition absent_error :: io_error where
  "absent_error = \<lparr>kind = NotFound, message = ''not found''\<rparr>"

definition empty_host :: host where
  "empty_host = \<lparr>symlink_metadata = (\<lambda>_. Inl absent_error), path_exists = (\<lambda>_. False),
                  canonicalize = (\<lambda>_. Inl absent_error)\<rparr>"

definition destination_is_absent :: "io_error \<Rightarrow> bool" where
  "destination_is_absent error \<longleftrightarrow> kind error = NotFound \<or> kind error = NotADirectory"

definition is_symlink_or_reparse_point :: "file_kind \<Rightarrow> bool" where
  "is_symlink_or_reparse_point metadata \<longleftrightarrow> metadata = SymlinkFile"

end
