(* ===== verification/Safety_Planner.thy ===== *)
theory Safety_Planner
  imports Archive_Path Host_FS
begin

text \<open>
  The extraction safety planner of \<open>crates/zmanager-core/src/safety.rs\<close>: the policy, the
  planner's mutable state, and \<open>validate_entry\<close> with every check it makes, in the order it
  makes them.  A method with \<open>&mut self\<close> returns its result and the state it leaves, also
  when it fails.  The disk is the \<open>host\<close> argument of each call and the overwrite resolver its
  \<open>resolver\<close> argument, so two calls may see different disks and different answers.
\<close>

section \<open>Policy and entries\<close>

datatype overwrite_policy = Refuse | Replace | Rename | Ask

datatype overwrite_decision = DecideReplace | DecideSkip | DecideRename | DecideQuit

datatype unsafe_file_policy = Reject | SkipUnsafe

datatype extraction_entry_kind =
  File | Directory | Symlink string | Hardlink string | Device | Special

fun is_symlink_kind :: "extraction_entry_kind \<Rightarrow> bool" where
  "is_symlink_kind (Symlink target) = True"
| "is_symlink_kind _ = False"

record extraction_limits =
  max_expanded_bytes :: "u64 option"
  max_entry_expansion_ratio :: "u64 option"
  max_entries :: "u64 option"

definition default_limits :: extraction_limits where
  "default_limits = \<lparr>max_expanded_bytes = Some (64 * 1024 * 1024 * 1024),
                     max_entry_expansion_ratio = Some 1000, max_entries = None\<rparr>"

record extraction_policy =
  overwrite :: overwrite_policy
  unsafe_file :: unsafe_file_policy
  include_patterns :: "string list"
  exclude_patterns :: "string list"
  strip_components :: nat
  limits :: extraction_limits
  ignore_symlinks :: bool

definition default_policy :: extraction_policy where
  "default_policy = \<lparr>overwrite = Refuse, unsafe_file = Reject, include_patterns = [], exclude_patterns = [],
                     strip_components = 0, limits = default_limits, ignore_symlinks = False\<rparr>"

record overwrite_conflict =
  conflict_archive_path :: string
  conflict_destination_path :: path

type_synonym overwrite_resolver = "(overwrite_conflict \<Rightarrow> overwrite_decision) option"

record extraction_entry =
  archive_path :: string
  entry_kind :: extraction_entry_kind
  uncompressed_size :: "u64 option"
  compressed_size :: "u64 option"

datatype extraction_decision =
    Write string path "path option" bool
  | Skip string string

record planner =
  destination_root :: path
  policy :: extraction_policy
  compiled_includes :: "compiled_pattern list"
  compiled_excludes :: "compiled_pattern list"
  seen_paths :: "string \<rightharpoonup> string"
  planned_symlinks :: "string set"
  required_non_symlink_paths :: "string set"
  planned_expanded_bytes :: u64
  planned_entries :: u64
  next_rename_index :: "path \<rightharpoonup> u64"

record planned_write =
  normalized_archive_path :: string
  destination_path :: path
  link_target_path :: "path option"
  replace_existing :: bool

datatype planned_destination = PlannedWrite planned_write | PlannedSkip string string

definition into_decision :: "planned_write \<Rightarrow> extraction_decision" where
  "into_decision plan = Write (normalized_archive_path plan) (destination_path plan)
                              (link_target_path plan) (replace_existing plan)"

type_synonym 'a planning = "(extraction_safety_error, 'a) result \<times> planner"

text \<open>The shared constructor: the root is normalized, the patterns are compiled once.\<close>

definition with_overwrite_resolver :: "path \<Rightarrow> extraction_policy \<Rightarrow> planner" where
  "with_overwrite_resolver root pol =
     \<lparr> destination_root = lexically_normalize root, policy = pol,
       compiled_includes = compile_patterns (include_patterns pol),
       compiled_excludes = compile_patterns (exclude_patterns pol),
       seen_paths = Map.empty, planned_symlinks = {}, required_non_symlink_paths = {},
       planned_expanded_bytes = 0, planned_entries = 0, next_rename_index = Map.empty \<rparr>"

definition is_path_selected :: "planner \<Rightarrow> string \<Rightarrow> bool" where
  "is_path_selected self p = compiled_pattern_matches_any p (compiled_includes self) (compiled_excludes self)"

section \<open>Budgets\<close>

definition reserve_entry :: "string \<Rightarrow> planner \<Rightarrow> unit planning" where
  "reserve_entry ap self =
     (case max_entries (limits (policy self)) of
        None \<Rightarrow> (Inr (), self)
      | Some limit \<Rightarrow>
          let attempted = saturating_add (planned_entries self) 1
          in if attempted > limit then (Inl (EntryCountLimitExceeded ap attempted limit), self)
             else (Inr (), self\<lparr>planned_entries := attempted\<rparr>))"

definition reserve_expanded_bytes :: "string \<Rightarrow> u64 \<Rightarrow> planner \<Rightarrow> unit planning" where
  "reserve_expanded_bytes ap bytes self =
     (case max_expanded_bytes (limits (policy self)) of
        None \<Rightarrow> (Inr (), self)
      | Some total_limit \<Rightarrow>
          let attempted = saturating_add (planned_expanded_bytes self) bytes
          in if attempted > total_limit then (Inl (ExpandedSizeLimitExceeded ap attempted total_limit), self)
             else (Inr (), self\<lparr>planned_expanded_bytes := attempted\<rparr>))"

text \<open>The ratio is compared in \<open>u128\<close>.\<close>

definition reject_expansion_ratio ::
  "string \<Rightarrow> u64 \<Rightarrow> u64 option \<Rightarrow> u64 \<Rightarrow> (extraction_safety_error, unit) result" where
  "reject_expansion_ratio ap uncompressed compressed ratio_limit =
     (case compressed of
        None \<Rightarrow> Inr ()
      | Some c \<Rightarrow>
          if (if c = 0 then uncompressed > 0
              else (ucast uncompressed :: 128 word) > ucast c * ucast ratio_limit)
          then Inl (ExpansionRatioLimitExceeded ap uncompressed c ratio_limit)
          else Inr ())"

definition reserve_expanded_size :: "extraction_entry \<Rightarrow> planner \<Rightarrow> unit planning" where
  "reserve_expanded_size entry self =
     (if entry_kind entry \<noteq> File then (Inr (), self)
      else case uncompressed_size entry of
        None \<Rightarrow> (Inr (), self)
      | Some expanded \<Rightarrow>
          and_then_st
            (case max_entry_expansion_ratio (limits (policy self)) of
               None \<Rightarrow> Inr ()
             | Some ratio_limit \<Rightarrow> reject_expansion_ratio (archive_path entry) expanded (compressed_size entry) ratio_limit,
             self)
            (\<lambda>_ self. reserve_expanded_bytes (archive_path entry) expanded self))"

section \<open>Paths inside the destination\<close>

definition ensure_inside_destination ::
  "path \<Rightarrow> path \<Rightarrow> string \<Rightarrow> (extraction_safety_error, unit) result" where
  "ensure_inside_destination root dest ap =
     (if starts_with dest root then Inr () else Inl (DestinationEscape ap root dest))"

fun push_ancestors :: "path \<Rightarrow> component list \<Rightarrow> path list" where
  "push_ancestors current [] = []"
| "push_ancestors current (c # cs) =
     (let current' = lexically_normalize (path_join current [c]) in current' # push_ancestors current' cs)"

definition destination_ancestors :: "planner \<Rightarrow> path \<Rightarrow> path list" where
  "destination_ancestors self p =
     (case path_parent p of
        None \<Rightarrow> []
      | Some parent \<Rightarrow>
          (case strip_prefix (destination_root self) parent of
             None \<Rightarrow> []
           | Some relative \<Rightarrow> push_ancestors (destination_root self) relative))"

definition require_non_symlink ::
  "(string \<Rightarrow> string) \<Rightarrow> host \<Rightarrow> planner \<Rightarrow> string \<Rightarrow> path \<Rightarrow> (extraction_safety_error, unit) result" where
  "require_non_symlink ulower h self ap p =
     (let metadata = symlink_metadata h p in
      if path_key ulower p \<in> planned_symlinks self
         \<or> (case metadata of Inr m \<Rightarrow> is_symlink_or_reparse_point m | Inl _ \<Rightarrow> False)
      then Inl (SymlinkAncestor ap p)
      else case metadata of
             Inl error \<Rightarrow>
               if \<not> destination_is_absent error then Inl (DestinationProbe ap p (message error)) else Inr ()
           | Inr _ \<Rightarrow> Inr ())"

definition validate_symlink_target ::
  "(string \<Rightarrow> string) \<Rightarrow> host \<Rightarrow> planner \<Rightarrow> path \<Rightarrow> string \<Rightarrow> (extraction_safety_error, unit) result" where
  "validate_symlink_target ulower h self dest target =
     and_then (reject_raw_path_hazards target) (\<lambda>_.
       if is_absolute (path_of_string target) then Inl (LinkTargetEscapes target)
       else case path_parent dest of
         None \<Rightarrow> Inl (LinkTargetEscapes target)
       | Some parent \<Rightarrow>
           let joined = path_join parent (path_of_string target);
               resolved_target = lexically_normalize joined
           in if \<not> starts_with resolved_target (destination_root self) then Inl (LinkTargetEscapes target)
              else case canonicalize h joined of
                Inr actual \<Rightarrow>
                  let root = (case canonicalize h (destination_root self) of
                                Inr r \<Rightarrow> r | Inl _ \<Rightarrow> destination_root self)
                  in if \<not> starts_with actual root then Inl (LinkTargetEscapes target) else Inr ()
              | Inl error \<Rightarrow>
                  if destination_is_absent error
                  then require_non_symlink ulower h self (render_path dest) resolved_target
                  else Inl (DestinationProbe (render_path dest) joined (message error)))"

definition resolve_hardlink_target ::
  "planner \<Rightarrow> string \<Rightarrow> (extraction_safety_error, path) result" where
  "resolve_hardlink_target self target =
     and_then (case normalize_archive_path target of
                 Inl _ \<Rightarrow> Inl (LinkTargetEscapes target) | Inr t \<Rightarrow> Inr t) (\<lambda>normalized_target.
     and_then (if strip_components (policy self) > 0
               then (case strip_archive_components normalized_target (strip_components (policy self)) of
                       None \<Rightarrow> Inl (LinkTargetEscapes target) | Some t \<Rightarrow> Inr t)
               else Inr normalized_target) (\<lambda>normalized_target.
       let target_path = lexically_normalize (path_join (destination_root self) (path_of_string normalized_target))
       in if starts_with target_path (destination_root self) then Inr target_path
          else Inl (LinkTargetEscapes target)))"


section \<open>Destination conflicts\<close>

definition MAX_RENAME_CANDIDATES :: u64 where
  "MAX_RENAME_CANDIDATES = 10000"

definition FIRST_RENAME_INDEX :: u64 where
  "FIRST_RENAME_INDEX = 2"

definition rename_stem :: "path \<Rightarrow> string" where
  "rename_stem p = (case path_file_stem p of
     Some stem \<Rightarrow> stem
   | None \<Rightarrow> (case path_file_name p of Some name \<Rightarrow> name | None \<Rightarrow> ''entry''))"

definition rename_candidate :: "path \<Rightarrow> u64 \<Rightarrow> path" where
  "rename_candidate p index =
     (let parent = (case path_parent p of Some q \<Rightarrow> q | None \<Rightarrow> []);
          file_name = (case path_extension p of
             Some extension \<Rightarrow> rename_stem p @ '' '' @ decimal (unat index) @ ''.'' @ extension
           | None \<Rightarrow> rename_stem p @ '' '' @ decimal (unat index))
      in path_join parent (path_of_string file_name))"

text \<open>The loop over the inclusive range of candidate indices.\<close>

function first_free :: "host \<Rightarrow> path \<Rightarrow> u64 \<Rightarrow> u64 \<Rightarrow> (path \<times> u64) option" where
  "first_free h p index last_index =
     (if last_index < index then None
      else let candidate = rename_candidate p index in
        if \<not> path_exists h candidate then Some (candidate, saturating_add index 1)
        else if index = last_index then None
        else first_free h p (index + 1) last_index)"
  by pat_completeness auto
termination
proof (relation "measure (\<lambda>(h, p, index, last_index). unat last_index - unat index)")
  fix h p index last_index x assume "\<not> (last_index :: u64) < index" "index \<noteq> last_index"
  then have "index < last_index" by simp
  then show "((h, p, index + 1, last_index), h, p, index, last_index)
      \<in> measure (\<lambda>(h, p, index, last_index). unat last_index - unat index)"
    using word_succ_unat [of index last_index] by (simp add: word_less_nat_alt)
qed simp

declare first_free.simps [simp del]

definition next_available_destination_path_from ::
  "host \<Rightarrow> path \<Rightarrow> u64 \<Rightarrow> u64 \<Rightarrow> (path \<times> u64) option" where
  "next_available_destination_path_from h p start_index candidate_budget =
     (if \<not> path_exists h p then Some (p, start_index)
      else first_free h p start_index (saturating_add candidate_budget 1))"

definition rename_candidate_or_error :: "host \<Rightarrow> extraction_entry \<Rightarrow> path \<Rightarrow> planner \<Rightarrow> path planning" where
  "rename_candidate_or_error h entry dest self =
     (let start_index = (case next_rename_index self dest of Some i \<Rightarrow> i | None \<Rightarrow> FIRST_RENAME_INDEX)
      in case next_available_destination_path_from h dest start_index MAX_RENAME_CANDIDATES of
           None \<Rightarrow> (Inl (RenameDestinationExhausted (archive_path entry) dest), self)
         | Some (candidate, resume_index) \<Rightarrow>
             (Inr candidate, self\<lparr>next_rename_index := (next_rename_index self)(dest \<mapsto> resume_index)\<rparr>))"

definition resolve_overwrite_conflict ::
  "overwrite_resolver \<Rightarrow> extraction_entry \<Rightarrow> path \<Rightarrow> (extraction_safety_error, overwrite_decision) result" where
  "resolve_overwrite_conflict resolver entry dest =
     (case resolver of
        None \<Rightarrow> Inl (OverwritePromptUnavailable (archive_path entry) dest)
      | Some decide \<Rightarrow>
          Inr (decide \<lparr>conflict_archive_path = archive_path entry, conflict_destination_path = dest\<rparr>))"

definition reject_collision :: "(string \<Rightarrow> string) \<Rightarrow> string \<Rightarrow> planner \<Rightarrow> unit planning" where
  "reject_collision ulower nap self =
     (let collision_key = case_collision_key ulower nap;
          self' = self\<lparr>seen_paths := (seen_paths self)(collision_key \<mapsto> nap)\<rparr>
      in case seen_paths self collision_key of
           Some previous \<Rightarrow> (Inl (NameCollision nap previous), self')
         | None \<Rightarrow> (Inr (), self'))"

definition planned_as :: "string \<Rightarrow> path \<Rightarrow> path option \<Rightarrow> bool \<Rightarrow> planned_destination" where
  "planned_as nap dest link repl =
     PlannedWrite \<lparr>normalized_archive_path = nap, destination_path = dest,
                   link_target_path = link, replace_existing = repl\<rparr>"

definition plan_destination_write ::
  "host \<Rightarrow> overwrite_resolver \<Rightarrow> extraction_entry \<Rightarrow> string \<Rightarrow> path \<Rightarrow> path option \<Rightarrow> planner \<Rightarrow> planned_destination planning" where
  "plan_destination_write h resolver entry nap dest link self =
     (let is_directory = (entry_kind entry = Directory);
          replace = (overwrite (policy self) = Replace \<and> \<not> is_directory)
      in case symlink_metadata h dest of
           Inl error \<Rightarrow>
             if \<not> destination_is_absent error
             then (Inl (DestinationProbe (archive_path entry) dest (message error)), self)
             else (Inr (planned_as nap dest link replace), self)
         | Inr metadata \<Rightarrow>
             (case overwrite (policy self) of
                Refuse \<Rightarrow>
                  if is_directory \<and> metadata = DirectoryFile then (Inr (planned_as nap dest link False), self)
                  else (Inl (DestinationExists (archive_path entry) dest), self)
              | Replace \<Rightarrow>
                  (Inr (planned_as nap dest link (\<not> is_directory \<or> metadata \<noteq> DirectoryFile)), self)
              | Rename \<Rightarrow>
                  if is_directory \<and> metadata = DirectoryFile then (Inr (planned_as nap dest link False), self)
                  else and_then_st (rename_candidate_or_error h entry dest self)
                         (\<lambda>dest self. (Inr (planned_as nap dest link replace), self))
              | Ask \<Rightarrow>
                  if is_directory \<and> metadata = DirectoryFile then (Inr (planned_as nap dest link False), self)
                  else and_then_st (resolve_overwrite_conflict resolver entry dest, self) (\<lambda>decision self.
                    case decision of
                      DecideReplace \<Rightarrow> (Inr (planned_as nap dest link True), self)
                    | DecideSkip \<Rightarrow> (Inr (PlannedSkip nap ''skipped by overwrite prompt''), self)
                    | DecideRename \<Rightarrow> and_then_st (rename_candidate_or_error h entry dest self)
                         (\<lambda>dest self. (Inr (planned_as nap dest link replace), self))
                    | DecideQuit \<Rightarrow> (Inl (OverwriteAborted (archive_path entry) dest), self))))"

section \<open>Planned paths\<close>

text \<open>The paths a write goes through below a symlink's own directory: those of its target.\<close>

definition target_ancestors :: "planner \<Rightarrow> extraction_entry \<Rightarrow> path \<Rightarrow> path list" where
  "target_ancestors self entry dest =
     (case entry_kind entry of
        Symlink target \<Rightarrow>
          (case path_parent dest of
             Some parent \<Rightarrow> destination_ancestors self (path_join parent (path_of_string target))
           | None \<Rightarrow> [])
      | _ \<Rightarrow> [])"

definition hardlink_paths :: "planner \<Rightarrow> planned_write \<Rightarrow> path list" where
  "hardlink_paths self plan =
     (case link_target_path plan of
        Some target \<Rightarrow> destination_ancestors self target @ [target]
      | None \<Rightarrow> [])"

definition validate_write_paths ::
  "(string \<Rightarrow> string) \<Rightarrow> host \<Rightarrow> planner \<Rightarrow> extraction_entry \<Rightarrow> planned_write \<Rightarrow> (extraction_safety_error, unit) result" where
  "validate_write_paths ulower h self entry plan =
     (let ap = archive_path entry; dest = destination_path plan in
      and_then (check_each (require_non_symlink ulower h self ap) (destination_ancestors self dest)) (\<lambda>_.
      and_then (if is_symlink_kind (entry_kind entry) \<and> path_key ulower dest \<in> required_non_symlink_paths self
                then Inl (SymlinkAncestor ap dest) else Inr ()) (\<lambda>_.
      and_then (check_each (require_non_symlink ulower h self ap) (hardlink_paths self plan)) (\<lambda>_.
      check_each (require_non_symlink ulower h self ap) (target_ancestors self entry dest)))))"

definition required_paths :: "planner \<Rightarrow> extraction_entry \<Rightarrow> planned_write \<Rightarrow> path list" where
  "required_paths self entry plan =
     destination_ancestors self (destination_path plan)
     @ (if entry_kind entry = Directory then [destination_path plan] else [])
     @ hardlink_paths self plan
     @ target_ancestors self entry (destination_path plan)"

definition record_write_paths ::
  "(string \<Rightarrow> string) \<Rightarrow> extraction_entry \<Rightarrow> planned_write \<Rightarrow> planner \<Rightarrow> planner" where
  "record_write_paths ulower entry plan self =
     (let key = path_key ulower (destination_path plan) in
      self\<lparr>required_non_symlink_paths :=
             required_non_symlink_paths self \<union> set (map (path_key ulower) (required_paths self entry plan)),
           planned_symlinks :=
             (if is_symlink_kind (entry_kind entry) then insert key (planned_symlinks self)
              else planned_symlinks self - {key})\<rparr>)"

section \<open>Validating an entry\<close>

text \<open>The tail of \<open>validate_entry\<close>, once the destination and the link target are known.\<close>

definition commit_plan ::
  "(string \<Rightarrow> string) \<Rightarrow> host \<Rightarrow> extraction_entry \<Rightarrow> planned_destination \<Rightarrow> planner \<Rightarrow> extraction_decision planning" where
  "commit_plan ulower h entry plan self =
     (case plan of
        PlannedSkip nap reason \<Rightarrow> (Inr (Skip nap reason), self)
      | PlannedWrite w \<Rightarrow>
          and_then_st (validate_write_paths ulower h self entry w, self) (\<lambda>_ self.
          and_then_st (reserve_expanded_size entry self) (\<lambda>_ self.
            (Inr (into_decision w), record_write_paths ulower entry w self))))"

definition plan_entry ::
  "(string \<Rightarrow> string) \<Rightarrow> host \<Rightarrow> overwrite_resolver \<Rightarrow> extraction_entry \<Rightarrow> string \<Rightarrow> path \<Rightarrow> path option \<Rightarrow> planner \<Rightarrow> extraction_decision planning" where
  "plan_entry ulower h resolver entry nap dest link self =
     and_then_st (if overwrite (policy self) \<noteq> Replace then reject_collision ulower nap self else (Inr (), self)) (\<lambda>_ self.
     and_then_st (plan_destination_write h resolver entry nap dest link self) (\<lambda>plan self.
       commit_plan ulower h entry plan self))"

definition validate_kind ::
  "(string \<Rightarrow> string) \<Rightarrow> host \<Rightarrow> overwrite_resolver \<Rightarrow> extraction_entry \<Rightarrow> string \<Rightarrow> path \<Rightarrow> planner \<Rightarrow> extraction_decision planning" where
  "validate_kind ulower h resolver entry nap dest self =
     (case entry_kind entry of
        Symlink target \<Rightarrow>
          if ignore_symlinks (policy self) then (Inr (Skip nap ''skipped symbolic link by policy''), self)
          else and_then_st (validate_symlink_target ulower h self dest target, self)
                 (\<lambda>_ self. plan_entry ulower h resolver entry nap dest None self)
      | Hardlink target \<Rightarrow>
          and_then_st (resolve_hardlink_target self target, self)
            (\<lambda>target_path self. plan_entry ulower h resolver entry nap dest (Some target_path) self)
      | Device \<Rightarrow>
          if unsafe_file (policy self) = SkipUnsafe then (Inr (Skip nap ''unsafe file type skipped by policy''), self)
          else (Inl (UnsafeFileType (archive_path entry)), self)
      | Special \<Rightarrow>
          if unsafe_file (policy self) = SkipUnsafe then (Inr (Skip nap ''unsafe file type skipped by policy''), self)
          else (Inl (UnsafeFileType (archive_path entry)), self)
      | File \<Rightarrow> plan_entry ulower h resolver entry nap dest None self
      | Directory \<Rightarrow> plan_entry ulower h resolver entry nap dest None self)"

text \<open>The part after filtering and stripping.\<close>

definition validate_selected ::
  "(string \<Rightarrow> string) \<Rightarrow> host \<Rightarrow> overwrite_resolver \<Rightarrow> extraction_entry \<Rightarrow> string \<Rightarrow> planner \<Rightarrow> extraction_decision planning" where
  "validate_selected ulower h resolver entry nap self =
     and_then_st (reserve_entry nap self) (\<lambda>_ self.
       let dest = lexically_normalize (path_join (destination_root self) (path_of_string nap))
       in and_then_st (ensure_inside_destination (destination_root self) dest (archive_path entry), self)
            (\<lambda>_ self. validate_kind ulower h resolver entry nap dest self))"

definition validate_entry ::
  "(string \<Rightarrow> string) \<Rightarrow> host \<Rightarrow> overwrite_resolver \<Rightarrow> extraction_entry \<Rightarrow> planner \<Rightarrow> extraction_decision planning" where
  "validate_entry ulower h resolver entry self =
     and_then_st (normalize_archive_path (archive_path entry), self) (\<lambda>nap self.
       if \<not> is_path_selected self nap
       then (Inr (Skip nap ''filtered by include/exclude policy''), self)
       else if strip_components (policy self) > 0
       then (case strip_archive_components nap (strip_components (policy self)) of
               None \<Rightarrow> (Inr (Skip nap ''path removed by strip-components policy''), self)
             | Some stripped \<Rightarrow> validate_selected ulower h resolver entry stripped self)
       else validate_selected ulower h resolver entry nap self)"


section \<open>A run of the planner\<close>

text \<open>
  A run: any sequence of \<open>validate_entry\<close> calls, each with the disk and the resolver it meets.
  \<open>accepted\<close> lists the writes the run let through, in order, with their entries.
\<close>

type_synonym call = "host \<times> overwrite_resolver \<times> extraction_entry"
type_synonym call_log = "(call \<times> (extraction_safety_error, extraction_decision) result) list"

fun plan_call :: "(string \<Rightarrow> string) \<Rightarrow> call \<Rightarrow> planner \<Rightarrow> extraction_decision planning" where
  "plan_call ulower (h, resolver, entry) self = validate_entry ulower h resolver entry self"

fun accepted :: "call_log \<Rightarrow> (extraction_entry \<times> planned_write) list" where
  "accepted [] = []"
| "accepted (((h, resolver, entry), Inr (Write nap dest link repl)) # log) =
     (entry, \<lparr>normalized_archive_path = nap, destination_path = dest,
              link_target_path = link, replace_existing = repl\<rparr>) # accepted log"
| "accepted (_ # log) = accepted log"

lemma accepted_append [simp]: "accepted (l1 @ l2) = accepted l1 @ accepted l2"
  by (induction l1 rule: accepted.induct) auto

lemma accepted_into_decision [simp]:
  "accepted [((h, resolver, entry), Inr (into_decision w))] = [(entry, w)]"
  by (cases w) (simp add: into_decision_def)

lemma accepted_single_cases:
  "accepted [(c, r)] = [] \<or>
   (\<exists>h resolver entry w. c = (h, resolver, entry) \<and> r = Inr (into_decision w) \<and> accepted [(c, r)] = [(entry, w)])"
proof (cases "[(c, r)]" rule: accepted.cases)
  case (2 h resolver entry nap dest link repl log)
  let ?w = "\<lparr>normalized_archive_path = nap, destination_path = dest,
              link_target_path = link, replace_existing = repl\<rparr>"
  have "r = Inr (into_decision ?w)" "c = (h, resolver, entry)" using 2 by (auto simp: into_decision_def)
  then show ?thesis by (metis accepted_into_decision)
qed auto

section \<open>What each step of the planner changes\<close>

lemma reserve_entry_state:
  "reserve_entry ap s = (r, s') \<Longrightarrow> s' = s\<lparr>planned_entries := planned_entries s'\<rparr>"
  by (auto simp: reserve_entry_def Let_def split: option.splits if_splits)

lemma reserve_expanded_bytes_state:
  "reserve_expanded_bytes ap n s = (r, s') \<Longrightarrow> s' = s\<lparr>planned_expanded_bytes := planned_expanded_bytes s'\<rparr>"
  by (auto simp: reserve_expanded_bytes_def Let_def split: option.splits if_splits)

lemma reserve_expanded_size_state:
  "reserve_expanded_size entry s = (r, s') \<Longrightarrow> s' = s\<lparr>planned_expanded_bytes := planned_expanded_bytes s'\<rparr>"
  using reserve_expanded_bytes_state
  by (cases r) (auto simp: reserve_expanded_size_def result_simps split: option.splits if_splits)

lemma reserve_expanded_size_fields:
  assumes "reserve_expanded_size entry s = (r, t)"
  shows "destination_root t = destination_root s" "policy t = policy s" "seen_paths t = seen_paths s"
    "planned_symlinks t = planned_symlinks s" "required_non_symlink_paths t = required_non_symlink_paths s"
    "planned_entries t = planned_entries s"
  by (subst reserve_expanded_size_state [OF assms], simp)+

lemma reject_collision_state:
  "reject_collision ulower nap s = (r, s') \<Longrightarrow> s' = s\<lparr>seen_paths := seen_paths s'\<rparr>"
  by (auto simp: reject_collision_def Let_def split: option.splits)

lemma rename_candidate_state:
  "rename_candidate_or_error h entry dest s = (r, s') \<Longrightarrow> s' = s\<lparr>next_rename_index := next_rename_index s'\<rparr>"
  by (auto simp: rename_candidate_or_error_def Let_def split: option.splits prod.splits)

lemma plan_destination_write_state:
  assumes "plan_destination_write h resolver entry nap dest link s = (r, s')"
  shows "s' = s\<lparr>next_rename_index := next_rename_index s'\<rparr>"
proof -
  let ?I = "\<lambda>t. t = s\<lparr>next_rename_index := next_rename_index t\<rparr>"
  have ren: "?I (snd (rename_candidate_or_error h entry dest s))"
    using rename_candidate_state [of h entry dest s] by (metis prod.collapse)
  have "?I (snd (plan_destination_write h resolver entry nap dest link s))"
    unfolding plan_destination_write_def Let_def
    by (auto intro!: and_then_st_snd [where I = "\<lambda>t. t = s\<lparr>next_rename_index := next_rename_index t\<rparr>"] ren
        split: sum.split overwrite_policy.split overwrite_decision.split)
  then show ?thesis using assms by simp
qed


text \<open>
  A call that accepts no write is quiet: it may count the entry, note its path as seen and
  note a rename index, and changes nothing else.  A call that accepts a write is quiet up to
  its path checks, then reserves bytes and records the write.
\<close>

definition quiet :: "planner \<Rightarrow> planner \<Rightarrow> bool" where
  "quiet s t \<longleftrightarrow>
     t = s\<lparr>planned_entries := planned_entries t, seen_paths := seen_paths t, next_rename_index := next_rename_index t\<rparr> \<and>
     dom (seen_paths s) \<subseteq> dom (seen_paths t) \<and> planned_entries s \<le> planned_entries t \<and>
     (case max_entries (limits (policy s)) of
        None \<Rightarrow> True | Some limit \<Rightarrow> planned_entries s \<le> limit \<longrightarrow> planned_entries t \<le> limit)"

lemma quiet_refl [simp, intro]: "quiet s s"
  by (simp add: quiet_def split: option.splits)

lemma quietD:
  assumes "quiet s t"
  shows "destination_root t = destination_root s" "policy t = policy s"
    "compiled_includes t = compiled_includes s" "compiled_excludes t = compiled_excludes s"
    "planned_symlinks t = planned_symlinks s" "required_non_symlink_paths t = required_non_symlink_paths s"
    "planned_expanded_bytes t = planned_expanded_bytes s"
    "dom (seen_paths s) \<subseteq> dom (seen_paths t)" "planned_entries s \<le> planned_entries t"
    "\<And>limit. max_entries (limits (policy s)) = Some limit \<Longrightarrow> planned_entries s \<le> limit \<Longrightarrow> planned_entries t \<le> limit"
proof -
  from assms have t: "t = s\<lparr>planned_entries := planned_entries t, seen_paths := seen_paths t, next_rename_index := next_rename_index t\<rparr>"
    by (simp add: quiet_def)
  show "destination_root t = destination_root s" "policy t = policy s"
    "compiled_includes t = compiled_includes s" "compiled_excludes t = compiled_excludes s"
    "planned_symlinks t = planned_symlinks s" "required_non_symlink_paths t = required_non_symlink_paths s"
    "planned_expanded_bytes t = planned_expanded_bytes s" by (subst t, simp)+
  show "dom (seen_paths s) \<subseteq> dom (seen_paths t)" "planned_entries s \<le> planned_entries t"
    "\<And>limit. max_entries (limits (policy s)) = Some limit \<Longrightarrow> planned_entries s \<le> limit \<Longrightarrow> planned_entries t \<le> limit"
    using assms by (auto simp: quiet_def)
qed

lemma quiet_trans:
  assumes "quiet s t" "quiet t u"
  shows "quiet s u"
proof -
  have "u = s\<lparr>planned_entries := planned_entries u, seen_paths := seen_paths u, next_rename_index := next_rename_index u\<rparr>"
    using quietD(1-7) [OF assms(1)] quietD(1-7) [OF assms(2)] by simp
  moreover have "dom (seen_paths s) \<subseteq> dom (seen_paths u)" "planned_entries s \<le> planned_entries u"
    using quietD(8,9) [OF assms(1)] quietD(8,9) [OF assms(2)] order_trans by blast+
  moreover have "planned_entries u \<le> limit"
    if "max_entries (limits (policy s)) = Some limit" "planned_entries s \<le> limit" for limit
    using that quietD(2,10) [OF assms(1)] quietD(10) [OF assms(2)] by simp
  ultimately show ?thesis unfolding quiet_def by (simp split: option.split)
qed

lemma quiet_reserve_entry: "reserve_entry ap s = (r, t) \<Longrightarrow> quiet s t"
  using saturating_add_mono [of "planned_entries s" 1]
  by (auto simp: reserve_entry_def quiet_def Let_def split: option.splits if_splits)

lemma quiet_reject_collision: "reject_collision ulower nap s = (r, t) \<Longrightarrow> quiet s t"
  by (auto simp: reject_collision_def quiet_def Let_def split: option.splits)

lemma quiet_plan_destination_write:
  "plan_destination_write h resolver entry nap dest link s = (r, t) \<Longrightarrow> quiet s t"
  using plan_destination_write_state [of h resolver entry nap dest link s r t]
  by (cases s; cases t) (simp add: quiet_def split: option.splits)

definition outcome ::
  "(string \<Rightarrow> string) \<Rightarrow> host \<Rightarrow> extraction_entry \<Rightarrow> planner \<Rightarrow> extraction_decision planning \<Rightarrow> bool" where
  "outcome ulower h entry s x \<longleftrightarrow>
     quiet s (snd x) \<and> (\<forall>w. fst x \<noteq> Inr (into_decision w)) \<or>
     (\<exists>w s2 s3. fst x = Inr (into_decision w) \<and> quiet s s2 \<and>
        validate_write_paths ulower h s2 entry w = Inr () \<and>
        reserve_expanded_size entry s2 = (Inr (), s3) \<and>
        snd x = record_write_paths ulower entry w s3)"

lemma outcome_quiet: "quiet s t \<Longrightarrow> outcome ulower h entry t x \<Longrightarrow> outcome ulower h entry s x"
  unfolding outcome_def using quiet_trans by blast

lemma outcome_and_then_st:
  assumes "quiet s (snd m)" and "\<And>x t. m = (Inr x, t) \<Longrightarrow> quiet s t \<Longrightarrow> outcome ulower h entry t (f x t)"
  shows "outcome ulower h entry s (and_then_st m f)"
proof (cases "(m, f)" rule: and_then_st.cases)
  case (1 e t f')
  then show ?thesis using assms(1) by (simp add: outcome_def)
next
  case (2 x t f')
  then show ?thesis using assms outcome_quiet by auto
qed

lemma Skip_not_decision [simp]: "Skip a b \<noteq> into_decision w" "into_decision w \<noteq> Skip a b"
  by (simp_all add: into_decision_def)

lemma into_decision_inj [simp]: "into_decision v = into_decision w \<longleftrightarrow> v = w"
  by (cases v; cases w) (auto simp: into_decision_def)

lemma reserve_expanded_size_error: "reserve_expanded_size entry s = (Inl e, t) \<Longrightarrow> t = s"
  by (auto simp: reserve_expanded_size_def reserve_expanded_bytes_def Let_def result_simps
      split: option.splits if_splits)

lemma outcome_commit_plan: "outcome ulower h entry s (commit_plan ulower h entry plan s)"
proof (cases plan)
  case (PlannedSkip nap reason)
  then show ?thesis by (simp add: commit_plan_def outcome_def)
next
  case (PlannedWrite w)
  show ?thesis
  proof (cases "validate_write_paths ulower h s entry w")
    case (Inl e)
    then show ?thesis using PlannedWrite by (simp add: commit_plan_def outcome_def)
  next
    case (Inr u)
    obtain r t where rt: "reserve_expanded_size entry s = (r, t)" by (cases "reserve_expanded_size entry s")
    show ?thesis
    proof (cases r)
      case (Inl e)
      then show ?thesis using PlannedWrite Inr rt reserve_expanded_size_error [of entry s e t]
        by (simp add: commit_plan_def outcome_def)
    next
      case (Inr v)
      then show ?thesis using PlannedWrite \<open>validate_write_paths ulower h s entry w = Inr u\<close> rt
        by (auto simp: commit_plan_def outcome_def)
    qed
  qed
qed

lemma outcome_plan_entry: "outcome ulower h entry s (plan_entry ulower h resolver entry nap dest link s)"
  unfolding plan_entry_def
proof (intro outcome_and_then_st)
  show "quiet s (snd (if overwrite (policy s) \<noteq> Replace then reject_collision ulower nap s else (Inr (), s)))"
    using quiet_reject_collision [OF surjective_pairing] by simp
  show "quiet t (snd (plan_destination_write h resolver entry nap dest link t))" for t
    by (rule quiet_plan_destination_write [OF surjective_pairing])
qed (rule outcome_commit_plan)

lemma outcome_skip: "outcome ulower h entry s (Inr (Skip nap reason), s)"
  by (simp add: outcome_def)

lemma outcome_error: "outcome ulower h entry s (Inl e, s)"
  by (simp add: outcome_def)

lemma outcome_validate_entry: "outcome ulower h entry s (validate_entry ulower h resolver entry s)"
proof -
  have kind: "outcome ulower h entry t (validate_kind ulower h resolver entry nap dest t)" for nap dest t
    by (cases "entry_kind entry")
      (simp_all add: validate_kind_def outcome_skip outcome_error outcome_plan_entry outcome_and_then_st)
  have selected: "outcome ulower h entry t (validate_selected ulower h resolver entry nap t)" for nap t
    unfolding validate_selected_def Let_def
    using quiet_reserve_entry [OF surjective_pairing] by (intro outcome_and_then_st kind) simp_all
  show ?thesis
    unfolding validate_entry_def
    by (rule outcome_and_then_st) (simp_all add: selected outcome_skip split: option.split)
qed


section \<open>What an accepted write went through\<close>

lemma archive_names_path:
  assumes "ps \<noteq> []" "list_all archive_name ps"
  shows "split_on (CHR ''/'') (join_with ''/'' ps) = ps" "path_of_string (join_with ''/'' ps) = map Normal ps"
proof -
  have plain: "\<forall>p \<in> set ps. plain_name p" using assms(2) by (auto simp: list_all_iff)
  show "path_of_string (join_with ''/'' ps) = map Normal ps" by (rule path_of_string_plain [OF assms(1) plain])
  show "split_on (CHR ''/'') (join_with ''/'' ps) = ps"
    using plain by (intro split_join [OF assms(1)]) (auto simp: plain_name_def)
qed

definition archive_text :: "string \<Rightarrow> string list \<Rightarrow> bool" where
  "archive_text s ps \<longleftrightarrow> ps \<noteq> [] \<and> list_all archive_name ps \<and> s = join_with ''/'' ps"

lemma archive_text_normalize: "normalize_archive_path raw = Inr s \<Longrightarrow> \<exists>ps. archive_text s ps"
  by (erule normalize_archive_path_parts) (auto simp: archive_text_def list_all_iff)

lemma archive_text_strip:
  assumes "archive_text s ps" "strip_archive_components s k = Some s'"
  shows "archive_text s' (drop k ps)"
proof -
  have ps: "ps \<noteq> []" "list_all archive_name ps" "s = join_with ''/'' ps"
    using assms(1) by (simp_all add: archive_text_def)
  have "list_all archive_name (drop k ps)" using ps(2) in_set_dropD [of _ k ps] by (auto simp: list_all_iff)
  moreover have "split_on (CHR ''/'') s = ps" unfolding ps(3) by (rule archive_names_path(1) [OF ps(1,2)])
  ultimately show ?thesis
    using assms(2) by (simp add: archive_text_def strip_archive_components_def Let_def del: drop_eq_Nil split: if_splits)
qed

lemma archive_text_path: "archive_text s ps \<Longrightarrow> path_of_string s = map Normal ps"
  using archive_names_path(2) by (simp add: archive_text_def)

lemma archive_text_dest:
  "archive_text s ps \<Longrightarrow> normal_path root \<Longrightarrow>
     lexically_normalize (path_join root (path_of_string s)) = root @ map Normal ps"
  by (simp add: archive_text_path path_simps)

text \<open>The link target an entry kind leads to.\<close>

fun link_plan ::
  "(string \<Rightarrow> string) \<Rightarrow> host \<Rightarrow> planner \<Rightarrow> path \<Rightarrow> extraction_entry_kind \<Rightarrow> path option \<Rightarrow> bool" where
  "link_plan ulower h s dest (Symlink target) link \<longleftrightarrow>
     link = None \<and> \<not> ignore_symlinks (policy s) \<and> validate_symlink_target ulower h s dest target = Inr ()"
| "link_plan ulower h s dest (Hardlink target) link \<longleftrightarrow>
     (\<exists>p. link = Some p \<and> resolve_hardlink_target s target = Inr p)"
| "link_plan ulower h s dest File link \<longleftrightarrow> link = None"
| "link_plan ulower h s dest Directory link \<longleftrightarrow> link = None"
| "link_plan ulower h s dest _ link \<longleftrightarrow> False"

lemma validate_kind_Write:
  assumes "validate_kind ulower h resolver entry nap dest s = (Inr (into_decision w), t)"
  shows "\<exists>link. link_plan ulower h s dest (entry_kind entry) link \<and>
           plan_entry ulower h resolver entry nap dest link s = (Inr (into_decision w), t)"
  using assms by (cases "entry_kind entry") (auto simp: validate_kind_def result_simps split: if_splits)

lemma validate_selected_Write:
  assumes "validate_selected ulower h resolver entry nap s = (Inr (into_decision w), t)"
    and "archive_text nap ps" "normal_path (destination_root s)"
  shows "\<exists>s1 link. reserve_entry nap s = (Inr (), s1) \<and>
           link_plan ulower h s1 (destination_root s @ map Normal ps) (entry_kind entry) link \<and>
           plan_entry ulower h resolver entry nap (destination_root s @ map Normal ps) link s1
             = (Inr (into_decision w), t)"
proof -
  obtain s1 where s1: "reserve_entry nap s = (Inr (), s1)"
    and rest: "validate_kind ulower h resolver entry nap
        (lexically_normalize (path_join (destination_root s1) (path_of_string nap))) s1 = (Inr (into_decision w), t)"
    using assms(1) by (auto simp: validate_selected_def Let_def result_simps)
  have "destination_root s1 = destination_root s" using quietD(1) [OF quiet_reserve_entry [OF s1]] .
  then show ?thesis
    using s1 validate_kind_Write [OF rest] archive_text_dest [OF assms(2,3)] by simp
qed

lemma validate_entry_Write:
  assumes "validate_entry ulower h resolver entry s = (Inr (into_decision w), t)"
    and "normal_path (destination_root s)"
  obtains nap ps s1 link where "archive_text nap ps" "reserve_entry nap s = (Inr (), s1)"
    "link_plan ulower h s1 (destination_root s @ map Normal ps) (entry_kind entry) link"
    "plan_entry ulower h resolver entry nap (destination_root s @ map Normal ps) link s1 = (Inr (into_decision w), t)"
proof -
  obtain nap0 where n0: "normalize_archive_path (archive_path entry) = Inr nap0"
    using assms(1) by (auto simp: validate_entry_def result_simps)
  from archive_text_normalize [OF n0] obtain ps0 where "archive_text nap0 ps0" by blast
  then have "\<exists>nap ps. archive_text nap ps \<and>
      validate_selected ulower h resolver entry nap s = (Inr (into_decision w), t)"
    using assms(1) n0 archive_text_strip [of nap0 ps0 "strip_components (policy s)"]
    by (simp add: validate_entry_def split: if_splits option.splits) blast+
  then show ?thesis using validate_selected_Write [OF _ _ assms(2)] that by blast
qed

lemma plan_entry_Write:
  assumes "plan_entry ulower h resolver entry nap dest link s = (Inr (into_decision w), t)"
  obtains s1 s2 s3 where
    "(if overwrite (policy s) \<noteq> Replace then reject_collision ulower nap s else (Inr (), s)) = (Inr (), s1)"
    "plan_destination_write h resolver entry nap dest link s1 = (Inr (PlannedWrite w), s2)"
    "validate_write_paths ulower h s2 entry w = Inr ()"
    "reserve_expanded_size entry s2 = (Inr (), s3)" "t = record_write_paths ulower entry w s3"
proof -
  obtain s1 s2 plan where
    1: "(if overwrite (policy s) \<noteq> Replace then reject_collision ulower nap s else (Inr (), s)) = (Inr (), s1)"
    and 2: "plan_destination_write h resolver entry nap dest link s1 = (Inr plan, s2)"
    and 3: "commit_plan ulower h entry plan s2 = (Inr (into_decision w), t)"
    using assms unfolding plan_entry_def and_then_st_eq_Inr by (auto simp del: split_paired_Ex)
  from 3 obtain s3 where "plan = PlannedWrite w" "validate_write_paths ulower h s2 entry w = Inr ()"
    "reserve_expanded_size entry s2 = (Inr (), s3)" "t = record_write_paths ulower entry w s3"
    by (auto simp: commit_plan_def result_simps split: planned_destination.splits)
  then show ?thesis using that 1 2 by blast
qed


section \<open>Containment\<close>

text \<open>A path strictly below the root, reached by plain names only.\<close>

definition inside :: "path \<Rightarrow> path \<Rightarrow> bool" where
  "inside root p \<longleftrightarrow> (\<exists>ns. ns \<noteq> [] \<and> list_all plain_name ns \<and> p = root @ map Normal ns)"

lemma archive_text_inside: "archive_text s ps \<Longrightarrow> inside root (root @ map Normal ps)"
  by (auto simp: archive_text_def inside_def list_all_iff intro!: exI [of _ ps])

lemma inside_normal: "inside root p \<Longrightarrow> normal_path root \<Longrightarrow> normal_path p \<and> named_path p"
  using normal_path_append [of root]
  by (auto simp: inside_def named_path_def last_map)

lemma rename_text_plain:
  assumes "CHR ''/'' \<notin> set stem" "CHR ''/'' \<notin> set tail"
  shows "plain_name (stem @ '' '' @ decimal n @ tail)"
proof -
  have slash: "(of_char (CHR ''/'') :: nat) = 47" by code_simp
  have "CHR ''/'' \<notin> set (decimal n)"
  proof
    assume "CHR ''/'' \<in> set (decimal n)"
    then obtain d where "d < 10" and d: "CHR ''/'' = digit d" using decimal_digits by blast
    then show False using of_char_digit [of d] slash unfolding d [symmetric] by simp
  qed
  moreover have "CHR '' '' \<in> set (stem @ '' '' @ decimal n @ tail)" by simp
  then have "stem @ '' '' @ decimal n @ tail \<noteq> x" if "CHR '' '' \<notin> set x" for x using that by blast
  ultimately show ?thesis using assms by (auto simp: plain_name_def)
qed

definition renamed :: "string \<Rightarrow> u64 \<Rightarrow> string" where
  "renamed f index =
     (case rsplit_file_at_dot f of
        (Some stem, Some extension) \<Rightarrow> stem @ '' '' @ decimal (unat index) @ ''.'' @ extension
      | _ \<Rightarrow> f @ '' '' @ decimal (unat index))"

lemma renamed_plain: "plain_name f \<Longrightarrow> plain_name (renamed f index)"
  using rsplit_stem_cases [of f] rename_text_plain [of _ "''.'' @ _" "unat index"] rename_text_plain [of f "[]" "unat index"]
  by (auto simp: renamed_def plain_name_def [of f] split: prod.split option.split)

lemma rename_candidate_snoc:
  assumes "plain_name f"
  shows "rename_candidate (q @ [Normal f]) index = q @ [Normal (renamed f index)]"
proof -
  obtain b a where ba: "rsplit_file_at_dot f = (b, a)" by (cases "rsplit_file_at_dot f")
  have name: "(case path_extension (q @ [Normal f]) of
             Some extension \<Rightarrow> rename_stem (q @ [Normal f]) @ '' '' @ decimal (unat index) @ ''.'' @ extension
           | None \<Rightarrow> rename_stem (q @ [Normal f]) @ '' '' @ decimal (unat index)) = renamed f index"
  proof -
    from rsplit_stem_cases [OF ba] consider "b = None" "a = Some f" | "b = Some f" "a = None"
      | b' a' where "b = Some b'" "a = Some a'" by blast
    then show ?thesis
      by cases (simp_all add: ba path_extension_def path_file_stem_def rename_stem_def renamed_def)
  qed
  have "path_of_string (renamed f index) = [Normal (renamed f index)]"
    using path_of_string_plain [of "[renamed f index]"] renamed_plain [OF assms] by simp
  then show ?thesis unfolding rename_candidate_def Let_def name by simp
qed

lemma inside_rename_candidate:
  assumes "inside root p"
  shows "inside root (rename_candidate p index)"
proof -
  from assms obtain ns f where p: "p = root @ map Normal (ns @ [f])" and ok: "list_all plain_name (ns @ [f])"
    unfolding inside_def by (metis append_butlast_last_id)
  have "rename_candidate p index = root @ map Normal (ns @ [renamed f index])"
    using rename_candidate_snoc [of f "root @ map Normal ns"] ok by (simp add: p)
  then show ?thesis using ok renamed_plain [of f index]
    unfolding inside_def by (intro exI [of _ "ns @ [renamed f index]"]) simp
qed

lemma first_free_Some:
  "first_free h p a b = Some (c, j) \<Longrightarrow> \<exists>i. c = rename_candidate p i \<and> \<not> path_exists h c"
proof (induction h p a b rule: first_free.induct)
  case (1 h p a b)
  then show ?case using first_free.simps [of h p a b] by (auto simp: Let_def split: if_splits)
qed

lemma rename_candidate_or_error_ok:
  assumes "rename_candidate_or_error h entry dest s = (Inr c, t)"
  shows "\<not> path_exists h c \<and> (c = dest \<or> (\<exists>i. c = rename_candidate dest i))"
  using assms first_free_Some
  by (fastforce simp: rename_candidate_or_error_def next_available_destination_path_from_def Let_def
      split: option.splits prod.splits if_splits)

text \<open>All that a conflict resolution can decide for a write, by policy: the destination is
  absent; a directory meets a directory; a free sibling is taken; the user or the policy
  replaces what is there.\<close>

definition conflict_resolved :: "host \<Rightarrow> overwrite_policy \<Rightarrow> extraction_entry \<Rightarrow> path \<Rightarrow> planned_write \<Rightarrow> bool" where
  "conflict_resolved h pol entry dest w \<longleftrightarrow>
     (case symlink_metadata h dest of
        Inl error \<Rightarrow>
          destination_is_absent error \<and> destination_path w = dest
          \<and> (replace_existing w \<longleftrightarrow> pol = Replace \<and> entry_kind entry \<noteq> Directory)
      | Inr metadata \<Rightarrow>
          (if entry_kind entry = Directory \<and> metadata = DirectoryFile
           then destination_path w = dest \<and> \<not> replace_existing w
           else pol \<in> {Rename, Ask} \<and> \<not> replace_existing w \<and> \<not> path_exists h (destination_path w)
                \<or> pol \<in> {Replace, Ask} \<and> replace_existing w \<and> destination_path w = dest))"

lemma planned_as_iff:
  "planned_as nap dest link repl = PlannedWrite w \<longleftrightarrow>
     normalized_archive_path w = nap \<and> destination_path w = dest \<and> link_target_path w = link \<and> replace_existing w = repl"
  by (cases w) (auto simp: planned_as_def)

lemma planned_as_not_skip [simp]: "planned_as nap dest link repl \<noteq> PlannedSkip a b" "PlannedSkip a b \<noteq> PlannedWrite w"
  by (simp_all add: planned_as_def)

lemma plan_destination_write_ok:
  assumes "plan_destination_write h resolver entry nap dest link s = (Inr (PlannedWrite w), t)"
  shows "normalized_archive_path w = nap" "link_target_path w = link"
    and "destination_path w = dest \<or> (\<exists>i. destination_path w = rename_candidate dest i)"
    and "conflict_resolved h (overwrite (policy s)) entry dest w"
proof -
  let ?goal = "normalized_archive_path w = nap \<and> link_target_path w = link
    \<and> (destination_path w = dest \<or> (\<exists>i. destination_path w = rename_candidate dest i))
    \<and> conflict_resolved h (overwrite (policy s)) entry dest w"
  have ?goal
  proof (cases "symlink_metadata h dest")
    case (Inl e)
    then show ?thesis using assms
      by (auto simp: plan_destination_write_def planned_as_iff conflict_resolved_def split: if_splits)
  next
    case (Inr m)
    show ?thesis
    proof (cases "overwrite (policy s)")
      case Refuse
      then show ?thesis using assms Inr
        by (auto simp: plan_destination_write_def planned_as_iff conflict_resolved_def split: if_splits)
    next
      case Replace
      then show ?thesis using assms Inr
        by (auto simp: plan_destination_write_def planned_as_iff conflict_resolved_def)
    next
      case Rename
      then show ?thesis using assms Inr
        by (auto simp: plan_destination_write_def planned_as_iff conflict_resolved_def result_simps
            dest!: rename_candidate_or_error_ok split: if_splits)
    next
      case Ask
      then show ?thesis using assms Inr
        by (auto simp: plan_destination_write_def planned_as_iff conflict_resolved_def result_simps
            dest!: rename_candidate_or_error_ok split: if_splits overwrite_decision.splits)
          (metis overwrite_decision.exhaust)+
    qed
  qed
  then show "normalized_archive_path w = nap" "link_target_path w = link"
    "destination_path w = dest \<or> (\<exists>i. destination_path w = rename_candidate dest i)"
    "conflict_resolved h (overwrite (policy s)) entry dest w" by blast+
qed

lemma resolve_hardlink_target_inside:
  assumes "resolve_hardlink_target s target = Inr p" "normal_path (destination_root s)"
  shows "inside (destination_root s) p"
proof -
  obtain t0 where t0: "normalize_archive_path target = Inr t0"
    using assms(1) by (auto simp: resolve_hardlink_target_def result_simps split: sum.splits)
  from archive_text_normalize [OF t0] obtain ps0 where ps0: "archive_text t0 ps0" by blast
  have "\<exists>t ps. archive_text t ps \<and> p = lexically_normalize (path_join (destination_root s) (path_of_string t))"
    using assms(1) t0 ps0 archive_text_strip [OF ps0]
    by (simp add: resolve_hardlink_target_def result_simps Let_def split: if_splits option.splits) blast+
  then show ?thesis using archive_text_dest [OF _ assms(2)] archive_text_inside by metis
qed


text \<open>The link of a write stays inside: the resolved source of a hard link, and the target of
  a symbolic link read from the directory the link is written to.\<close>

definition links_inside :: "path \<Rightarrow> extraction_entry \<Rightarrow> planned_write \<Rightarrow> bool" where
  "links_inside root entry w \<longleftrightarrow>
     (case link_target_path w of None \<Rightarrow> True | Some t \<Rightarrow> inside root t) \<and>
     (case entry_kind entry of
        Symlink target \<Rightarrow>
          starts_with (lexically_normalize (path_join (butlast (destination_path w)) (path_of_string target))) root
          \<and> link_target_path w = None
      | Hardlink target \<Rightarrow> link_target_path w \<noteq> None
      | _ \<Rightarrow> link_target_path w = None)"

lemma inside_snoc:
  assumes "inside root p"
  shows "\<exists>q f. p = q @ [Normal f] \<and> plain_name f"
proof -
  from assms obtain ns where ns: "ns \<noteq> []" "list_all plain_name ns" "p = root @ map Normal ns"
    by (auto simp: inside_def)
  from ns(1) obtain ms f where "ns = ms @ [f]" by (cases ns rule: rev_cases) auto
  with ns(2,3) show ?thesis by (intro exI [of _ "root @ map Normal ms"] exI [of _ f]) simp
qed

lemma butlast_rename_candidate:
  assumes "inside root p"
  shows "butlast (rename_candidate p i) = butlast p"
proof -
  from inside_snoc [OF assms] obtain q f where "p = q @ [Normal f]" "plain_name f" by blast
  then show ?thesis by (simp add: rename_candidate_snoc)
qed

lemma validate_symlink_target_starts:
  assumes "validate_symlink_target ulower h s dest target = Inr ()"
  shows "starts_with (lexically_normalize (path_join (butlast dest) (path_of_string target))) (destination_root s)"
  using assms
  by (auto simp: validate_symlink_target_def result_simps path_parent_def Let_def split: if_splits)

lemma validate_entry_contained:
  assumes "validate_entry ulower h resolver entry s = (Inr (into_decision w), t)"
    and root: "normal_path (destination_root s)"
  shows "inside (destination_root s) (destination_path w)" "links_inside (destination_root s) entry w"
proof -
  from validate_entry_Write [OF assms] obtain nap ps s1 link where
    names: "archive_text nap ps" and r: "reserve_entry nap s = (Inr (), s1)"
    and lp: "link_plan ulower h s1 (destination_root s @ map Normal ps) (entry_kind entry) link"
    and pe: "plan_entry ulower h resolver entry nap (destination_root s @ map Normal ps) link s1 = (Inr (into_decision w), t)"
    by blast
  let ?dest = "destination_root s @ map Normal ps"
  have s1: "destination_root s1 = destination_root s" by (rule quietD(1) [OF quiet_reserve_entry [OF r]])
  have in0: "inside (destination_root s) ?dest" by (rule archive_text_inside [OF names])
  from plan_entry_Write [OF pe] obtain s2 s3 where
    "plan_destination_write h resolver entry nap ?dest link s2 = (Inr (PlannedWrite w), s3)" by blast
  note w = plan_destination_write_ok [OF this]
  show "inside (destination_root s) (destination_path w)"
    using w(3) in0 inside_rename_candidate by auto
  have dir: "butlast (destination_path w) = butlast ?dest"
    using w(3) butlast_rename_candidate [OF in0] by auto
  show "links_inside (destination_root s) entry w"
    using lp s1 root w(2) resolve_hardlink_target_inside [of s1] validate_symlink_target_starts [of ulower h s1 ?dest]
    by (cases "entry_kind entry") (auto simp: links_inside_def dir)
qed

definition contained :: "path \<Rightarrow> call_log \<Rightarrow> planner \<Rightarrow> bool" where
  "contained root log s \<longleftrightarrow> destination_root s = root \<and> normal_path root \<and>
     list_all (\<lambda>(entry, w). inside root (destination_path w) \<and> links_inside root entry w) (accepted log)"

lemma plan_call_root:
  assumes "plan_call ulower c s = (r, t)"
  shows "destination_root t = destination_root s \<and> policy t = policy s"
proof -
  obtain h resolver entry where c: "c = (h, resolver, entry)" by (cases c)
  have "outcome ulower h entry s (r, t)"
    using outcome_validate_entry [of ulower h entry s resolver] assms c by simp
  then show ?thesis
    unfolding outcome_def using quietD(1,2) reserve_expanded_size_fields(1,2)
    by (elim disjE exE conjE) (simp_all add: record_write_paths_def Let_def)
qed


interpretation containment: logged_object "plan_call ulower" "contained root" for ulower root
proof
  fix log s c r t assume inv: "contained root log s" and step: "plan_call ulower c s = (r, t)"
  have root: "destination_root t = root" "normal_path root"
    using inv plan_call_root [OF step] by (auto simp: contained_def)
  show "contained root (log @ [(c, r)]) t"
    using accepted_single_cases [of c r]
  proof (elim disjE exE conjE)
    assume "accepted [(c, r)] = []"
    then show ?thesis using inv root by (simp add: contained_def)
  next
    fix h resolver entry w
    assume c: "c = (h, resolver, entry)" and r: "r = Inr (into_decision w)" and acc: "accepted [(c, r)] = [(entry, w)]"
    have "validate_entry ulower h resolver entry s = (Inr (into_decision w), t)" using step c r by simp
    from validate_entry_contained [OF this] show ?thesis
      using inv root acc by (simp add: contained_def)
  qed
qed


section \<open>Symbolic links never lie on the way to a write\<close>

text \<open>The directories strictly between the root and a path.\<close>

definition strictly_between :: "path \<Rightarrow> path \<Rightarrow> path \<Rightarrow> bool" where
  "strictly_between root a p \<longleftrightarrow> starts_with a root \<and> a \<noteq> root \<and> starts_with p a \<and> a \<noteq> p"

lemma strictly_betweenE:
  assumes "strictly_between r a p"
  obtains x y where "a = r @ x" "x \<noteq> []" "p = r @ x @ y" "y \<noteq> []"
proof -
  from assms obtain x where x: "a = r @ x" "a \<noteq> r" by (auto simp: strictly_between_def starts_with_iff)
  from assms obtain y where y: "p = a @ y" by (auto simp: strictly_between_def starts_with_iff)
  have "y \<noteq> []" using assms y by (auto simp: strictly_between_def)
  then show ?thesis using x y by (intro that [of x y]) auto
qed

lemma push_ancestors_Normal:
  "normal_path q \<Longrightarrow>
     push_ancestors q (map Normal ns) = map (\<lambda>k. q @ map Normal (take k ns)) [1 ..< Suc (length ns)]"
proof (induction ns arbitrary: q)
  case (Cons n ns)
  have "normal_path (q @ [Normal n])" using normal_path_append [OF Cons.prems, of "[n]"] by simp
  then have "push_ancestors q (map Normal (n # ns)) =
      (q @ [Normal n]) # map (\<lambda>k. (q @ [Normal n]) @ map Normal (take k ns)) [1 ..< Suc (length ns)]"
    using Cons.IH [of "q @ [Normal n]"] by (simp add: Let_def del: upt_Suc append_assoc)
  moreover have "[1 ..< Suc (length (n # ns))] = 1 # map Suc [1 ..< Suc (length ns)]"
    by (simp add: map_Suc_upt upt_conv_Cons del: upt_Suc)
  ultimately show ?case by (simp del: upt_Suc)
qed simp

lemma strictly_between_takes:
  "{a. strictly_between r a (r @ xs @ [y])} = (\<lambda>k. r @ take k xs) ` {1 ..< Suc (length xs)}"
proof (intro set_eqI iffI)
  fix a assume "a \<in> (\<lambda>k. r @ take k xs) ` {1 ..< Suc (length xs)}"
  then obtain k where k: "1 \<le> k" "k \<le> length xs" "a = r @ take k xs" by auto
  have "r @ xs @ [y] = a @ drop k xs @ [y]" by (simp add: k(3))
  then have "starts_with (r @ xs @ [y]) a" unfolding starts_with_iff by (rule exI)
  moreover have "length a < length (r @ xs @ [y])" using k by simp
  then have "a \<noteq> r @ xs @ [y]" by blast
  moreover have "starts_with a r" "a \<noteq> r" using k by (auto simp: starts_with_iff)
  ultimately show "a \<in> {a. strictly_between r a (r @ xs @ [y])}" by (simp add: strictly_between_def)
next
  fix a assume "a \<in> {a. strictly_between r a (r @ xs @ [y])}"
  then obtain u v where a: "a = r @ u" "u \<noteq> []" "xs @ [y] = u @ v" "v \<noteq> []"
    by (auto elim: strictly_betweenE)
  from a(4) obtain v' z where "v = v' @ [z]" by (cases v rule: rev_cases) auto
  with a(3) have "xs = u @ v'" by simp
  then show "a \<in> (\<lambda>k. r @ take k xs) ` {1 ..< Suc (length xs)}"
    using a(1,2) by (auto intro!: image_eqI [of _ _ "length u"] simp: Suc_le_eq)
qed

lemma destination_ancestors_inside:
  assumes "inside (destination_root s) p" "normal_path (destination_root s)"
  shows "set (destination_ancestors s p) = {a. strictly_between (destination_root s) a p}"
proof -
  let ?root = "destination_root s"
  from assms(1) obtain ns where ns: "ns \<noteq> []" "p = ?root @ map Normal ns" by (auto simp: inside_def)
  obtain ms f where f: "ns = ms @ [f]" using ns(1) by (cases ns rule: rev_cases) auto
  have "path_parent p = Some (?root @ map Normal ms)" using path_parent_snoc [of "?root @ map Normal ms"] by (simp add: ns f)
  then have "set (destination_ancestors s p) = (\<lambda>k. ?root @ map Normal (take k ms)) ` {1 ..< Suc (length ms)}"
    using push_ancestors_Normal [OF assms(2), of ms]
    by (simp add: destination_ancestors_def strip_prefix_def starts_with_iff del: upt_Suc)
  also have "\<dots> = {a. strictly_between ?root a p}"
    using strictly_between_takes [of ?root "map Normal ms" "Normal f"] by (simp add: ns f take_map)
  finally show ?thesis .
qed


lemma strictly_between_inside:
  assumes "inside root p" "strictly_between root a p"
  shows "inside root a"
proof -
  from assms(2) obtain x y where xy: "a = root @ x" "x \<noteq> []" "p = root @ x @ y" by (rule strictly_betweenE)
  from assms(1) obtain ns where ns: "list_all plain_name ns" "p = root @ map Normal ns" by (auto simp: inside_def)
  from ns(2) xy(3) have "map Normal ns = x @ y" by simp
  then obtain us vs where "ns = us @ vs" "x = map Normal us" by (auto simp: map_eq_append_conv)
  then show ?thesis using ns(1) xy(1,2) unfolding inside_def by (intro exI [of _ us]) simp
qed

text \<open>Of the accepted writes, the last one to a key decides what the plan has there.\<close>

definition symlink_at :: "(string \<Rightarrow> string) \<Rightarrow> (extraction_entry \<times> planned_write) list \<Rightarrow> string \<Rightarrow> bool" where
  "symlink_at ulower ws k \<longleftrightarrow>
     (let here = filter (\<lambda>(entry, w). path_key ulower (destination_path w) = k) ws
      in here \<noteq> [] \<and> is_symlink_kind (entry_kind (fst (last here))))"

lemma symlink_at_Nil [simp]: "\<not> symlink_at ulower [] k"
  by (simp add: symlink_at_def)

lemma symlink_at_snoc [simp]:
  "symlink_at ulower (ws @ [(entry, w)]) k \<longleftrightarrow>
     (if path_key ulower (destination_path w) = k then is_symlink_kind (entry_kind entry) else symlink_at ulower ws k)"
  by (simp add: symlink_at_def Let_def)

text \<open>The paths the writer goes through for a write: the directories above the destination,
  and for a hard link its source and the directories above it.\<close>

definition on_the_way :: "path \<Rightarrow> planned_write \<Rightarrow> path \<Rightarrow> bool" where
  "on_the_way root w a \<longleftrightarrow>
     strictly_between root a (destination_path w) \<or>
     (case link_target_path w of None \<Rightarrow> False | Some t \<Rightarrow> a = t \<or> strictly_between root a t)"

definition separated :: "(string \<Rightarrow> string) \<Rightarrow> path \<Rightarrow> call_log \<Rightarrow> planner \<Rightarrow> bool" where
  "separated ulower root log s \<longleftrightarrow>
     contained root log s \<and> planned_symlinks s = Collect (symlink_at ulower (accepted log)) \<and>
     (\<forall>(entry, w) \<in> set (accepted log). \<forall>a. on_the_way root w a \<longrightarrow>
        path_key ulower a \<in> required_non_symlink_paths s \<and> path_key ulower a \<notin> planned_symlinks s)"

lemma require_non_symlink_ok:
  "require_non_symlink ulower h s ap p = Inr () \<longleftrightarrow>
     path_key ulower p \<notin> planned_symlinks s \<and> symlink_metadata h p \<noteq> Inr SymlinkFile \<and>
     (\<forall>e. symlink_metadata h p = Inl e \<longrightarrow> destination_is_absent e)"
  by (auto simp: require_non_symlink_def Let_def is_symlink_or_reparse_point_def split: sum.splits if_splits)

lemma on_the_way_required:
  assumes "inside root (destination_path w)" "links_inside root entry w" "normal_path root" "destination_root s = root"
  shows "{a. on_the_way root w a} = set (destination_ancestors s (destination_path w) @ hardlink_paths s w)"
proof -
  have "inside root t" if "link_target_path w = Some t" for t
    using assms(2) that by (simp add: links_inside_def)
  then show ?thesis
    using assms destination_ancestors_inside [of s]
    by (auto simp: on_the_way_def hardlink_paths_def split: option.splits)
qed

lemma validate_write_paths_ok:
  assumes "validate_write_paths ulower h s entry w = Inr ()"
    and "inside root (destination_path w)" "links_inside root entry w" "normal_path root" "destination_root s = root"
    and way: "on_the_way root w a"
  shows "path_key ulower a \<notin> planned_symlinks s" "symlink_metadata h a \<noteq> Inr SymlinkFile"
proof -
  have "require_non_symlink ulower h s (archive_path entry) a = Inr ()"
    using assms(1) way on_the_way_required [OF assms(2-5)]
    by (auto simp: validate_write_paths_def Let_def result_simps)
  then show "path_key ulower a \<notin> planned_symlinks s" "symlink_metadata h a \<noteq> Inr SymlinkFile"
    by (simp_all add: require_non_symlink_ok)
qed

lemma validate_write_paths_symlink:
  assumes "validate_write_paths ulower h s entry w = Inr ()" "is_symlink_kind (entry_kind entry)"
  shows "path_key ulower (destination_path w) \<notin> required_non_symlink_paths s"
  using assms by (auto simp: validate_write_paths_def Let_def result_simps)


lemma record_write_paths_fields:
  "destination_root (record_write_paths ulower entry w s) = destination_root s"
  "planned_symlinks (record_write_paths ulower entry w s) =
     (if is_symlink_kind (entry_kind entry) then insert (path_key ulower (destination_path w)) (planned_symlinks s)
      else planned_symlinks s - {path_key ulower (destination_path w)})"
  "required_non_symlink_paths (record_write_paths ulower entry w s) =
     required_non_symlink_paths s \<union> path_key ulower ` set (required_paths s entry w)"
  by (simp_all add: record_write_paths_def Let_def)

lemma on_the_way_key:
  assumes "inside root (destination_path w)" "links_inside root entry w" "normal_path root"
    and "on_the_way root w a" "is_symlink_kind (entry_kind entry)"
  shows "path_key ulower a \<noteq> path_key ulower (destination_path w)"
proof -
  have "link_target_path w = None" using assms(2,5) by (cases "entry_kind entry") (auto simp: links_inside_def)
  then have a: "strictly_between root a (destination_path w)" using assms(4) by (simp add: on_the_way_def)
  then have "named_path a" "starts_with (destination_path w) a" "destination_path w \<noteq> a"
    using inside_normal [OF strictly_between_inside [OF assms(1) a] assms(3)] by (auto simp: strictly_between_def)
  moreover have "normal_path (destination_path w)" using inside_normal [OF assms(1,3)] by blast
  ultimately show ?thesis using collision.key_strict_prefix [of a "destination_path w" ulower] by metis
qed

lemma separated_write:
  assumes inv: "separated ulower root log s"
    and val: "validate_entry ulower h resolver entry s = (Inr (into_decision w), t)"
  shows "separated ulower root (log @ [((h, resolver, entry), Inr (into_decision w))]) t"
proof -
  have root: "destination_root s = root" "normal_path root" using inv by (auto simp: separated_def contained_def)
  from outcome_validate_entry [of ulower h entry s resolver] obtain s2 s3 where
    q: "quiet s s2" and paths: "validate_write_paths ulower h s2 entry w = Inr ()"
    and r: "reserve_expanded_size entry s2 = (Inr (), s3)" and t: "t = record_write_paths ulower entry w s3"
    unfolding outcome_def val by auto
  note w = validate_entry_contained [OF val, unfolded root, OF root(2)]
  note same = quietD(1,5,6) [OF q] reserve_expanded_size_fields(1,4,5) [OF r]
  have s2: "destination_root s2 = root" "destination_root s3 = root" using same root by simp_all
  have sym: "planned_symlinks t = Collect (symlink_at ulower (accepted log @ [(entry, w)]))"
    using inv same by (auto simp: t record_write_paths_fields separated_def split: if_splits)
  have old: "path_key ulower a \<in> required_non_symlink_paths t \<and> path_key ulower a \<notin> planned_symlinks t"
    if "(entry', w') \<in> set (accepted log)" "on_the_way root w' a" for entry' w' a
  proof -
    have a: "path_key ulower a \<in> required_non_symlink_paths s" "path_key ulower a \<notin> planned_symlinks s"
      using inv that by (auto simp: separated_def)
    then show ?thesis
      using same validate_write_paths_symlink [OF paths] by (auto simp: t record_write_paths_fields)
  qed
  have new: "path_key ulower a \<in> required_non_symlink_paths t \<and> path_key ulower a \<notin> planned_symlinks t"
    if way: "on_the_way root w a" for a
  proof
    show "path_key ulower a \<in> required_non_symlink_paths t"
      using way on_the_way_required [OF w root(2) s2(2)]
      by (auto simp: t record_write_paths_fields required_paths_def)
    show "path_key ulower a \<notin> planned_symlinks t"
      using validate_write_paths_ok(1) [OF paths w root(2) s2(1) way] on_the_way_key [OF w root(2) way] same
      by (auto simp: t record_write_paths_fields)
  qed
  have c: "contained root (log @ [((h, resolver, entry), Inr (into_decision w))]) t"
    using containment.step_keeps [of root log s ulower "(h, resolver, entry)"] inv val by (simp add: separated_def)
  have all: "\<forall>(entry', w') \<in> set (accepted log @ [(entry, w)]). \<forall>a. on_the_way root w' a \<longrightarrow>
        path_key ulower a \<in> required_non_symlink_paths t \<and> path_key ulower a \<notin> planned_symlinks t"
    using old new by auto
  show ?thesis unfolding separated_def accepted_append accepted_into_decision using c sym all by (intro conjI)
qed

interpretation separation: logged_object "plan_call ulower" "separated ulower root" for ulower root
proof
  fix log s c r t assume inv: "separated ulower root log s" and step: "plan_call ulower c s = (r, t)"
  obtain h resolver entry where c: "c = (h, resolver, entry)" by (cases c)
  have o: "outcome ulower h entry s (r, t)" using outcome_validate_entry [of ulower h entry s resolver] step c by simp
  show "separated ulower root (log @ [(c, r)]) t"
  proof (cases "\<exists>w. r = Inr (into_decision w)")
    case True
    then show ?thesis using separated_write [OF inv] step c by auto
  next
    case False
    then have q: "quiet s t" and "accepted [(c, r)] = []"
      using o accepted_single_cases [of c r] by (auto simp: outcome_def)
    moreover have "contained root (log @ [(c, r)]) t"
      using containment.step_keeps [OF _ step] inv by (simp add: separated_def)
    ultimately show ?thesis using inv quietD(5,6) [OF q] by (auto simp: separated_def)
  qed
qed

text \<open>
  C3. Separation.  At every moment of any run, no accepted write goes through an accepted
  symbolic link: for each write let through so far and each directory strictly between the
  root and its destination (and, for a hard link, the source and each directory above it),
  the plan has no symbolic link at any path with the same case-folded key.  Earlier links
  block later descendants, and a link that would shadow an earlier write's directory is
  refused, whatever the order of the entries; a link that was itself replaced no longer counts.
\<close>

theorem planner_separates_symlinks:
  "let writes = accepted (fst (run_calls (plan_call ulower) calls (with_overwrite_resolver root pol)))
   in list_all (\<lambda>(entry, w). \<forall>a. \<not> (on_the_way (lexically_normalize root) w a \<and>
        symlink_at ulower writes (path_key ulower a))) writes"
proof -
  have "separated ulower (lexically_normalize root) [] (with_overwrite_resolver root pol)"
    by (simp add: separated_def contained_def with_overwrite_resolver_def)
  from separation.run_from_start [OF this, of calls]
  show ?thesis by (auto simp: separated_def list_all_iff Let_def)
qed

section \<open>Budgets\<close>

text \<open>What a limit admits: the amount asked for, or anything once the limit is the largest
  \<open>u64\<close> (the sums saturate there).\<close>

definition within :: "nat \<Rightarrow> u64 option \<Rightarrow> bool" where
  "within n limit \<longleftrightarrow> (case limit of None \<Rightarrow> True | Some l \<Rightarrow> n \<le> unat l \<or> l = - 1)"

definition file_size :: "extraction_entry \<Rightarrow> nat" where
  "file_size entry =
     (if entry_kind entry = File then (case uncompressed_size entry of Some n \<Rightarrow> unat n | None \<Rightarrow> 0) else 0)"

definition ratio_ok :: "extraction_limits \<Rightarrow> extraction_entry \<Rightarrow> bool" where
  "ratio_ok lim entry \<longleftrightarrow>
     (case (max_entry_expansion_ratio lim, compressed_size entry) of
        (Some ratio, Some c) \<Rightarrow> file_size entry \<le> unat c * unat ratio
      | _ \<Rightarrow> True)"

text \<open>The invariant: each counter stands for its total, up to saturation, and respects its limit.\<close>

definition counts :: "nat \<Rightarrow> u64 \<Rightarrow> u64 option \<Rightarrow> bool" where
  "counts n counter limit \<longleftrightarrow>
     (case limit of None \<Rightarrow> True
      | Some l \<Rightarrow> counter \<le> l \<and> (n \<le> unat counter \<or> counter = - 1))"

definition budgeted :: "extraction_policy \<Rightarrow> call_log \<Rightarrow> planner \<Rightarrow> bool" where
  "budgeted pol log s \<longleftrightarrow> policy s = pol \<and>
     counts (length (accepted log)) (planned_entries s) (max_entries (limits pol)) \<and>
     counts (sum_list (map (\<lambda>(entry, w). file_size entry) (accepted log)))
       (planned_expanded_bytes s) (max_expanded_bytes (limits pol)) \<and>
     list_all (\<lambda>(entry, w). ratio_ok (limits pol) entry) (accepted log)"

lemma counts_within: "counts n counter limit \<Longrightarrow> within n limit"
proof (cases limit)
  case (Some l)
  assume "counts n counter limit"
  then have c: "counter \<le> l" "n \<le> unat counter \<or> counter = - 1" by (simp_all add: counts_def Some)
  have "unat counter \<le> unat l" using c(1) by (simp add: word_le_nat_alt)
  moreover have "l = - 1" if "counter = - 1" using c(1) that by (simp add: word_order.extremum_uniqueI)
  ultimately show ?thesis using c(2) Some by (auto simp: within_def)
qed (simp add: within_def)

lemma counts_add:
  assumes "counts n counter (Some l)" "saturating_add counter b \<le> l"
  shows "counts (n + unat b) (saturating_add counter b) (Some l)"
proof -
  have max: "counter = - 1 \<Longrightarrow> saturating_add counter b = - 1"
    using saturating_add_mono [of counter b] by (simp add: word_order.extremum_uniqueI)
  have "unat counter + unat b \<le> unat (saturating_add counter b) \<or> saturating_add counter b = - 1"
    by (auto simp: saturating_add_def unat_word_ariths)
  then show ?thesis using assms max by (auto simp: counts_def)
qed

lemma counts_mono: "\<lbrakk>counts n c limit; c \<le> c'; \<And>l. limit = Some l \<Longrightarrow> c \<le> l \<Longrightarrow> c' \<le> l\<rbrakk> \<Longrightarrow> counts n c' limit"
  by (auto simp: counts_def word_le_nat_alt word_order.extremum_uniqueI split: option.splits)

lemma reserve_entry_counts:
  assumes "reserve_entry ap s = (Inr (), t)" "counts n (planned_entries s) (max_entries (limits (policy s)))"
  shows "counts (n + 1) (planned_entries t) (max_entries (limits (policy s)))"
  using assms counts_add [of n "planned_entries s" _ 1]
  by (auto simp: reserve_entry_def Let_def not_less counts_def [of _ _ None] split: option.splits if_splits)

lemma reserve_expanded_size_counts:
  assumes "reserve_expanded_size entry s = (Inr (), t)"
    and "counts n (planned_expanded_bytes s) (max_expanded_bytes (limits (policy s)))"
  shows "counts (n + file_size entry) (planned_expanded_bytes t) (max_expanded_bytes (limits (policy s)))"
  using assms counts_add [of n "planned_expanded_bytes s"]
  by (auto simp: reserve_expanded_size_def reserve_expanded_bytes_def file_size_def Let_def not_less
      counts_def [of _ _ None] result_simps split: option.splits if_splits)

lemma reject_expansion_ratio_ok:
  "reject_expansion_ratio ap u (Some c) ratio = Inr () \<longleftrightarrow> unat u \<le> unat c * unat ratio"
proof -
  have u: "unat (ucast x :: 128 word) = unat x" for x :: u64
    using unsigned_less [of x, where ?'a = nat] by (simp add: unsigned_ucast_eq take_bit_nat_eq_self)
  have "unat c * unat ratio < 2 ^ 64 * 2 ^ 64"
    using unsigned_less [of c, where ?'a = nat] unsigned_less [of ratio, where ?'a = nat]
    by (intro mult_strict_mono) auto
  then have p: "unat (ucast c * ucast ratio :: 128 word) = unat c * unat ratio"
    by (simp add: unat_word_ariths u)
  have "(ucast u :: 128 word) > ucast c * ucast ratio \<longleftrightarrow> unat u > unat c * unat ratio"
    by (simp add: word_less_nat_alt u p)
  then show ?thesis
    by (auto simp: reject_expansion_ratio_def word_less_nat_alt not_less unat_eq_zero split: if_splits)
qed

lemma reserve_expanded_size_ratio:
  "reserve_expanded_size entry s = (Inr (), t) \<Longrightarrow> ratio_ok (limits (policy s)) entry"
  using reject_expansion_ratio_ok
  by (auto simp: reserve_expanded_size_def ratio_ok_def file_size_def result_simps split: option.splits if_splits)


lemma validate_entry_counts:
  assumes val: "validate_entry ulower h resolver entry s = (Inr (into_decision w), t)"
    and root: "normal_path (destination_root s)"
    and n: "counts n (planned_entries s) (max_entries (limits (policy s)))"
    and m: "counts m (planned_expanded_bytes s) (max_expanded_bytes (limits (policy s)))"
  shows "counts (n + 1) (planned_entries t) (max_entries (limits (policy s)))"
    "counts (m + file_size entry) (planned_expanded_bytes t) (max_expanded_bytes (limits (policy s)))"
    "ratio_ok (limits (policy s)) entry"
proof -
  obtain nap dest s1 link where r: "reserve_entry nap s = (Inr (), s1)"
    and pe: "plan_entry ulower h resolver entry nap dest link s1 = (Inr (into_decision w), t)"
    by (rule validate_entry_Write [OF val root])
  have q1: "quiet s s1" by (rule quiet_reserve_entry [OF r])
  from outcome_plan_entry [of ulower h entry s1 resolver nap dest link] obtain s2 s3 where
    q2: "quiet s1 s2" and rs: "reserve_expanded_size entry s2 = (Inr (), s3)"
    and t: "t = record_write_paths ulower entry w s3"
    unfolding outcome_def pe by auto
  have eq: "planned_entries t = planned_entries s2" "planned_expanded_bytes t = planned_expanded_bytes s3"
    using reserve_expanded_size_fields(6) [OF rs] by (simp_all add: t record_write_paths_def Let_def)
  have pol: "policy s1 = policy s" "policy s2 = policy s" "planned_expanded_bytes s2 = planned_expanded_bytes s"
    using quietD(2,7) [OF q1] quietD(2,7) [OF q2] by simp_all
  have "counts (n + 1) (planned_entries s2) (max_entries (limits (policy s)))"
    using counts_mono [OF reserve_entry_counts [OF r n] quietD(9) [OF q2]] quietD(10) [OF q2] pol by simp
  then show "counts (n + 1) (planned_entries t) (max_entries (limits (policy s)))" by (simp add: eq)
  show "counts (m + file_size entry) (planned_expanded_bytes t) (max_expanded_bytes (limits (policy s)))"
    using reserve_expanded_size_counts [OF rs, of m] m by (simp add: eq pol)
  show "ratio_ok (limits (policy s)) entry" using reserve_expanded_size_ratio [OF rs] by (simp add: pol)
qed

definition budgeted_inside :: "path \<Rightarrow> extraction_policy \<Rightarrow> call_log \<Rightarrow> planner \<Rightarrow> bool" where
  "budgeted_inside root pol log s \<longleftrightarrow> contained root log s \<and> budgeted pol log s"

interpretation budgets: logged_object "plan_call ulower" "budgeted_inside root pol" for ulower root pol
proof
  fix log s c r t assume inv: "budgeted_inside root pol log s" and step: "plan_call ulower c s = (r, t)"
  obtain h resolver entry where c: "c = (h, resolver, entry)" by (cases c)
  have o: "outcome ulower h entry s (r, t)" using outcome_validate_entry [of ulower h entry s resolver] step c by simp
  have con: "contained root (log @ [(c, r)]) t"
    using containment.step_keeps [OF _ step] inv by (simp add: budgeted_inside_def)
  have root: "normal_path (destination_root s)" and pol: "policy s = pol" "policy t = pol"
    using inv plan_call_root [OF step] by (simp_all add: budgeted_inside_def contained_def budgeted_def)
  have "budgeted pol (log @ [(c, r)]) t"
  proof (cases "\<exists>w. r = Inr (into_decision w)")
    case True
    then obtain w where r: "r = Inr (into_decision w)" by blast
    from step have "validate_entry ulower h resolver entry s = (Inr (into_decision w), t)" by (simp add: c r)
    note keep = validate_entry_counts [OF this root, unfolded pol]
    show ?thesis
      using inv pol keep [of "length (accepted log)" "sum_list (map (\<lambda>(entry, w). file_size entry) (accepted log))"]
      by (simp add: budgeted_inside_def budgeted_def c r)
  next
    case False
    then have q: "quiet s t" and "accepted [(c, r)] = []"
      using o accepted_single_cases [of c r] by (auto simp: outcome_def)
    then show ?thesis
      using inv pol quietD(7) [OF q] counts_mono [OF _ quietD(9) [OF q], of _ "max_entries (limits pol)"] quietD(10) [OF q]
      by (simp add: budgeted_inside_def budgeted_def)
  qed
  then show "budgeted_inside root pol (log @ [(c, r)]) t" using con by (simp add: budgeted_inside_def)
qed

text \<open>
  C4. Decompression-bomb budgets.  Over any run the number of accepted writes stays within
  \<open>max_entries\<close>, the declared sizes of the accepted regular files add up (as mathematical
  integers, so beyond any wrap-around) to at most \<open>max_expanded_bytes\<close>, and each accepted
  file with a declared compressed size is at most \<open>max_entry_expansion_ratio\<close> times as large.
  The only slack is a limit of the largest \<open>u64\<close>, where the counter saturates.
\<close>

theorem planner_respects_limits:
  "let writes = accepted (fst (run_calls (plan_call ulower) calls (with_overwrite_resolver root pol)))
   in within (length writes) (max_entries (limits pol)) \<and>
      within (sum_list (map (\<lambda>(entry, w). file_size entry) writes)) (max_expanded_bytes (limits pol)) \<and>
      list_all (\<lambda>(entry, w). ratio_ok (limits pol) entry) writes"
proof -
  have "budgeted_inside (lexically_normalize root) pol [] (with_overwrite_resolver root pol)"
    by (simp add: budgeted_inside_def budgeted_def contained_def counts_def with_overwrite_resolver_def split: option.split)
  from budgets.run_from_start [OF this, of ulower calls]
  show ?thesis using counts_within by (auto simp: budgeted_inside_def budgeted_def Let_def)
qed

section \<open>Name collisions and overwriting\<close>

definition collision_free :: "(string \<Rightarrow> string) \<Rightarrow> path \<Rightarrow> extraction_policy \<Rightarrow> call_log \<Rightarrow> planner \<Rightarrow> bool" where
  "collision_free ulower root pol log s \<longleftrightarrow> contained root log s \<and> policy s = pol \<and>
     (let keys = map (\<lambda>(entry, w). case_collision_key ulower (normalized_archive_path w)) (accepted log)
      in overwrite pol = Replace \<or> distinct keys \<and> set keys \<subseteq> dom (seen_paths s))"

lemma validate_entry_key:
  assumes val: "validate_entry ulower h resolver entry s = (Inr (into_decision w), t)"
    and root: "normal_path (destination_root s)" and pol: "overwrite (policy s) \<noteq> Replace"
  shows "case_collision_key ulower (normalized_archive_path w) \<notin> dom (seen_paths s)"
    "case_collision_key ulower (normalized_archive_path w) \<in> dom (seen_paths t)"
    "dom (seen_paths s) \<subseteq> dom (seen_paths t)"
proof -
  obtain nap dest s1 link where r: "reserve_entry nap s = (Inr (), s1)"
    and pe: "plan_entry ulower h resolver entry nap dest link s1 = (Inr (into_decision w), t)"
    by (rule validate_entry_Write [OF val root])
  have s1: "seen_paths s1 = seen_paths s" "policy s1 = policy s"
    by (subst reserve_entry_state [OF r], simp)+
  from plan_entry_Write [OF pe] obtain s2 s3 s4 where
    c: "(if overwrite (policy s1) \<noteq> Replace then reject_collision ulower nap s1 else (Inr (), s1)) = (Inr (), s2)"
    and d: "plan_destination_write h resolver entry nap dest link s2 = (Inr (PlannedWrite w), s3)"
    and e: "reserve_expanded_size entry s3 = (Inr (), s4)" "t = record_write_paths ulower entry w s4" by blast
  have nap: "normalized_archive_path w = nap" by (rule plan_destination_write_ok(1) [OF d])
  have t: "seen_paths t = seen_paths s3"
    using reserve_expanded_size_fields(3) [OF e(1)] by (simp add: e(2) record_write_paths_def Let_def)
  have sub: "dom (seen_paths s2) \<subseteq> dom (seen_paths s3)" by (rule quietD(8) [OF quiet_plan_destination_write [OF d]])
  from c have k: "case_collision_key ulower nap \<notin> dom (seen_paths s)"
    "seen_paths s2 = (seen_paths s)(case_collision_key ulower nap \<mapsto> nap)"
    using pol s1 by (auto simp: reject_collision_def Let_def split: option.splits)
  show "case_collision_key ulower (normalized_archive_path w) \<notin> dom (seen_paths s)" using k(1) nap by simp
  show "case_collision_key ulower (normalized_archive_path w) \<in> dom (seen_paths t)"
    "dom (seen_paths s) \<subseteq> dom (seen_paths t)" using sub unfolding t nap k(2) by auto
qed

interpretation collisions: logged_object "plan_call ulower" "collision_free ulower root pol" for ulower root pol
proof
  fix log s c r t assume inv: "collision_free ulower root pol log s" and step: "plan_call ulower c s = (r, t)"
  obtain h resolver entry where c: "c = (h, resolver, entry)" by (cases c)
  have o: "outcome ulower h entry s (r, t)" using outcome_validate_entry [of ulower h entry s resolver] step c by simp
  have con: "contained root (log @ [(c, r)]) t"
    using containment.step_keeps [OF _ step] inv by (simp add: collision_free_def)
  have root: "normal_path (destination_root s)" and pol: "policy s = pol" "policy t = pol"
    using inv plan_call_root [OF step] by (simp_all add: collision_free_def contained_def)
  show "collision_free ulower root pol (log @ [(c, r)]) t"
  proof (cases "\<exists>w. r = Inr (into_decision w)")
    case True
    then obtain w where r: "r = Inr (into_decision w)" by blast
    from step have "validate_entry ulower h resolver entry s = (Inr (into_decision w), t)" by (simp add: c r)
    from validate_entry_key [OF this root] show ?thesis
      using inv pol con unfolding collision_free_def Let_def c r
      by (elim conjE disjE) (simp, simp, blast)
  next
    case False
    then have q: "quiet s t" and "accepted [(c, r)] = []"
      using o accepted_single_cases [of c r] by (auto simp: outcome_def)
    then show ?thesis using inv pol con subset_trans [OF _ quietD(8) [OF q]]
      by (simp add: collision_free_def Let_def) blast
  qed
qed

text \<open>
  C5. Unless the policy is Replace, no two accepted writes of a run have archive paths that
  differ only in case (in the sense of the collision key): the second is refused.
\<close>

theorem planner_rejects_collisions:
  "overwrite pol = Replace \<or>
   distinct (map (\<lambda>(entry, w). case_collision_key ulower (normalized_archive_path w))
     (accepted (fst (run_calls (plan_call ulower) calls (with_overwrite_resolver root pol)))))"
proof -
  have "collision_free ulower (lexically_normalize root) pol [] (with_overwrite_resolver root pol)"
    by (simp add: collision_free_def contained_def with_overwrite_resolver_def)
  from collisions.run_from_start [OF this, of calls] show ?thesis by (auto simp: collision_free_def Let_def)
qed



definition sample_entry :: extraction_entry where
  "sample_entry = \<lparr>archive_path = ''a/b.txt'', entry_kind = File, uncompressed_size = None, compressed_size = None\<rparr>"


section \<open>Numbered siblings\<close>

lemma renamed_inj: "renamed f i = renamed f j \<Longrightarrow> i = j"
  by (auto simp: renamed_def word_unat_eq_iff split: prod.splits option.splits dest!: decimal_inj)

lemma rename_candidate_inj:
  assumes "inside root p" "rename_candidate p i = rename_candidate p j"
  shows "i = j"
proof -
  from inside_snoc [OF assms(1)] obtain q f where "p = q @ [Normal f]" "plain_name f" by blast
  then show ?thesis using assms(2) renamed_inj [of f i j] by (simp add: rename_candidate_snoc)
qed

text \<open>The indices the loop visits.\<close>

definition index_range :: "u64 \<Rightarrow> u64 \<Rightarrow> u64 list" where
  "index_range start last_index = map of_nat [unat start ..< Suc (unat last_index)]"

lemma index_range_member:
  "i \<in> set (index_range a b) \<longleftrightarrow> a \<le> i \<and> i \<le> b"
proof -
  have "i \<in> set (index_range a b) \<longleftrightarrow> unat a \<le> unat i \<and> unat i \<le> unat b"
  proof
    assume "i \<in> set (index_range a b)"
    then obtain n where n: "unat a \<le> n" "n \<le> unat b" "i = of_nat n" by (auto simp: index_range_def)
    then have "n < 2 ^ LENGTH(64)" using unsigned_less [of b, where ?'a = nat] by simp
    then have "unat i = n" using n(3) by (simp add: unsigned_of_nat take_bit_nat_eq_self)
    then show "unat a \<le> unat i \<and> unat i \<le> unat b" using n by simp
  next
    assume "unat a \<le> unat i \<and> unat i \<le> unat b"
    then show "i \<in> set (index_range a b)"
      by (auto simp: index_range_def image_iff simp del: upt_Suc intro!: bexI [of _ "unat i"])
  qed
  then show ?thesis by (simp add: word_le_nat_alt)
qed

lemma index_range_unfold:
  "index_range a b = (if b < a then [] else a # (if a = b then [] else index_range (a + 1) b))"
proof (cases "b < a")
  case True
  then show ?thesis by (simp add: index_range_def word_less_nat_alt)
next
  case False
  then have le: "unat a \<le> unat b" by (simp add: word_le_nat_alt not_less)
  then have "[unat a ..< Suc (unat b)] = unat a # [Suc (unat a) ..< Suc (unat b)]" by (simp add: upt_conv_Cons del: upt_Suc)
  moreover have "unat (a + 1) = Suc (unat a)" if "a \<noteq> b"
    using that le by (intro word_succ_unat [of a b]) (simp add: word_less_nat_alt le_neq_implies_less word_unat_eq_iff)
  ultimately show ?thesis using False by (auto simp: index_range_def simp del: upt_Suc)
qed

lemma next_available_destination_path_search:
  "case next_available_destination_path_from h p start budget of
     None \<Rightarrow> path_exists h p \<and>
       list_all (\<lambda>i. path_exists h (rename_candidate p i)) (index_range start (saturating_add budget 1))
   | Some (c, j) \<Rightarrow> \<not> path_exists h c \<and>
       (if path_exists h p
        then list_ex (\<lambda>i. c = rename_candidate p i \<and> j = saturating_add i 1) (index_range start (saturating_add budget 1))
        else c = p \<and> j = start)"
proof -
  have "case first_free h p a b of
     None \<Rightarrow> list_all (\<lambda>i. path_exists h (rename_candidate p i)) (index_range a b)
   | Some (c, j) \<Rightarrow> \<not> path_exists h c \<and>
       list_ex (\<lambda>i. c = rename_candidate p i \<and> j = saturating_add i 1) (index_range a b)" for a b
  proof (induction h p a b rule: first_free.induct)
    case (1 h p a b)
    then show ?case unfolding first_free.simps [of h p a b] index_range_unfold [of a b]
      by (auto simp: Let_def split: option.splits)
  qed
  from this [of start "saturating_add budget 1"] show ?thesis
    by (auto simp: next_available_destination_path_from_def split: option.splits)
qed


text \<open>
  The search for a numbered sibling.  When the base path is taken it fails exactly when
  every candidate from the start index up to one past the budget exists, and otherwise
  returns a candidate in that range at which nothing exists, together with its successor
  index; when the base path is free it returns it and leaves the numbering alone.
\<close>

theorem next_available_destination_path_spec:
  "case next_available_destination_path_from h p start budget of
     None \<Rightarrow> path_exists h p \<and>
       list_all (\<lambda>i. path_exists h (rename_candidate p i)) (index_range start (saturating_add budget 1))
   | Some (c, j) \<Rightarrow> \<not> path_exists h c \<and>
       (if path_exists h p
        then list_ex (\<lambda>i. c = rename_candidate p i \<and> j = saturating_add i 1) (index_range start (saturating_add budget 1))
        else c = p \<and> j = start)"
  by (rule next_available_destination_path_search)

text \<open>Repeated conflicts on one destination: the siblings handed out while the base path is taken.\<close>

definition handed_out :: "path \<Rightarrow> ((host \<times> extraction_entry) \<times> (extraction_safety_error, path) result) list \<Rightarrow> path list" where
  "handed_out dest log =
     concat (map (\<lambda>((h, entry), r). case r of Inl _ \<Rightarrow> [] | Inr c \<Rightarrow> if path_exists h dest then [c] else []) log)"

fun rename_call :: "path \<Rightarrow> host \<times> extraction_entry \<Rightarrow> planner \<Rightarrow> path planning" where
  "rename_call dest (h, entry) s = rename_candidate_or_error h entry dest s"

definition numbered :: "path \<Rightarrow> path \<Rightarrow> ((host \<times> extraction_entry) \<times> (extraction_safety_error, path) result) list \<Rightarrow> planner \<Rightarrow> bool" where
  "numbered root dest log s \<longleftrightarrow> inside root dest \<and>
     (\<exists>is. handed_out dest log = map (rename_candidate dest) is \<and> distinct is \<and>
        (\<forall>i \<in> set is. \<exists>n. next_rename_index s dest = Some n \<and> i < n))"

lemma numbered_snoc:
  assumes "numbered root dest log s" "handed_out dest [x] = map (rename_candidate dest) js"
    and "length js \<le> 1" "\<forall>j \<in> set js. \<exists>n. next_rename_index t dest = Some n \<and> j < n"
    and "\<And>n. next_rename_index s dest = Some n \<Longrightarrow>
           (\<exists>n'. next_rename_index t dest = Some n' \<and> n \<le> n') \<and> (\<forall>j \<in> set js. n \<le> j)"
  shows "numbered root dest (log @ [x]) t"
proof -
  from assms(1) obtain "is" where i: "handed_out dest log = map (rename_candidate dest) is" "distinct is"
    "\<forall>i \<in> set is. \<exists>n. next_rename_index s dest = Some n \<and> i < n" by (auto simp: numbered_def)
  have js: "distinct js" using assms(3) by (cases js) auto
  have below: "\<exists>n'. next_rename_index t dest = Some n' \<and> i < n'" "\<forall>j \<in> set js. i < j" if "i \<in> set is" for i
    using i(3) that assms(5) by (fastforce intro: less_le_trans)+
  have "handed_out dest (log @ [x]) = map (rename_candidate dest) (is @ js)"
    using i(1) assms(2) by (simp add: handed_out_def)
  moreover have "distinct (is @ js)" using i(2) js below(2) by fastforce
  moreover have "\<forall>i \<in> set (is @ js). \<exists>n. next_rename_index t dest = Some n \<and> i < n"
    using below(1) assms(4) by auto
  moreover have "inside root dest" using assms(1) by (simp add: numbered_def)
  ultimately show ?thesis unfolding numbered_def by blast
qed

lemma rename_index_bound: "i \<le> saturating_add MAX_RENAME_CANDIDATES 1 \<Longrightarrow> i < saturating_add i 1"
proof -
  assume "i \<le> saturating_add MAX_RENAME_CANDIDATES 1"
  then have "unat i \<le> 10001" by (simp add: word_le_nat_alt unat_saturating_add MAX_RENAME_CANDIDATES_def)
  then show ?thesis by (simp add: word_less_nat_alt unat_saturating_add)
qed

interpretation renames: logged_object "rename_call dest" "numbered root dest" for root dest
proof
  fix log s c r t assume inv: "numbered root dest log s" and step: "rename_call dest c s = (r, t)"
  obtain h entry where c: "c = (h, entry)" by (cases c)
  let ?start = "case next_rename_index s dest of Some i \<Rightarrow> i | None \<Rightarrow> FIRST_RENAME_INDEX"
  let ?range = "index_range ?start (saturating_add MAX_RENAME_CANDIDATES 1)"
  let ?find = "next_available_destination_path_from h dest ?start MAX_RENAME_CANDIDATES"
  note spec = next_available_destination_path_search [of h dest ?start MAX_RENAME_CANDIDATES]
  show "numbered root dest (log @ [(c, r)]) t"
  proof (cases ?find)
    case None
    then show ?thesis using step c
      by (intro numbered_snoc [OF inv, of _ "[]"]) (auto simp: rename_candidate_or_error_def handed_out_def)
  next
    case (Some x)
    then obtain d j where x: "?find = Some (d, j)" by (cases x) auto
    have t: "r = Inr d" "next_rename_index t dest = Some j"
      using step c x by (auto simp: rename_candidate_or_error_def)
    show ?thesis
    proof (cases "path_exists h dest")
      case False
      then have "j = ?start" using spec x by simp
      then show ?thesis using False t c
        by (intro numbered_snoc [OF inv, of _ "[]"]) (auto simp: handed_out_def split: option.splits)
    next
      case True
      then obtain i where i: "i \<in> set ?range" "d = rename_candidate dest i" "j = saturating_add i 1"
        using spec x by (auto simp: list_ex_iff)
      then have "?start \<le> i" "i < j" using rename_index_bound by (auto simp: index_range_member)
      then show ?thesis using True t c i
        by (intro numbered_snoc [OF inv, of _ "[i]"]) (auto simp: handed_out_def intro: less_imp_le)
    qed
  qed
qed

text \<open>
  C36. A batch of conflicts on one destination that stays taken gets pairwise different
  siblings, whatever appears on or disappears from the disk in between: the planner never
  hands out a numbered path twice, since it resumes above the last index it used and
  different indices give different paths.
\<close>

theorem renames_never_repeat:
  assumes "inside root dest"
  shows "distinct (handed_out dest (fst (run_calls (rename_call dest) calls s)))"
proof -
  have "numbered root dest [] s" using assms by (simp add: numbered_def handed_out_def)
  from renames.run_from_start [OF this, of calls]
  obtain "is" where "handed_out dest (fst (run_calls (rename_call dest) calls s)) = map (rename_candidate dest) is"
    "distinct is" by (auto simp: numbered_def)
  moreover have "inj (rename_candidate dest)" using rename_candidate_inj [OF assms] by (auto intro: injI)
  ultimately show ?thesis using inj_on_subset [OF _ subset_UNIV] by (auto simp: distinct_map)
qed


text \<open>A disk on which exactly the given paths exist, as regular files, and nothing is a link.\<close>

definition host_with :: "path list \<Rightarrow> host" where
  "host_with files = \<lparr>symlink_metadata = (\<lambda>p. if p \<in> set files then Inr RegularFile else Inl absent_error),
                      path_exists = (\<lambda>p. p \<in> set files),
                      canonicalize = (\<lambda>p. if p \<in> set files then Inr p else Inl absent_error)\<rparr>"

definition rename_policy :: extraction_policy where
  "rename_policy = default_policy\<lparr>overwrite := Rename\<rparr>"

definition file_entry :: "string \<Rightarrow> extraction_entry" where
  "file_entry p = \<lparr>archive_path = p, entry_kind = File, uncompressed_size = None, compressed_size = None\<rparr>"

theorem renames_never_repeat_witness:
  "let dest = [Normal ''out'', Normal ''a.txt''];
       call = (host_with [dest], file_entry ''a.txt'');
       log = fst (run_calls (rename_call dest) [call, call] (with_overwrite_resolver [Normal ''out''] rename_policy))
   in handed_out dest log = [[Normal ''out'', Normal ''a 2.txt''], [Normal ''out'', Normal ''a 3.txt'']] \<and>
      distinct (handed_out dest log)"
proof -
  let ?dest = "[Normal ''out'', Normal ''a.txt'']"
  have i: "inside [Normal ''out''] ?dest"
    unfolding inside_def by (rule exI [of _ "[''a.txt'']"]) (simp add: plain_name_def)
  have h: "handed_out ?dest (fst (run_calls (rename_call ?dest)
      [(host_with [?dest], file_entry ''a.txt''), (host_with [?dest], file_entry ''a.txt'')]
      (with_overwrite_resolver [Normal ''out''] rename_policy))) =
    [[Normal ''out'', Normal ''a 2.txt''], [Normal ''out'', Normal ''a 3.txt'']]" by code_simp
  show ?thesis unfolding Let_def using h renames_never_repeat [OF i] by blast
qed

text \<open>
  Two limits of renaming.  The free-path test follows links (\<open>Path::exists\<close>), so a dangling
  symbolic link at the destination counts as free and the conflicting path itself is returned.
  And a renamed destination is not entered among the seen paths, so a planner that validates
  a whole archive before writing can give two entries the same destination.
\<close>

lemma rename_returns_dangling_link:
  "\<lbrakk>symlink_metadata h dest = Inr SymlinkFile; \<not> path_exists h dest; overwrite (policy s) = Rename\<rbrakk> \<Longrightarrow>
     fst (plan_destination_write h resolver entry nap dest link s) = Inr (planned_as nap dest link False)"
  by (simp add: plan_destination_write_def rename_candidate_or_error_def next_available_destination_path_from_def Let_def)

lemma rename_destinations_can_meet:
  "map (\<lambda>(entry, w). destination_path w)
     (accepted (fst (run_calls (plan_call (\<lambda>x. x))
        [(host_with [[Normal ''out'', Normal ''a'']], None, file_entry ''a''),
         (host_with [[Normal ''out'', Normal ''a'']], None, file_entry ''a 2'')]
        (with_overwrite_resolver [Normal ''out''] rename_policy)))) =
   [[Normal ''out'', Normal ''a 2''], [Normal ''out'', Normal ''a 2'']]"
  by code_simp

end
