(* ===== verification/Link_Order.thy ===== *)
theory Link_Order
  imports Host_FS
begin

text \<open>
  The materialization order of deferred links
  (\<open>deferred_link_dependency_order\<close> of \<open>crates/zmanager-core/src/safety.rs\<close>): a link whose
  source is the destination of another deferred link waits for it.  The code is Kahn's
  algorithm over a queue; indexing out of range and \<open>usize\<close> underflow, which panic, are the
  value \<open>None\<close> of the model, and the theorems show they do not occur.
\<close>

section \<open>The algorithm\<close>

type_synonym links = "(path \<times> path) list"

text \<open>\<open>destinations\<close>: a later pair with the same destination overwrites an earlier one.\<close>

definition destinations :: "links \<Rightarrow> (path \<rightharpoonup> nat)" where
  "destinations links = map_of (rev (map (\<lambda>(index, link). (snd link, index)) (enumerate 0 links)))"

fun scan_links ::
  "host \<Rightarrow> (path \<rightharpoonup> nat) \<Rightarrow> (nat \<times> path \<times> path) list \<Rightarrow> nat list \<Rightarrow> nat list list
     \<Rightarrow> (io_error, nat list \<times> nat list list) result" where
  "scan_links h dests [] counts dependents = Inr (counts, dependents)"
| "scan_links h dests ((index, source, dest) # rest) counts dependents =
     (case dests source of
        Some dependency \<Rightarrow>
          scan_links h dests rest (counts[index := 1]) (dependents[dependency := dependents ! dependency @ [index]])
      | None \<Rightarrow>
          (case symlink_metadata h source of
             Inl source_error \<Rightarrow>
               Inl \<lparr>kind = kind source_error,
                    message = ''deferred link target was not materialized: '' @ render_path source\<rparr>
           | Inr _ \<Rightarrow> scan_links h dests rest counts dependents))"

fun release :: "nat list \<Rightarrow> nat list \<Rightarrow> nat list \<Rightarrow> (nat list \<times> nat list) option" where
  "release [] counts ready = Some (counts, ready)"
| "release (dependent # rest) counts ready =
     (if dependent < length counts \<and> counts ! dependent \<noteq> 0
      then let count = counts ! dependent - 1
           in release rest (counts[dependent := count]) (if count = 0 then ready @ [dependent] else ready)
      else None)"

lemma release_measure:
  "release ds counts ready = Some (counts', ready') \<Longrightarrow>
     length ready' + sum_list counts' \<le> length ready + sum_list counts"
proof (induction ds counts ready rule: release.induct)
  case (2 d rest counts ready)
  let ?c = "counts ! d - 1"
  have d: "d < length counts" "counts ! d \<noteq> 0" using "2.prems" by (auto split: if_splits)
  then have rel: "release rest (counts[d := ?c]) (if ?c = 0 then ready @ [d] else ready) = Some (counts', ready')"
    using "2.prems" by (simp add: Let_def)
  have "sum_list (counts[d := ?c]) = sum_list counts - 1"
    using d elem_le_sum_list [OF d(1)] by (simp add: sum_list_update)
  moreover have "0 < sum_list counts" using d elem_le_sum_list [OF d(1)] by simp
  ultimately show ?case using "2.IH" [OF _ refl rel] d by (simp split: if_splits)
qed simp

function drain :: "nat list list \<Rightarrow> nat list \<Rightarrow> nat list \<Rightarrow> nat list \<Rightarrow> nat list option" where
  "drain dependents counts [] order = Some order"
| "drain dependents counts (index # ready) order =
     (if index < length dependents
      then (case release (dependents ! index) counts ready of
              None \<Rightarrow> None
            | Some (counts', ready') \<Rightarrow> drain dependents counts' ready' (order @ [index]))
      else None)"
  by pat_completeness auto
termination
proof (relation "measure (\<lambda>(dependents, counts, ready, order). length ready + sum_list counts)")
  fix dependents counts index ready order x counts' ready'
  assume "release (dependents ! index) counts ready = Some x" "(counts', ready') = x"
  then show "((dependents, counts', ready', order @ [index]), dependents, counts, index # ready, order)
      \<in> measure (\<lambda>(dependents, counts, ready, order). length ready + sum_list counts)"
    using release_measure [of "dependents ! index" counts ready counts' ready'] by simp
qed simp

definition dependency_cycle :: io_error where
  "dependency_cycle = \<lparr>kind = InvalidData, message = ''deferred link dependency cycle''\<rparr>"

definition deferred_link_dependency_order :: "host \<Rightarrow> links \<Rightarrow> (io_error, nat list) result option" where
  "deferred_link_dependency_order h links =
     (let n = length links in
      case scan_links h (destinations links) (enumerate 0 links) (replicate n 0) (replicate n []) of
        Inl e \<Rightarrow> Some (Inl e)
      | Inr (counts, dependents) \<Rightarrow>
          (case drain dependents counts (map fst (filter (\<lambda>(index, count). count = 0) (enumerate 0 counts))) [] of
             None \<Rightarrow> None
           | Some order \<Rightarrow> Some (if length order \<noteq> n then Inl dependency_cycle else Inr order)))"

section \<open>Dependencies\<close>

text \<open>What a link waits for: the last deferred link whose destination is its source.\<close>

definition dependency :: "links \<Rightarrow> nat \<Rightarrow> nat option" where
  "dependency links i = destinations links (fst (links ! i))"

lemma destinations_range:
  assumes "destinations links p = Some j"
  shows "j < length links" "snd (links ! j) = p"
proof -
  from assms have "(p, j) \<in> set (map (\<lambda>(index, link). (snd link, index)) (enumerate 0 links))"
    unfolding destinations_def by (metis map_of_SomeD set_rev)
  then show "j < length links" "snd (links ! j) = p" by (auto simp: in_set_enumerate_eq)
qed

lemma destinations_None: "destinations links p = None \<longleftrightarrow> p \<notin> snd ` set links"
proof -
  have "map fst (map (\<lambda>(index, link). (snd link, index)) (enumerate 0 links)) = map snd (map snd (enumerate 0 links))"
    unfolding map_map by (rule map_cong) auto
  then have "map fst (map (\<lambda>(index, link). (snd link, index)) (enumerate 0 links)) = map snd links"
    unfolding map_snd_enumerate .
  then have "fst ` set (map (\<lambda>(index, link). (snd link, index)) (enumerate 0 links)) = snd ` set links"
    by (metis list.set_map)
  then show ?thesis unfolding destinations_def map_of_eq_None_iff set_rev by simp
qed

lemma dependency_range: "dependency links i = Some j \<Longrightarrow> j < length links"
  unfolding dependency_def by (rule destinations_range(1))

definition source_missing :: "host \<Rightarrow> links \<Rightarrow> nat \<Rightarrow> bool" where
  "source_missing h links i \<longleftrightarrow>
     dependency links i = None \<and> (case symlink_metadata h (fst (links ! i)) of Inl _ \<Rightarrow> True | Inr _ \<Rightarrow> False)"

lemma scan_links_Inl:
  "scan_links h dests xs counts dependents = Inl e \<Longrightarrow>
     \<exists>(i, s, d) \<in> set xs. dests s = None \<and> (\<exists>e0. symlink_metadata h s = Inl e0 \<and> kind e = kind e0)"
  by (induction h dests xs counts dependents rule: scan_links.induct)
    (fastforce split: option.splits sum.splits)+

lemma scan_links_Inr:
  assumes "scan_links h dests xs counts dependents = Inr (counts', dependents')"
    and "\<forall>(i, s, d) \<in> set xs. i < length counts \<and> (\<forall>j. dests s = Some j \<longrightarrow> j < length dependents)"
  shows "length counts' = length counts" "length dependents' = length dependents"
    "\<forall>(i, s, d) \<in> set xs. dests s = None \<longrightarrow> (\<exists>m. symlink_metadata h s = Inr m)"
    "\<And>i. i < length counts \<Longrightarrow>
       counts' ! i = (if \<exists>s d. (i, s, d) \<in> set xs \<and> dests s \<noteq> None then 1 else counts ! i)"
    "\<And>j. j < length dependents \<Longrightarrow>
       dependents' ! j = dependents ! j @ map fst (filter (\<lambda>(i, s, d). dests s = Some j) xs)"
  using assms
proof (induction h dests xs counts dependents rule: scan_links.induct)
  case (2 h dests index source dest rest counts dependents)
  {
    case 1 then show ?case using "2.IH" by (auto split: option.splits sum.splits)
  next
    case 2 then show ?case using "2.IH" by (auto split: option.splits sum.splits)
  next
    case 3 then show ?case using "2.IH" by (auto split: option.splits sum.splits)
  next
    case 4 then show ?case using "2.IH" by (auto simp: nth_list_update split: option.splits sum.splits if_splits)
  next
    case 5 then show ?case using "2.IH" by (auto simp: nth_list_update split: option.splits sum.splits if_splits)
  }
qed auto


lemma filter_enumerate:
  "map fst (filter (\<lambda>(i, x). P i x) (enumerate 0 xs)) = filter (\<lambda>i. P i (xs ! i)) [0 ..< length xs]"
proof (induction xs rule: rev_induct)
  case (snoc x xs)
  have "filter (\<lambda>i. P i ((xs @ [x]) ! i)) [0 ..< length xs] = filter (\<lambda>i. P i (xs ! i)) [0 ..< length xs]"
    by (rule filter_cong) (auto simp: nth_append)
  then show ?case using snoc by (simp add: enumerate_append_eq)
qed simp

text \<open>The state of the loop: \<open>waiting\<close> counts the links whose dependency is not yet ordered.\<close>

definition dependents_of :: "links \<Rightarrow> nat \<Rightarrow> nat list" where
  "dependents_of links j = filter (\<lambda>i. dependency links i = Some j) [0 ..< length links]"

definition waiting :: "links \<Rightarrow> nat list \<Rightarrow> nat \<Rightarrow> nat" where
  "waiting links order i =
     (case dependency links i of None \<Rightarrow> 0 | Some j \<Rightarrow> if j \<in> set order then 0 else 1)"

definition counts_of :: "links \<Rightarrow> nat list \<Rightarrow> nat list" where
  "counts_of links order = map (waiting links order) [0 ..< length links]"

lemma scan_links_start:
  assumes "scan_links h (destinations links) (enumerate 0 links) (replicate n 0) (replicate n []) = Inr (counts, dependents)"
    and "n = length links"
  shows "counts = counts_of links []" "dependents = map (dependents_of links) [0 ..< n]"
    "\<forall>i < n. \<not> source_missing h links i"
proof -
  have pre: "\<forall>(i, s, d) \<in> set (enumerate 0 links). i < length (replicate n (0::nat)) \<and>
      (\<forall>j. destinations links s = Some j \<longrightarrow> j < length (replicate n ([]::nat list)))"
    using destinations_range(1) assms(2) by (fastforce simp: in_set_enumerate_eq)
  note scan = scan_links_Inr [OF assms(1) pre]
  have mem: "(i, s, d) \<in> set (enumerate 0 links) \<longleftrightarrow> i < n \<and> links ! i = (s, d)" for i s d
    using assms(2) by (auto simp: in_set_enumerate_eq)
  show "counts = counts_of links []"
  proof (rule nth_equalityI)
    fix i assume "i < length counts"
    then have i: "i < n" using scan(1) by simp
    then show "counts ! i = counts_of links [] ! i"
      using scan(4) [of i] assms(2)
      by (cases "links ! i") (auto simp: mem counts_of_def waiting_def dependency_def split: option.splits)
  qed (use scan(1) assms(2) in \<open>simp add: counts_of_def\<close>)
  show "dependents = map (dependents_of links) [0 ..< n]"
  proof (rule nth_equalityI)
    fix j assume "j < length dependents"
    then have j: "j < n" using scan(2) by simp
    have "map fst (filter (\<lambda>(i, s, d). destinations links s = Some j) (enumerate 0 links)) = dependents_of links j"
    proof -
      have eq: "(\<lambda>(i :: nat, s, d). destinations links s = Some j) = (\<lambda>(i, x). destinations links (fst x) = Some j)"
        by (auto simp: fun_eq_iff)
      show ?thesis unfolding eq
        using filter_enumerate [of "\<lambda>i x. destinations links (fst x) = Some j" links]
        by (simp add: dependents_of_def dependency_def)
    qed
    then show "dependents ! j = map (dependents_of links) [0 ..< n] ! j" using scan(5) [of j] j by simp
  qed (use scan(2) in simp)
  show "\<forall>i < n. \<not> source_missing h links i"
  proof (intro allI impI)
    fix i assume "i < n"
    then have "(i, fst (links ! i), snd (links ! i)) \<in> set (enumerate 0 links)"
      using assms(2) by (simp add: in_set_enumerate_eq)
    then have "destinations links (fst (links ! i)) = None \<longrightarrow> (\<exists>m. symlink_metadata h (fst (links ! i)) = Inr m)"
      using scan(3) by blast
    then show "\<not> source_missing h links i" by (auto simp: source_missing_def dependency_def)
  qed
qed

lemma release_all:
  assumes "distinct ds" "\<forall>d \<in> set ds. d < length counts \<and> counts ! d = 1"
  shows "\<exists>counts'. release ds counts ready = Some (counts', ready @ ds) \<and> length counts' = length counts \<and>
           (\<forall>i < length counts. counts' ! i = (if i \<in> set ds then 0 else counts ! i))"
  using assms
proof (induction ds arbitrary: counts ready)
  case (Cons d ds)
  have "\<exists>counts'. release ds (counts[d := 0]) (ready @ [d]) = Some (counts', (ready @ [d]) @ ds) \<and>
      length counts' = length (counts[d := 0]) \<and>
      (\<forall>i < length (counts[d := 0]). counts' ! i = (if i \<in> set ds then 0 else counts[d := 0] ! i))"
    using Cons.prems by (intro Cons.IH) (auto simp: nth_list_update)
  then show ?case using Cons.prems by (fastforce simp: nth_list_update)
qed auto

lemma dependents_of_distinct [simp]: "distinct (dependents_of links j)"
  by (simp add: dependents_of_def)

lemma dependents_of_member: "i \<in> set (dependents_of links j) \<longleftrightarrow> i < length links \<and> dependency links i = Some j"
  by (auto simp: dependents_of_def)

lemma release_step:
  assumes "x \<notin> set order"
  shows "release (dependents_of links x) (counts_of links order) ready =
           Some (counts_of links (order @ [x]), ready @ dependents_of links x)"
proof -
  let ?ds = "dependents_of links x"
  have "\<forall>d \<in> set ?ds. d < length (counts_of links order) \<and> counts_of links order ! d = 1"
    using assms by (auto simp: dependents_of_member counts_of_def waiting_def)
  from release_all [OF dependents_of_distinct this, of ready] obtain counts' where
    c: "release ?ds (counts_of links order) ready = Some (counts', ready @ ?ds)"
      "length counts' = length links"
      "\<And>i. i < length links \<Longrightarrow> counts' ! i = (if i \<in> set ?ds then 0 else counts_of links order ! i)"
    by (auto simp: counts_of_def)
  have "counts' = counts_of links (order @ [x])"
    using c(2,3) by (intro nth_equalityI) (auto simp: counts_of_def waiting_def dependents_of_member split: option.splits)
  then show ?thesis using c(1) by simp
qed


definition deps_first :: "links \<Rightarrow> nat list \<Rightarrow> bool" where
  "deps_first links order \<longleftrightarrow>
     (\<forall>k < length order. case dependency links (order ! k) of None \<Rightarrow> True | Some j \<Rightarrow> j \<in> set (take k order))"

definition drain_inv :: "links \<Rightarrow> nat list \<Rightarrow> nat list \<Rightarrow> bool" where
  "drain_inv links order ready \<longleftrightarrow>
     distinct (order @ ready) \<and> deps_first links order \<and>
     (\<forall>i. i \<in> set (order @ ready) \<longleftrightarrow> i < length links \<and> waiting links order i = 0)"

lemma deps_first_snoc:
  "deps_first links (order @ [x]) \<longleftrightarrow>
     deps_first links order \<and> (case dependency links x of None \<Rightarrow> True | Some j \<Rightarrow> j \<in> set order)"
  by (auto simp: deps_first_def less_Suc_eq nth_append split: option.splits)

lemma drain_inv_step:
  assumes "drain_inv links order (x # ready)"
  shows "drain_inv links (order @ [x]) (ready @ dependents_of links x)"
proof -
  from assms have d: "distinct (order @ x # ready)" and res: "deps_first links order"
    and mem: "\<And>i. i \<in> set (order @ x # ready) \<longleftrightarrow> i < length links \<and> waiting links order i = 0"
    by (simp_all add: drain_inv_def)
  have x: "x < length links" "waiting links order x = 0" "x \<notin> set order" using mem [of x] d by auto
  have dep: "waiting links order i = 1" if "i \<in> set (dependents_of links x)" for i
    using that x(3) by (simp add: dependents_of_member waiting_def)
  have "distinct ((order @ [x]) @ ready @ dependents_of links x)"
    using d dep mem by fastforce
  moreover have "deps_first links (order @ [x])"
    using res x(2) by (auto simp: deps_first_snoc waiting_def split: option.splits if_splits)
  moreover have "i \<in> set ((order @ [x]) @ ready @ dependents_of links x) \<longleftrightarrow>
      i < length links \<and> waiting links (order @ [x]) i = 0" for i
    using mem [of i] by (auto simp: dependents_of_member waiting_def split: option.splits if_splits)
  ultimately show ?thesis by (simp add: drain_inv_def)
qed

lemma drain_total:
  assumes "drain_inv links order ready" "dependents = map (dependents_of links) [0 ..< length links]"
    and "counts = counts_of links order"
  shows "\<exists>order'. drain dependents counts ready order = Some order' \<and> drain_inv links order' []"
  using assms
proof (induction dependents counts ready order rule: drain.induct)
  case (2 dependents counts x ready order)
  have x: "x < length links" "x \<notin> set order" using "2.prems"(1) by (auto simp: drain_inv_def)
  then have deps: "x < length dependents" "dependents ! x = dependents_of links x" using "2.prems"(2) by simp_all
  have rel: "release (dependents ! x) counts ready = Some (counts_of links (order @ [x]), ready @ dependents_of links x)"
    unfolding deps(2) "2.prems"(3) by (rule release_step [OF x(2)])
  from "2.IH" [OF deps(1) rel refl drain_inv_step [OF "2.prems"(1)] "2.prems"(2) refl]
  show ?case using rel deps(1) by simp
qed simp

text \<open>A chain of dependencies that ends.\<close>

inductive resolvable :: "links \<Rightarrow> nat \<Rightarrow> bool" for links where
  free: "dependency links i = None \<Longrightarrow> resolvable links i"
| after: "dependency links i = Some j \<Longrightarrow> resolvable links j \<Longrightarrow> resolvable links i"

inductive_cases resolvableE: "resolvable links i"

lemma drained_iff_resolvable:
  assumes "drain_inv links order []" "i < length links"
  shows "i \<in> set order \<longleftrightarrow> resolvable links i"
proof
  have mem: "\<And>i. i \<in> set order \<longleftrightarrow> i < length links \<and> waiting links order i = 0" and res: "deps_first links order"
    using assms(1) by (auto simp: drain_inv_def)
  show "i \<in> set order" if "resolvable links i"
    using that assms(2)
  proof (induction rule: resolvable.induct)
    case (free i)
    then show ?case using mem by (simp add: waiting_def)
  next
    case (after i j)
    then have "j \<in> set order" using dependency_range by blast
    then show ?case using after mem by (simp add: waiting_def)
  qed
  have "resolvable links (order ! k)" if "k < length order" for k
    using that
  proof (induction k rule: less_induct)
    case (less k)
    show ?case
    proof (cases "dependency links (order ! k)")
      case None
      then show ?thesis by (rule resolvable.free)
    next
      case (Some j)
      then obtain m where "m < k" "j = order ! m"
        using res less.prems by (force simp: deps_first_def in_set_conv_nth)
      then show ?thesis using less.IH [of m] less.prems Some by (auto intro: resolvable.after)
    qed
  qed
  then show "i \<in> set order \<Longrightarrow> resolvable links i" by (auto simp: in_set_conv_nth)
qed


section \<open>Correctness\<close>

lemma initial_ready:
  "drain_inv links [] (map fst (filter (\<lambda>(index, count). count = 0) (enumerate 0 (counts_of links []))))"
proof -
  let ?ready = "map fst (filter (\<lambda>(index, count). count = 0) (enumerate 0 (counts_of links [])))"
  have "?ready = filter (\<lambda>i. counts_of links [] ! i = 0) [0 ..< length links]"
    using filter_enumerate [of "\<lambda>i c. c = 0" "counts_of links []"] by (simp add: counts_of_def)
  then show ?thesis by (auto simp: drain_inv_def deps_first_def counts_of_def)
qed

lemma dependency_order_outcome:
  "case deferred_link_dependency_order h links of
     None \<Rightarrow> False
   | Some (Inr order) \<Rightarrow>
       distinct order \<and> set order = {0 ..< length links} \<and> deps_first links order \<and>
       list_all (\<lambda>i. resolvable links i \<and> \<not> source_missing h links i) [0 ..< length links]
   | Some (Inl e) \<Rightarrow>
       list_ex (\<lambda>i. source_missing h links i \<and> (\<exists>e0. symlink_metadata h (fst (links ! i)) = Inl e0 \<and> kind e = kind e0))
         [0 ..< length links] \<or>
       e = dependency_cycle \<and> list_ex (\<lambda>i. \<not> resolvable links i) [0 ..< length links]"
proof (cases "scan_links h (destinations links) (enumerate 0 links) (replicate (length links) 0) (replicate (length links) [])")
  case (Inl e)
  then obtain i where i: "i < length links" "destinations links (fst (links ! i)) = None"
    "\<exists>e0. symlink_metadata h (fst (links ! i)) = Inl e0 \<and> kind e = kind e0"
    using scan_links_Inl [OF Inl] by (auto simp: in_set_enumerate_eq)
  then have "source_missing h links i" by (auto simp: source_missing_def dependency_def)
  then show ?thesis using i Inl
    by (auto simp: deferred_link_dependency_order_def list_ex_iff intro!: bexI [of _ i])
next
  case (Inr x)
  then obtain counts dependents where x: "x = (counts, dependents)" by (cases x)
  note start = scan_links_start [OF Inr [unfolded x] refl]
  obtain order where order: "drain dependents counts (map fst (filter (\<lambda>(index, count). count = 0) (enumerate 0 counts))) [] = Some order"
    "drain_inv links order []"
    using drain_total [OF initial_ready start(2) start(1), folded start(1)] by (elim exE conjE)
  have o: "distinct order" "deps_first links order" "set order \<subseteq> {0 ..< length links}"
    using order(2) unfolding drain_inv_def append_Nil2 by (blast, blast, fastforce)
  have res: "i \<in> set order \<longleftrightarrow> resolvable links i" if "i < length links" for i
    by (rule drained_iff_resolvable [OF order(2) that])
  have full: "length order = length links \<longleftrightarrow> set order = {0 ..< length links}"
  proof
    assume "length order = length links"
    then have "card (set order) = card {0 ..< length links}" using distinct_card [OF o(1)] by simp
    then show "set order = {0 ..< length links}" by (intro card_subset_eq [OF _ o(3)]) simp
  next
    assume "set order = {0 ..< length links}"
    then show "length order = length links" using distinct_card [OF o(1)] by simp
  qed
  show ?thesis
    using order(1) o(1,2) full res start(3) Inr o(3)
    by (auto simp: deferred_link_dependency_order_def x list_all_iff list_ex_iff)
qed

text \<open>
  C12. Ordering deferred links.  The loop ends without a panic.  On success the result is a
  permutation of all links in which every link comes after the one it depends on, every chain
  of dependencies ends, and every source outside the deferred set exists; a missing source is
  reported with the kind of its probe error; and otherwise an error means that the
  dependencies of some link never end, that is, a cycle.
\<close>

theorem deferred_link_dependency_order_correct:
  "case deferred_link_dependency_order h links of
     None \<Rightarrow> False
   | Some (Inr order) \<Rightarrow>
       distinct order \<and> set order = {0 ..< length links} \<and> deps_first links order \<and>
       list_all (\<lambda>i. resolvable links i \<and> \<not> source_missing h links i) [0 ..< length links]
   | Some (Inl e) \<Rightarrow>
       list_ex (\<lambda>i. source_missing h links i \<and> (\<exists>e0. symlink_metadata h (fst (links ! i)) = Inl e0 \<and> kind e = kind e0))
         [0 ..< length links] \<or>
       e = dependency_cycle \<and> list_ex (\<lambda>i. \<not> resolvable links i) [0 ..< length links]"
  by (rule dependency_order_outcome)

end
