(* ===== verification/Byte_Reader.thy ===== *)
theory Byte_Reader
  imports Host_FS
begin

text \<open>
  The contract of \<open>std::io::Read\<close> as the readers of the code base implement it, and an open
  file.  A reader's \<open>read n\<close> stands for \<open>read(&mut buffer[..n])\<close> and returns the bytes it put
  into the buffer.  A file handle has contents, a cursor and the operating system's choices:
  how many bytes a read at an offset returns (short reads are allowed) or the error it fails
  with, and whether a seek succeeds.
\<close>

type_synonym bytes = "u8 list"

section \<open>Files\<close>

record file_handle =
  contents :: bytes
  cursor :: nat
  os_read :: "nat \<Rightarrow> nat \<Rightarrow> (io_error, nat) result"
  os_seek :: "nat \<Rightarrow> (io_error, unit) result"

definition file_read :: "nat \<Rightarrow> file_handle \<Rightarrow> (io_error, bytes) result \<times> file_handle" where
  "file_read n f =
     (case os_read f (cursor f) n of
        Inl e \<Rightarrow> (Inl e, f)
      | Inr k \<Rightarrow>
          let data = take (min k n) (drop (cursor f) (contents f))
          in (Inr data, f\<lparr>cursor := cursor f + length data\<rparr>))"

definition file_seek :: "nat \<Rightarrow> file_handle \<Rightarrow> (io_error, unit) result \<times> file_handle" where
  "file_seek offset f =
     (case os_seek f offset of Inl e \<Rightarrow> (Inl e, f) | Inr _ \<Rightarrow> (Inr (), f\<lparr>cursor := offset\<rparr>))"

text \<open>A file just opened, whose reads return all that is asked for.\<close>

definition plain_file :: "bytes \<Rightarrow> file_handle" where
  "plain_file bs = \<lparr>contents = bs, cursor = 0, os_read = (\<lambda>_ n. Inr n), os_seek = (\<lambda>_. Inr ())\<rparr>"

lemma file_read_Inr:
  assumes "file_read n f = (Inr data, g)"
  shows "data = take (length data) (drop (cursor f) (contents f))" "length data \<le> n"
    "g = f\<lparr>cursor := cursor f + length data\<rparr>"
proof -
  obtain k where k: "data = take k (drop (cursor f) (contents f))" "k \<le> n" "g = f\<lparr>cursor := cursor f + length data\<rparr>"
    using assms by (auto simp: file_read_def Let_def split: sum.splits)
  show "data = take (length data) (drop (cursor f) (contents f))" unfolding k(1) by (rule take_length_take)
  show "length data \<le> n" using k(1,2) by simp
  show "g = f\<lparr>cursor := cursor f + length data\<rparr>" by (rule k(3))
qed

lemma file_read_Inl: "file_read n f = (Inl e, g) \<Longrightarrow> g = f"
  by (auto simp: file_read_def Let_def split: sum.splits)

lemma file_seek_state:
  "file_seek offset f = (r, g) \<Longrightarrow> g = f\<lparr>cursor := (case r of Inl _ \<Rightarrow> cursor f | Inr _ \<Rightarrow> offset)\<rparr>"
  by (auto simp: file_seek_def split: sum.splits)

section \<open>The contract\<close>

text \<open>
  \<open>rest s\<close> is what the reader still has to deliver.  A read that succeeds delivers a prefix of
  it, and delivers nothing only when nothing was asked for or nothing is left; the invariant
  survives failures too.  \<open>read_fully\<close> is the client loop: read chunk after chunk until a read
  returns no bytes.
\<close>

fun read_fully ::
  "(nat \<Rightarrow> 's \<Rightarrow> (io_error, bytes) result \<times> 's) \<Rightarrow> nat \<Rightarrow> nat \<Rightarrow> 's \<Rightarrow> ((io_error, bytes) result \<times> 's) option" where
  "read_fully rd chunk 0 s = None"
| "read_fully rd chunk (Suc fuel) s =
     (case rd chunk s of
        (Inl e, t) \<Rightarrow> Some (Inl e, t)
      | (Inr bs, t) \<Rightarrow>
          if bs = [] then Some (Inr [], t)
          else (case read_fully rd chunk fuel t of
                  None \<Rightarrow> None
                | Some (Inl e, u) \<Rightarrow> Some (Inl e, u)
                | Some (Inr cs, u) \<Rightarrow> Some (Inr (bs @ cs), u)))"

locale byte_reader =
  fixes read :: "nat \<Rightarrow> 's \<Rightarrow> (io_error, bytes) result \<times> 's"
    and inv :: "'s \<Rightarrow> bool"
    and rest :: "'s \<Rightarrow> bytes"
  assumes read_ok: "\<lbrakk>inv s; read n s = (Inr bs, t)\<rbrakk> \<Longrightarrow>
      inv t \<and> rest s = bs @ rest t \<and> length bs \<le> n \<and> (bs = [] \<longrightarrow> n = 0 \<or> rest s = [])"
    and read_err: "\<lbrakk>inv s; read n s = (Inl e, t)\<rbrakk> \<Longrightarrow> inv t"
begin

lemma read_fully_ok:
  "\<lbrakk>inv s; 0 < chunk; read_fully read chunk fuel s = Some (Inr bs, t)\<rbrakk> \<Longrightarrow> bs = rest s \<and> inv t"
proof (induction fuel arbitrary: s bs)
  case (Suc fuel)
  obtain r u where r: "read chunk s = (r, u)" by (cases "read chunk s")
  from Suc.prems(3) r obtain xs where xs: "r = Inr xs" by (cases r) auto
  note ok = read_ok [OF Suc.prems(1) r [unfolded xs]]
  show ?case
  proof (cases "xs = []")
    case True
    then show ?thesis using Suc.prems r xs ok by auto
  next
    case False
    then obtain ys where ys: "read_fully read chunk fuel u = Some (Inr ys, t)" "bs = xs @ ys"
      using Suc.prems(3) r xs by (auto split: option.splits sum.splits prod.splits)
    then show ?thesis using Suc.IH [OF _ Suc.prems(2) ys(1)] ok by simp
  qed
qed simp

lemma read_fully_returns:
  "\<lbrakk>inv s; 0 < chunk; length (rest s) < fuel\<rbrakk> \<Longrightarrow> \<exists>r. read_fully read chunk fuel s = Some r"
proof (induction fuel arbitrary: s)
  case (Suc fuel)
  obtain r u where r: "read chunk s = (r, u)" by (cases "read chunk s")
  show ?case
  proof (cases r)
    case (Inl e)
    then show ?thesis using r by simp
  next
    case (Inr xs)
    note ok = read_ok [OF Suc.prems(1) r [unfolded Inr]]
    show ?thesis
    proof (cases "xs = []")
      case False
      then have "length (rest u) < fuel" using ok Suc.prems(3) by (cases xs) auto
      then obtain x where "read_fully read chunk fuel u = Some x" using Suc.IH [of u] ok Suc.prems(2) by blast
      then show ?thesis using r Inr by (auto split: sum.splits prod.splits)
    qed (simp add: r Inr)
  qed
qed simp

end


text \<open>A reader that never fails delivers everything to the client loop.\<close>

locale total_reader = byte_reader +
  assumes read_total: "inv s \<Longrightarrow> \<exists>bs t. read n s = (Inr bs, t)"
begin

lemma read_fully_all:
  "\<lbrakk>inv s; 0 < chunk; length (rest s) < fuel\<rbrakk> \<Longrightarrow> \<exists>t. read_fully read chunk fuel s = Some (Inr (rest s), t)"
proof (induction fuel arbitrary: s)
  case (Suc fuel)
  obtain xs u where r: "read chunk s = (Inr xs, u)" using read_total [OF Suc.prems(1)] by blast
  note ok = read_ok [OF Suc.prems(1) r]
  show ?case
  proof (cases "xs = []")
    case True
    then show ?thesis using r ok Suc.prems(2) by auto
  next
    case False
    then have "length (rest u) < fuel" using ok Suc.prems(3) by (cases xs) auto
    then obtain v where "read_fully read chunk fuel u = Some (Inr (rest u), v)" using Suc.IH [of u] ok Suc.prems(2) by blast
    then show ?thesis using r ok False by simp
  qed
qed simp

end

text \<open>An open file whose reads succeed and are empty only at the end.\<close>

definition always_reads :: "file_handle \<Rightarrow> bool" where
  "always_reads f \<longleftrightarrow> (\<forall>offset n. \<exists>k. os_read f offset n = Inr k \<and> (0 < n \<longrightarrow> 0 < k))"

lemma always_reads_cursor [simp]: "always_reads (f\<lparr>cursor := c\<rparr>) = always_reads f"
  by (simp add: always_reads_def)

lemma plain_file_always_reads: "always_reads (plain_file bs)"
  by (simp add: always_reads_def plain_file_def)

interpretation reliable_files: total_reader file_read always_reads "\<lambda>f. drop (cursor f) (contents f)"
proof
  fix f n bs g assume f: "always_reads f" and r: "file_read n f = (Inr bs, g)"
  obtain k where k: "os_read f (cursor f) n = Inr k" "0 < n \<longrightarrow> 0 < k" using f by (auto simp: always_reads_def)
  have bs: "bs = take (min k n) (drop (cursor f) (contents f))" using r k(1) by (simp add: file_read_def Let_def)
  have g: "g = f\<lparr>cursor := cursor f + length bs\<rparr>" by (rule file_read_Inr(3) [OF r])
  have "drop (cursor f) (contents f) = bs @ drop (cursor g) (contents g)"
    using file_read_Inr(1) [OF r] by (simp add: g add.commute) (metis append_take_drop_id drop_drop add.commute)
  then show "always_reads g \<and> drop (cursor f) (contents f) = bs @ drop (cursor g) (contents g) \<and> length bs \<le> n \<and>
      (bs = [] \<longrightarrow> n = 0 \<or> drop (cursor f) (contents f) = [])"
    using f k(2) file_read_Inr(2) [OF r] bs by (auto simp: g min_def split: if_splits)
next
  fix f n e g assume "always_reads f" "file_read n f = (Inl e, g)"
  then show "always_reads g" using file_read_Inl by metis
next
  fix f n assume "always_reads f"
  then obtain k where "os_read f (cursor f) n = Inr k" by (auto simp: always_reads_def)
  then show "\<exists>bs g. file_read n f = (Inr bs, g)" by (simp add: file_read_def Let_def)
qed

end
