(* ===== verification/Segmented_Reader.thy ===== *)
theory Segmented_Reader
  imports Byte_Reader
begin

text \<open>
  The ordered-volume byte source of \<open>crates/zmanager-core/src/segmented_reader.rs\<close>: opening a
  list of part files, finding the part at a position, reading across part boundaries and
  seeking.  \<open>u64\<close> quantities are naturals with each checked or saturating operation written
  out; \<open>usize\<close> is 64 bits wide.  The cached \<open>file_position\<close> of a part is kept apart from the
  cursor of its file, since the code seeks only when the two-step arithmetic says it must.
\<close>

section \<open>The reader\<close>

record segment =
  seg_path :: path
  seg_file :: file_handle
  seg_start :: nat
  seg_len :: nat
  file_position :: nat

record segmented_reader =
  parts :: "segment list"
  total_len :: nat
  position :: nat

definition seg_error :: "error_kind \<Rightarrow> string \<Rightarrow> io_error" where
  "seg_error k m = \<lparr>kind = k, message = m\<rparr>"

definition checked_add_u64 :: "nat \<Rightarrow> nat \<Rightarrow> nat option" where
  "checked_add_u64 a b = (if a + b < 2 ^ 64 then Some (a + b) else None)"

definition saturating_add_u64 :: "nat \<Rightarrow> nat \<Rightarrow> nat" where
  "saturating_add_u64 a b = min (a + b) (2 ^ 64 - 1)"

lemma checked_add_u64_code [code]:
  "checked_add_u64 a b = (if int a + int b < 18446744073709551616 then Some (a + b) else None)"
  by (simp add: checked_add_u64_def)

lemma saturating_add_u64_code [code]:
  "saturating_add_u64 a b = (if int a + int b < 18446744073709551615 then a + b else nat 18446744073709551615)"
  by (simp add: saturating_add_u64_def min_def)

text \<open>Opening: \<open>open_file\<close> is \<open>File::open\<close>, with the length its metadata reports.\<close>

fun open_parts ::
  "(path \<Rightarrow> (io_error, file_handle \<times> nat) result) \<Rightarrow> path list \<Rightarrow> segment list \<Rightarrow> nat
     \<Rightarrow> (io_error, segment list \<times> nat) result" where
  "open_parts open_file [] ps acc = Inr (ps, acc)"
| "open_parts open_file (p # paths) ps acc =
     and_then (open_file p) (\<lambda>(f, len).
       if len = 0 then Inl (seg_error InvalidData (''segmented source part is empty: '' @ render_path p))
       else case checked_add_u64 acc len of
              None \<Rightarrow> Inl (seg_error InvalidInput ''segmented source length overflow'')
            | Some acc' \<Rightarrow>
                open_parts open_file paths
                  (ps @ [\<lparr>seg_path = p, seg_file = f, seg_start = acc, seg_len = len, file_position = 0\<rparr>]) acc')"

definition seg_open ::
  "(path \<Rightarrow> (io_error, file_handle \<times> nat) result) \<Rightarrow> path list \<Rightarrow> (io_error, segmented_reader) result" where
  "seg_open open_file paths =
     (if paths = [] then Inl (seg_error InvalidInput ''segmented source has no parts'')
      else and_then (open_parts open_file paths [] 0) (\<lambda>(ps, len).
        Inr \<lparr>parts = ps, total_len = len, position = 0\<rparr>))"

definition part_layout :: "segmented_reader \<Rightarrow> (nat \<times> nat) list" where
  "part_layout self = map (\<lambda>part. (seg_start part, seg_len part)) (parts self)"

text \<open>\<open>partition_point\<close> on a list whose matching elements come first is their number.\<close>

definition current_part_index :: "segmented_reader \<Rightarrow> nat option" where
  "current_part_index self =
     (let point = length (takeWhile (\<lambda>part. seg_start part \<le> position self) (parts self)) in
      if point = 0 then None
      else let index = point - 1; part = parts self ! index in
           if position self < saturating_add_u64 (seg_start part) (seg_len part) then Some index else None)"

text \<open>One turn of the read loop: the bytes read into a buffer of \<open>n\<close> bytes, at least one.\<close>

definition sync_cursor :: "nat \<Rightarrow> segment \<Rightarrow> (io_error, unit) result \<times> segment" where
  "sync_cursor offset part =
     (if file_position part \<noteq> offset
      then (case file_seek offset (seg_file part) of
              (Inl e, f) \<Rightarrow> (Inl e, part\<lparr>seg_file := f\<rparr>)
            | (Inr _, f) \<Rightarrow> (Inr (), part\<lparr>seg_file := f, file_position := offset\<rparr>))
      else (Inr (), part))"

definition read_part :: "nat \<Rightarrow> nat \<Rightarrow> segmented_reader \<Rightarrow> (io_error, bytes) result \<times> segmented_reader" where
  "read_part n index self =
     (let part0 = parts self ! index;
          offset = position self - seg_start part0;
          remaining = min (seg_len part0 - offset) n
      in case sync_cursor offset part0 of
           (Inl e, part) \<Rightarrow> (Inl e, self\<lparr>parts := (parts self)[index := part]\<rparr>)
         | (Inr _, part) \<Rightarrow>
             (case file_read remaining (seg_file part) of
                (Inl e, f) \<Rightarrow> (Inl e, self\<lparr>parts := (parts self)[index := part\<lparr>seg_file := f\<rparr>]\<rparr>)
              | (Inr data, f) \<Rightarrow>
                  let part = part\<lparr>seg_file := f\<rparr>; self = self\<lparr>parts := (parts self)[index := part]\<rparr> in
                  if data = []
                  then (Inl (seg_error UnexpectedEof (''unexpected EOF in '' @ render_path (seg_path part))), self)
                  else case checked_add_u64 (position self) (length data) of
                         None \<Rightarrow> (Inl (seg_error InvalidInput ''segmented position overflow''), self)
                       | Some position' \<Rightarrow>
                           (case checked_add_u64 (file_position part) (length data) of
                              None \<Rightarrow> (Inl (seg_error InvalidInput ''segmented part position overflow''),
                                       self\<lparr>position := position'\<rparr>)
                            | Some file_position' \<Rightarrow>
                                (Inr data, self\<lparr>parts := (parts self)[index := part\<lparr>file_position := file_position'\<rparr>],
                                                position := position'\<rparr>))))"

lemma read_part_length: "read_part n index self = (Inr data, t) \<Longrightarrow> data \<noteq> [] \<and> length data \<le> n"
  by (auto simp: read_part_def Let_def split: prod.splits sum.splits option.splits if_splits dest!: file_read_Inr(2))

function read_loop :: "nat \<Rightarrow> segmented_reader \<Rightarrow> (io_error, bytes) result \<times> segmented_reader" where
  "read_loop n self =
     (if n = 0 \<or> \<not> position self < total_len self then (Inr [], self)
      else case current_part_index self of
             None \<Rightarrow> (Inl (seg_error UnexpectedEof ''segmented source has a gap''), self)
           | Some index \<Rightarrow>
               (case read_part n index self of
                  (Inl e, t) \<Rightarrow> (Inl e, t)
                | (Inr data, t) \<Rightarrow>
                    (case read_loop (n - length data) t of
                       (Inl e, u) \<Rightarrow> (Inl e, u)
                     | (Inr tail, u) \<Rightarrow> (Inr (data @ tail), u))))"
  by pat_completeness auto
termination
proof (relation "measure fst")
  fix n self index x t data
  assume "\<not> (n = 0 \<or> \<not> position self < total_len self)" "(x, t) = read_part n index self" "x = Inr data"
  then show "((n - length data, t), n, self) \<in> measure fst"
    using read_part_length [of n index self data t] by (cases data) auto
qed simp

declare read_loop.simps [simp del]

definition seg_read :: "nat \<Rightarrow> segmented_reader \<Rightarrow> (io_error, bytes) result \<times> segmented_reader" where
  "seg_read n self = (if position self \<ge> total_len self \<or> n = 0 then (Inr [], self) else read_loop n self)"

datatype seek_from = SeekStart nat | SeekEnd int | SeekCurrent int

definition seg_seek :: "seek_from \<Rightarrow> segmented_reader \<Rightarrow> (io_error, nat) result \<times> segmented_reader" where
  "seg_seek from self =
     (let target = (case from of
                      SeekStart value \<Rightarrow> int value
                    | SeekEnd offset \<Rightarrow> int (total_len self) + offset
                    | SeekCurrent offset \<Rightarrow> int (position self) + offset)
      in if \<not> (0 \<le> target \<and> target \<le> int (total_len self))
         then (Inl (seg_error InvalidInput ''segmented seek outside source''), self)
         else (Inr (nat target), self\<lparr>position := nat target\<rparr>))"


section \<open>The layout invariant\<close>

text \<open>Parts lie end to end from one offset to another; each holds as many bytes as its metadata
  said, and its cached position is where its file really is.\<close>

fun laid_out :: "nat \<Rightarrow> segment list \<Rightarrow> nat \<Rightarrow> bool" where
  "laid_out a [] b \<longleftrightarrow> a = b"
| "laid_out a (p # ps) b \<longleftrightarrow>
     seg_start p = a \<and> 0 < seg_len p \<and> length (contents (seg_file p)) = seg_len p \<and>
     file_position p = cursor (seg_file p) \<and> laid_out (a + seg_len p) ps b"

definition stream_of :: "segment list \<Rightarrow> bytes" where
  "stream_of ps = concat (map (\<lambda>p. contents (seg_file p)) ps)"

definition stream :: "segmented_reader \<Rightarrow> bytes" where
  "stream self = stream_of (parts self)"

definition seg_inv :: "segmented_reader \<Rightarrow> bool" where
  "seg_inv self \<longleftrightarrow> laid_out 0 (parts self) (total_len self) \<and> total_len self < 2 ^ 64 \<and> position self \<le> total_len self"

lemma laid_out_length: "laid_out a ps b \<Longrightarrow> b = a + length (stream_of ps)"
  by (induction a ps b rule: laid_out.induct) (auto simp: stream_of_def)

lemma laid_out_append: "laid_out a (ps @ qs) b \<longleftrightarrow> (\<exists>m. laid_out a ps m \<and> laid_out m qs b)"
  by (induction ps arbitrary: a) auto

lemma laid_out_find:
  assumes "laid_out a ps b" "a \<le> pos" "pos < b"
  obtains i where "length (takeWhile (\<lambda>p. seg_start p \<le> pos) ps) = Suc i" "i < length ps"
    "seg_start (ps ! i) \<le> pos" "pos < seg_start (ps ! i) + seg_len (ps ! i)"
    "seg_start (ps ! i) = a + length (stream_of (take i ps))"
  using assms
proof (induction ps arbitrary: a thesis)
  case (Cons p ps)
  have p: "seg_start p = a" "length (contents (seg_file p)) = seg_len p" "laid_out (a + seg_len p) ps b"
    using Cons.prems(2) by auto
  show ?case
  proof (cases "pos < a + seg_len p")
    case True
    have "takeWhile (\<lambda>p. seg_start p \<le> pos) ps = []"
      using p(3) True by (cases ps) auto
    then show ?thesis using Cons.prems(1) [of 0] p True Cons.prems(3) by (simp add: stream_of_def)
  next
    case False
    then obtain i where "length (takeWhile (\<lambda>p. seg_start p \<le> pos) ps) = Suc i" "i < length ps"
      "seg_start (ps ! i) \<le> pos" "pos < seg_start (ps ! i) + seg_len (ps ! i)"
      "seg_start (ps ! i) = (a + seg_len p) + length (stream_of (take i ps))"
      using Cons.IH [OF _ p(3), of thesis] Cons.prems(4) by (metis not_less)
    then show ?thesis using Cons.prems(1) [of "Suc i"] p Cons.prems(3) by (simp add: stream_of_def)
  qed
qed simp

lemma laid_out_update:
  assumes "laid_out a ps b" "i < length ps" "seg_start p = seg_start (ps ! i)" "seg_len p = seg_len (ps ! i)"
    and "contents (seg_file p) = contents (seg_file (ps ! i))" "file_position p = cursor (seg_file p)"
  shows "laid_out a (ps[i := p]) b" "stream_of (ps[i := p]) = stream_of ps"
proof -
  have ps: "ps = take i ps @ ps ! i # drop (Suc i) ps" using assms(2) by (rule id_take_nth_drop)
  have up: "ps[i := p] = take i ps @ p # drop (Suc i) ps" using assms(2) by (rule upd_conv_take_nth_drop)
  have "laid_out a (take i ps @ ps ! i # drop (Suc i) ps) b" using assms(1) ps by simp
  then show "laid_out a (ps[i := p]) b" unfolding up using assms(3-6) by (auto simp: laid_out_append)
  have "stream_of (take i ps @ p # drop (Suc i) ps) = stream_of (take i ps @ ps ! i # drop (Suc i) ps)"
    using assms(5) by (simp add: stream_of_def)
  then show "stream_of (ps[i := p]) = stream_of ps" using up ps by simp
qed

lemma current_part_index_ok:
  assumes "seg_inv s" "position s < total_len s"
  obtains i where "current_part_index s = Some i" "i < length (parts s)"
    "seg_start (parts s ! i) \<le> position s" "position s < seg_start (parts s ! i) + seg_len (parts s ! i)"
    "seg_start (parts s ! i) + seg_len (parts s ! i) \<le> total_len s"
    "drop (seg_start (parts s ! i)) (stream s) = contents (seg_file (parts s ! i)) @ stream_of (drop (Suc i) (parts s))"
    "length (contents (seg_file (parts s ! i))) = seg_len (parts s ! i)"
proof -
  have l: "laid_out 0 (parts s) (total_len s)" using assms(1) by (simp add: seg_inv_def)
  obtain i where i: "length (takeWhile (\<lambda>p. seg_start p \<le> position s) (parts s)) = Suc i" "i < length (parts s)"
    "seg_start (parts s ! i) \<le> position s" "position s < seg_start (parts s ! i) + seg_len (parts s ! i)"
    "seg_start (parts s ! i) = 0 + length (stream_of (take i (parts s)))"
    by (rule laid_out_find [OF l le0 assms(2)])
  have split: "stream s = stream_of (take i (parts s)) @ contents (seg_file (parts s ! i)) @ stream_of (drop (Suc i) (parts s))"
    by (subst stream_def, subst id_take_nth_drop [OF i(2)]) (simp add: stream_of_def)
  from l have "laid_out 0 (take i (parts s) @ parts s ! i # drop (Suc i) (parts s)) (total_len s)"
    by (subst (asm) id_take_nth_drop [OF i(2)])
  then have c: "length (contents (seg_file (parts s ! i))) = seg_len (parts s ! i)" by (auto simp: laid_out_append)
  moreover have "total_len s = length (stream s)"
    using assms(1) laid_out_length [of 0 "parts s"] by (simp add: seg_inv_def stream_def)
  ultimately have "seg_start (parts s ! i) + seg_len (parts s ! i) \<le> total_len s" using split i(5) by simp
  moreover have "position s < saturating_add_u64 (seg_start (parts s ! i)) (seg_len (parts s ! i))"
    using i(4) assms by (auto simp: saturating_add_u64_def seg_inv_def)
  then have "current_part_index s = Some i" using i(1) by (simp add: current_part_index_def Let_def)
  ultimately show ?thesis using that [of i] i split c by simp
qed


section \<open>Reading\<close>

text \<open>What any read leaves alone.\<close>

definition same_stream :: "segmented_reader \<Rightarrow> segmented_reader \<Rightarrow> bool" where
  "same_stream s t \<longleftrightarrow> stream t = stream s \<and> total_len t = total_len s"

lemma same_stream_refl [simp]: "same_stream s s"
  by (simp add: same_stream_def)

lemma same_stream_trans: "same_stream s t \<Longrightarrow> same_stream t u \<Longrightarrow> same_stream s u"
  by (simp add: same_stream_def)

lemma sync_cursor_ok:
  assumes "sync_cursor offset part = (r, part')" "file_position part = cursor (seg_file part)"
  shows "seg_start part' = seg_start part" "seg_len part' = seg_len part" "seg_path part' = seg_path part"
    "contents (seg_file part') = contents (seg_file part)" "file_position part' = cursor (seg_file part')"
    "r = Inr () \<Longrightarrow> cursor (seg_file part') = offset"
  using assms file_seek_state [of offset "seg_file part"]
  by (auto simp: sync_cursor_def split: if_splits prod.splits sum.splits)

lemma put_part:
  assumes "seg_inv s" "i < length (parts s)" "seg_start p = seg_start (parts s ! i)" "seg_len p = seg_len (parts s ! i)"
    and "contents (seg_file p) = contents (seg_file (parts s ! i))" "file_position p = cursor (seg_file p)"
    and "pos \<le> total_len s"
  shows "seg_inv (s\<lparr>parts := (parts s)[i := p], position := pos\<rparr>)"
    "same_stream s (s\<lparr>parts := (parts s)[i := p], position := pos\<rparr>)"
  using assms laid_out_update [of 0 "parts s" "total_len s" i p]
  by (auto simp: seg_inv_def same_stream_def stream_def)

lemma laid_out_position: "laid_out a ps b \<Longrightarrow> p \<in> set ps \<Longrightarrow> file_position p = cursor (seg_file p)"
  by (induction a ps b rule: laid_out.induct) auto

lemma read_part_ok:
  assumes inv: "seg_inv s" and pos: "position s < total_len s" and i: "current_part_index s = Some i"
    and r: "read_part n i s = (r, t)"
  shows "seg_inv t \<and> same_stream s t \<and>
    (case r of Inl _ \<Rightarrow> position t = position s
     | Inr data \<Rightarrow> data = take (length data) (drop (position s) (stream s)) \<and> position t = position s + length data)"
proof -
  let ?p = "parts s ! i" and ?off = "position s - seg_start (parts s ! i)"
  have idx: "i < length (parts s)" "seg_start ?p \<le> position s" "position s < seg_start ?p + seg_len ?p"
    "seg_start ?p + seg_len ?p \<le> total_len s"
    "drop (seg_start ?p) (stream s) = contents (seg_file ?p) @ stream_of (drop (Suc i) (parts s))"
    "length (contents (seg_file ?p)) = seg_len ?p"
    using current_part_index_ok [OF inv pos] i by auto
  have lim: "total_len s < 2 ^ 64" using inv by (simp add: seg_inv_def)
  have cur: "file_position ?p = cursor (seg_file ?p)"
    using laid_out_position [of 0 "parts s" "total_len s" ?p] inv idx(1) by (simp add: seg_inv_def)
  obtain r1 p1 where s1: "sync_cursor ?off ?p = (r1, p1)" by (cases "sync_cursor ?off ?p")
  note p1 = sync_cursor_ok [OF s1 cur]
  have keep: "seg_inv (s\<lparr>parts := (parts s)[i := p]\<rparr>) \<and> same_stream s (s\<lparr>parts := (parts s)[i := p]\<rparr>)"
    if "seg_start p = seg_start ?p" "seg_len p = seg_len ?p" "contents (seg_file p) = contents (seg_file ?p)"
      "file_position p = cursor (seg_file p)" for p
    using put_part [OF inv idx(1) that, of "position s"] pos by simp
  obtain r2 f where s2: "file_read (min (seg_len ?p - ?off) n) (seg_file p1) = (r2, f)"
    by (cases "file_read (min (seg_len ?p - ?off) n) (seg_file p1)")
  show ?thesis
  proof (cases r1)
    case (Inl e)
    then show ?thesis using r s1 keep p1(1,2,4,5) by (auto simp: read_part_def Let_def)
  next
    case (Inr u)
    have at: "cursor (seg_file p1) = ?off" using p1(6) Inr by simp
    show ?thesis
    proof (cases r2)
      case (Inl e)
      have "f = seg_file p1" by (rule file_read_Inl [OF s2 [unfolded Inl]])
      then show ?thesis using r s1 s2 Inr Inl keep [of p1] p1(1,2,4,5)
        by (auto simp: read_part_def Let_def)
    next
      case (Inr data)
      note d = file_read_Inr [OF s2 [unfolded Inr]]
      have len: "length data \<le> seg_len ?p - ?off" using d(2) by simp
      have eof: ?thesis if "data = []"
        using that r s1 s2 Inr \<open>r1 = Inr u\<close> d(3) keep p1(1,2,4,5) by (auto simp: read_part_def Let_def)
      have go: "position s + length data \<le> total_len s" "file_position p1 + length data < 2 ^ 64"
        using len idx lim p1(5) at by auto
      have "drop (position s) (stream s) = drop ?off (contents (seg_file ?p) @ stream_of (drop (Suc i) (parts s)))"
        unfolding idx(5) [symmetric] using idx(2) by simp
      then have "take (length data) (drop (position s) (stream s)) = take (length data) (drop ?off (contents (seg_file ?p)))"
        using len idx(3,6) by simp
      then have data: "data = take (length data) (drop (position s) (stream s))" using d(1) p1(4) at by simp
      show ?thesis
        using eof data go r s1 s2 Inr \<open>r1 = Inr u\<close> d(3) p1(1,2,4,5) lim
          put_part [OF inv idx(1), of "p1\<lparr>seg_file := f, file_position := file_position p1 + length data\<rparr>" "position s + length data"]
        by (cases "data = []") (auto simp: read_part_def Let_def checked_add_u64_def)
    qed
  qed
qed


lemma read_loop_ok:
  "seg_inv s \<Longrightarrow> read_loop n s = (r, t) \<Longrightarrow>
    seg_inv t \<and> same_stream s t \<and>
    (case r of Inl _ \<Rightarrow> position s \<le> position t
     | Inr bs \<Rightarrow> bs = take n (drop (position s) (stream s)) \<and> position t = position s + length bs)"
proof (induction n s arbitrary: r t rule: read_loop.induct)
  case (1 n s)
  have len: "length (stream s) = total_len s"
    using laid_out_length [of 0 "parts s" "total_len s"] "1.prems"(1) by (simp add: seg_inv_def stream_def)
  show ?case
  proof (cases "n = 0 \<or> \<not> position s < total_len s")
    case True
    then show ?thesis using "1.prems" len read_loop.simps [of n s] by auto
  next
    case False
    then obtain i where i: "current_part_index s = Some i"
      using current_part_index_ok [OF "1.prems"(1)] by auto
    obtain r1 s1 where r1: "read_part n i s = (r1, s1)" by (cases "read_part n i s")
    note p = read_part_ok [OF "1.prems"(1) _ i r1]
    show ?thesis
    proof (cases r1)
      case (Inl e)
      then show ?thesis using "1.prems" False i r1 p read_loop.simps [of n s] by auto
    next
      case (Inr data)
      then have s1: "seg_inv s1" "same_stream s s1" "data = take (length data) (drop (position s) (stream s))"
        "position s1 = position s + length data" using p False by auto
      have dn: "length data \<le> n" using read_part_length [OF r1 [unfolded Inr]] by blast
      obtain r2 u where r2: "read_loop (n - length data) s1 = (r2, u)" by (cases "read_loop (n - length data) s1")
      note ih = "1.IH" [OF False i r1 [symmetric] Inr s1(1) r2]
      have "r = (case r2 of Inl e \<Rightarrow> Inl e | Inr tail \<Rightarrow> Inr (data @ tail))" "t = u"
        using "1.prems"(2) False i r1 Inr r2 read_loop.simps [of n s] by (auto split: sum.splits)
      moreover have "data @ take (n - length data) (drop (position s + length data) (stream s)) =
          take n (drop (position s) (stream s))"
        using s1(3) dn take_add [of "length data" "n - length data" "drop (position s) (stream s)"]
        by (simp add: add.commute)
      ultimately show ?thesis
        using ih s1(2,4) same_stream_trans [OF s1(2)] by (auto simp: same_stream_def split: sum.splits)
    qed
  qed
qed

lemma seg_read_ok:
  assumes "seg_inv s" "seg_read n s = (r, t)"
  shows "seg_inv t \<and> same_stream s t \<and>
    (case r of Inl _ \<Rightarrow> position s \<le> position t
     | Inr bs \<Rightarrow> bs = take n (drop (position s) (stream s)) \<and> position t = position s + length bs)"
proof (cases "position s \<ge> total_len s \<or> n = 0")
  case True
  have "length (stream s) = total_len s"
    using laid_out_length [of 0 "parts s" "total_len s"] assms(1) by (simp add: seg_inv_def stream_def)
  then show ?thesis using True assms by (auto simp: seg_read_def)
next
  case False
  then show ?thesis using read_loop_ok [OF assms(1), of n] assms(2) by (simp add: seg_read_def)
qed

interpretation volumes: byte_reader seg_read seg_inv "\<lambda>s. drop (position s) (stream s)"
proof
  fix s n bs t assume inv: "seg_inv s" and r: "seg_read n s = (Inr bs, t)"
  note ok = seg_read_ok [OF inv r]
  have bs: "bs = take n (drop (position s) (stream s))" using ok by simp
  have rest: "drop (position t) (stream t) = drop (length bs) (drop (position s) (stream s))"
    using ok by (simp add: same_stream_def add.commute)
  have "bs = take (length bs) (drop (position s) (stream s))" unfolding bs by (rule take_length_take)
  then have "drop (position s) (stream s) = bs @ drop (length bs) (drop (position s) (stream s))"
    by (metis append_take_drop_id)
  moreover have "length bs \<le> n" "bs = [] \<longrightarrow> n = 0 \<or> drop (position s) (stream s) = []" using bs by auto
  ultimately show "seg_inv t \<and> drop (position s) (stream s) = bs @ drop (position t) (stream t) \<and> length bs \<le> n \<and>
      (bs = [] \<longrightarrow> n = 0 \<or> drop (position s) (stream s) = [])"
    using ok rest by metis
next
  fix s n e t assume "seg_inv s" "seg_read n s = (Inl e, t)"
  then show "seg_inv t" using seg_read_ok by blast
qed

section \<open>Opening and seeking\<close>

text \<open>Files whose metadata tells the truth.\<close>

definition honest :: "(path \<Rightarrow> (io_error, file_handle \<times> nat) result) \<Rightarrow> bool" where
  "honest open_file \<longleftrightarrow> (\<forall>p f len. open_file p = Inr (f, len) \<longrightarrow> length (contents f) = len \<and> cursor f = 0)"

lemma open_parts_ok:
  assumes honest: "honest open_file"
  shows "\<lbrakk>open_parts open_file paths ps a = Inr (qs, b); laid_out 0 ps a; a < 2 ^ 64\<rbrakk> \<Longrightarrow>
      laid_out 0 qs b \<and> b < 2 ^ 64 \<and>
      map (\<lambda>p. contents (seg_file p)) qs =
        map (\<lambda>p. contents (seg_file p)) ps @ map (\<lambda>p. contents (fst (projr (open_file p)))) paths"
proof (induction paths arbitrary: ps a)
  case (Cons p paths)
  from Cons.prems(1) obtain f len where f: "open_file p = Inr (f, len)" "0 < len" "a + len < 2 ^ 64"
    "open_parts open_file paths (ps @ [\<lparr>seg_path = p, seg_file = f, seg_start = a, seg_len = len, file_position = 0\<rparr>]) (a + len) = Inr (qs, b)"
    by (auto simp: result_simps checked_add_u64_def split: if_splits)
  have "length (contents f) = len" "cursor f = 0" using honest f(1) by (auto simp: honest_def)
  then have "laid_out 0 (ps @ [\<lparr>seg_path = p, seg_file = f, seg_start = a, seg_len = len, file_position = 0\<rparr>]) (a + len)"
    using Cons.prems(2) f(2) by (auto simp: laid_out_append)
  from Cons.IH [OF f(4) this f(3)] show ?case using f(1) by simp
qed simp

abbreviation volume_bytes :: "(path \<Rightarrow> (io_error, file_handle \<times> nat) result) \<Rightarrow> path list \<Rightarrow> bytes" where
  "volume_bytes open_file paths \<equiv> concat (map (\<lambda>p. contents (fst (projr (open_file p)))) paths)"

lemma opened_reader:
  assumes "honest open_file" "seg_open open_file paths = Inr s" "seg_seek from s = (Inr p, t)"
  shows "seg_inv t" "stream t = volume_bytes open_file paths" "position t = p"
proof -
  obtain ps b where ps: "open_parts open_file paths [] 0 = Inr (ps, b)" "s = \<lparr>parts = ps, total_len = b, position = 0\<rparr>"
    using assms(2) by (auto simp: seg_open_def result_simps split: if_splits)
  note op = open_parts_ok [OF assms(1) ps(1)]
  have s: "seg_inv s" "stream s = volume_bytes open_file paths"
    using op ps(2) by (auto simp: seg_inv_def stream_def stream_of_def)
  then show "seg_inv t" "stream t = volume_bytes open_file paths" "position t = p"
    using assms(3) by (auto simp: seg_seek_def seg_inv_def stream_def Let_def split: if_splits)
qed


definition two_files :: "path \<Rightarrow> (io_error, file_handle \<times> nat) result" where
  "two_files p = (if p = [Normal ''a''] then Inr (plain_file [1, 2, 3], 3) else Inr (plain_file [4, 5], 2))"

lemma two_files_honest: "honest two_files"
  by (auto simp: honest_def two_files_def plain_file_def split: if_splits)



section \<open>A source that does not fail\<close>

definition reliable :: "file_handle \<Rightarrow> bool" where
  "reliable f \<longleftrightarrow> (\<forall>offset n. 0 < n \<longrightarrow> (\<exists>k > 0. os_read f offset n = Inr k)) \<and> (\<forall>offset. os_seek f offset = Inr ())"

definition all_reliable :: "segmented_reader \<Rightarrow> bool" where
  "all_reliable s \<longleftrightarrow> (\<forall>p \<in> set (parts s). reliable (seg_file p))"

lemma reliable_cursor [simp]: "reliable (f\<lparr>cursor := c\<rparr>) = reliable f"
  by (simp add: reliable_def)

lemma reliable_read:
  assumes "reliable f" "0 < n" "cursor f < length (contents f)"
  obtains data where "file_read n f = (Inr data, f\<lparr>cursor := cursor f + length data\<rparr>)" "data \<noteq> []"
proof -
  have "\<forall>offset n. 0 < n \<longrightarrow> (\<exists>k > 0. os_read f offset n = Inr k)" using assms(1) by (simp add: reliable_def)
  then obtain k where "0 < k" "os_read f (cursor f) n = Inr k" using assms(2) by blast
  then show ?thesis using assms(2,3) that by (simp add: file_read_def Let_def)
qed

lemma reliable_sync:
  assumes "reliable (seg_file p)"
  shows "\<exists>q. sync_cursor offset p = (Inr (), q) \<and> reliable (seg_file q)"
  using assms by (auto simp: sync_cursor_def file_seek_def reliable_def)

lemma read_part_total:
  assumes inv: "seg_inv s" and pos: "position s < total_len s" and i: "current_part_index s = Some i"
    and n: "0 < n" and rel: "all_reliable s"
  shows "\<exists>data t. read_part n i s = (Inr data, t) \<and> all_reliable t"
proof -
  let ?p = "parts s ! i" and ?off = "position s - seg_start (parts s ! i)"
  have idx: "i < length (parts s)" "seg_start ?p \<le> position s" "position s < seg_start ?p + seg_len ?p"
    "seg_start ?p + seg_len ?p \<le> total_len s" "length (contents (seg_file ?p)) = seg_len ?p"
    using current_part_index_ok [OF inv pos] i by auto
  have lim: "total_len s < 2 ^ 64" using inv by (simp add: seg_inv_def)
  have cur: "file_position ?p = cursor (seg_file ?p)"
    using laid_out_position [of 0 "parts s" "total_len s" ?p] inv idx(1) by (simp add: seg_inv_def)
  have "reliable (seg_file ?p)" using rel idx(1) by (simp add: all_reliable_def)
  then obtain q where q: "sync_cursor ?off ?p = (Inr (), q)" "reliable (seg_file q)" using reliable_sync by blast
  note sq = sync_cursor_ok [OF q(1) cur]
  have "cursor (seg_file q) < length (contents (seg_file q))" using sq(4,6) idx by simp
  moreover have "0 < min (seg_len ?p - ?off) n" using idx n by simp
  ultimately obtain data where d: "file_read (min (seg_len ?p - ?off) n) (seg_file q) =
      (Inr data, (seg_file q)\<lparr>cursor := cursor (seg_file q) + length data\<rparr>)" "data \<noteq> []"
    using reliable_read [OF q(2)] by blast
  have "length data \<le> seg_len ?p - ?off" using file_read_Inr(2) [OF d(1)] by simp
  then have "position s + length data < 2 ^ 64" "file_position q + length data < 2 ^ 64"
    using idx lim sq(5,6) by auto
  then have "read_part n i s = (Inr data, s\<lparr>parts := (parts s)[i := q\<lparr>seg_file := (seg_file q)\<lparr>cursor := cursor (seg_file q) + length data\<rparr>,
      file_position := file_position q + length data\<rparr>], position := position s + length data\<rparr>)"
    using q(1) d by (simp add: read_part_def Let_def checked_add_u64_def)
  moreover have "all_reliable (s\<lparr>parts := (parts s)[i := x], position := y\<rparr>)" if "reliable (seg_file x)" for x y
    using rel that set_update_subset_insert [of "parts s" i x] by (auto simp: all_reliable_def)
  ultimately show ?thesis using q(2) by simp
qed

lemma read_loop_total: "\<lbrakk>seg_inv s; all_reliable s\<rbrakk> \<Longrightarrow> \<exists>bs t. read_loop n s = (Inr bs, t) \<and> all_reliable t"
proof (induction n s rule: read_loop.induct)
  case (1 n s)
  show ?case
  proof (cases "n = 0 \<or> \<not> position s < total_len s")
    case True
    then show ?thesis using "1.prems"(2) read_loop.simps [of n s] by auto
  next
    case False
    then obtain i where i: "current_part_index s = Some i" using current_part_index_ok [OF "1.prems"(1)] by auto
    obtain data t where t: "read_part n i s = (Inr data, t)" "all_reliable t"
      using read_part_total [OF "1.prems"(1) _ i _ "1.prems"(2), of n] False by auto
    have "seg_inv t" using read_part_ok [OF "1.prems"(1) _ i t(1)] False by blast
    from "1.IH" [OF False i t(1) [symmetric] refl this t(2)] show ?thesis
      using False i t read_loop.simps [of n s] by auto
  qed
qed

lemma seg_read_total: "\<lbrakk>seg_inv s; all_reliable s\<rbrakk> \<Longrightarrow> \<exists>bs t. seg_read n s = (Inr bs, t) \<and> all_reliable t"
  using read_loop_total [of s n] by (cases "total_len s \<le> position s \<or> n = 0") (auto simp: seg_read_def)

interpretation reliable_volumes: total_reader seg_read "\<lambda>s. seg_inv s \<and> all_reliable s" "\<lambda>s. drop (position s) (stream s)"
proof
  fix s n bs t assume s: "seg_inv s \<and> all_reliable s" and r: "seg_read n s = (Inr bs, t)"
  have "all_reliable t" using seg_read_total [of s n] s r by auto
  then show "(seg_inv t \<and> all_reliable t) \<and> drop (position s) (stream s) = bs @ drop (position t) (stream t) \<and>
      length bs \<le> n \<and> (bs = [] \<longrightarrow> n = 0 \<or> drop (position s) (stream s) = [])"
    using volumes.read_ok [OF _ r] s by blast
next
  fix s n e t assume s: "seg_inv s \<and> all_reliable s" and "seg_read n s = (Inl e, t)"
  then show "seg_inv t \<and> all_reliable t" using seg_read_total [of s n] by auto
next
  fix s n assume "seg_inv s \<and> all_reliable s"
  then show "\<exists>bs t. seg_read n s = (Inr bs, t)" using seg_read_total by blast
qed

text \<open>
  A segmented source over files whose reads and seeks do not fail (a read of a positive
  length returns at least one byte while there are any) never fails itself, in particular
  never reports a gap or an unexpected end: reading in chunks of any positive size, from any
  valid position, ends and yields all of the rest of the concatenation.
\<close>

theorem segmented_reader_total:
  assumes "honest open_file" "seg_open open_file paths = Inr s" "seg_seek from s = (Inr p, t)" "all_reliable t"
  shows "\<exists>u. read_fully seg_read (Suc chunk) (Suc (length (volume_bytes open_file paths))) t =
             Some (Inr (drop p (volume_bytes open_file paths)), u)"
proof -
  note o = opened_reader [OF assms(1-3)]
  show ?thesis
    using reliable_volumes.read_fully_all [of t "Suc chunk" "Suc (length (volume_bytes open_file paths))"] o assms(4)
    by (simp del: read_fully.simps)
qed

theorem segmented_reader_total_witness:
  "\<exists>u. read_fully seg_read 2 6 (snd (seg_seek (SeekEnd (- 4)) (projr (seg_open two_files [[Normal ''a''], [Normal ''b'']])))) =
     Some (Inr [2, 3, 4, 5], u)"
proof -
  let ?s = "projr (seg_open two_files [[Normal ''a''], [Normal ''b'']])"
  let ?t = "snd (seg_seek (SeekEnd (- 4)) ?s)"
  note defs = seg_open_def two_files_def plain_file_def checked_add_u64_def seg_seek_def
  have o: "seg_open two_files [[Normal ''a''], [Normal ''b'']] = Inr ?s" by (simp add: defs)
  have k: "seg_seek (SeekEnd (- 4)) ?s = (Inr 1, ?t)" by (simp add: defs)
  have r: "all_reliable ?t" by (auto simp: defs all_reliable_def reliable_def)
  have v: "volume_bytes two_files [[Normal ''a''], [Normal ''b'']] = [1, 2, 3, 4, 5]" by (simp add: defs)
  show ?thesis using segmented_reader_total [OF two_files_honest o k r, of 1] unfolding v
    by (simp add: numeral_eq_Suc)
qed

text \<open>
  A read that fails in a later volume has already moved the position past the bytes of the
  earlier ones, which the caller never gets, whereas \<open>Read\<close> asks that a failing read consume
  nothing.
\<close>

definition failing_second :: "path \<Rightarrow> (io_error, file_handle \<times> nat) result" where
  "failing_second p =
     (if p = [Normal ''a''] then Inr (plain_file [1, 2, 3], 3)
      else Inr ((plain_file [4, 5])\<lparr>os_read := (\<lambda>_ _. Inl absent_error)\<rparr>, 2))"

lemma failed_read_consumes:
  "(let r = seg_read 4 (projr (seg_open failing_second [[Normal ''a''], [Normal ''b'']]))
    in fst r = Inl absent_error \<and> position (snd r) = 3)"
  by code_simp

end
