(* ===== verification/Unix_Compress.thy ===== *)
theory Unix_Compress
  imports Byte_Reader
begin

text \<open>
  The decoder of Unix \<open>compress\<close> streams (\<open>crates/zmanager-core/src/unix_compress_decoder.rs\<close>):
  the header, the bit reader, one LZW code at a time with the expansion stack, the output
  block, and \<open>read\<close>.  The source it reads from is a list of outcomes of one-byte reads; its end
  is end of data.  \<open>i32\<close> quantities that are never negative are naturals, and \<open>oldcode = -1\<close> is
  \<open>None\<close>.  Indexing outside the 65536-entry dictionary would panic; the model has the error
  \<open>panicked\<close> there, and the theorems show it does not occur.
\<close>

unbundle bit_operations_syntax

section \<open>The decoder\<close>

definition OUT_BLOCK_SIZE :: nat where
  "OUT_BLOCK_SIZE = 64 * 1024"

definition DICTIONARY_SIZE :: nat where
  "DICTIONARY_SIZE = 65536"

definition STACK_CAPACITY :: nat where
  "STACK_CAPACITY = 65300"

datatype inner_event = Byte u8 | Interrupt | Failure

fun inner_read :: "inner_event list \<Rightarrow> u8 option \<times> inner_event list" where
  "inner_read [] = (None, [])"
| "inner_read (Byte b # rest) = (Some b, rest)"
| "inner_read (Interrupt # rest) = inner_read rest"
| "inner_read (Failure # rest) = (None, rest)"

record decoder =
  inner :: "inner_event list"
  end_of_stream :: bool
  bit_buffer :: u32
  bits_avail :: nat
  bytes_in_section :: nat
  maxcode :: nat
  maxcode_bits :: nat
  section_end_code :: nat
  code_bits :: nat
  oldcode :: "nat option"
  finbyte :: u8
  free_ent :: nat
  use_reset_code :: bool
  suffix :: "nat \<Rightarrow> u8"
  prefix :: "nat \<Rightarrow> nat"
  stack :: "u8 list"
  out :: "u8 list"
  out_pos :: nat

definition invalid_data :: "string \<Rightarrow> io_error" where
  "invalid_data m = \<lparr>kind = InvalidData, message = m\<rparr>"

definition panicked :: io_error where
  "panicked = \<lparr>kind = OtherKind ''panic'', message = ''index out of bounds''\<rparr>"

text \<open>One byte into the bit buffer, as often as needed.\<close>

lemma inner_read_length: "inner_read xs = (Some b, ys) \<Longrightarrow> length ys < length xs"
  by (induction xs rule: inner_read.induct) auto

function fill_bits :: "nat \<Rightarrow> decoder \<Rightarrow> bool \<times> decoder" where
  "fill_bits n self =
     (if bits_avail self < n
      then (case inner_read (inner self) of
              (None, rest) \<Rightarrow> (False, self\<lparr>inner := rest\<rparr>)
            | (Some b, rest) \<Rightarrow>
                fill_bits n (self\<lparr>inner := rest,
                                  bit_buffer := bit_buffer self OR push_bit (bits_avail self) (ucast b),
                                  bits_avail := bits_avail self + 8,
                                  bytes_in_section := bytes_in_section self + 1\<rparr>))
      else (True, self))"
  by pat_completeness auto
termination
  by (relation "measure (\<lambda>(n, self). length (inner self))") (auto dest!: inner_read_length [OF sym])

declare fill_bits.simps [simp del]

definition getbits :: "nat \<Rightarrow> decoder \<Rightarrow> nat option \<times> decoder" where
  "getbits n self0 =
     (case fill_bits n self0 of
        (False, self) \<Rightarrow> (None, self)
      | (True, self) \<Rightarrow>
          (Some (unat (take_bit n (bit_buffer self))),
           self\<lparr>bit_buffer := drop_bit n (bit_buffer self), bits_avail := bits_avail self - n\<rparr>))"

definition push_stack :: "u8 \<Rightarrow> u8 list \<Rightarrow> (io_error, u8 list) result" where
  "push_stack byte st =
     (if length st \<ge> STACK_CAPACITY then Inl (invalid_data ''compress stream dictionary entry too long'')
      else Inr (byte # st))"

text \<open>The expansion loop: it ends because every turn pushes onto a bounded stack.\<close>

function expand :: "(nat \<Rightarrow> u8) \<Rightarrow> (nat \<Rightarrow> nat) \<Rightarrow> nat \<Rightarrow> u8 list \<Rightarrow> (io_error, nat) result \<times> u8 list" where
  "expand suf pre code st =
     (if code < 256 then (Inr code, st)
      else if code \<ge> DICTIONARY_SIZE then (Inl panicked, st)
      else case push_stack (suf code) st of
             Inl e \<Rightarrow> (Inl e, st)
           | Inr st' \<Rightarrow> expand suf pre (pre code) st')"
  by pat_completeness auto
termination
  by (relation "measure (\<lambda>(suf, pre, code, st). STACK_CAPACITY - length st)")
    (auto simp: push_stack_def split: if_splits)

declare expand.simps [simp del]

definition add_entry :: "decoder \<Rightarrow> (io_error, decoder) result" where
  "add_entry self =
     (case oldcode self of
        Some old \<Rightarrow>
          if free_ent self < maxcode self
          then if free_ent self \<ge> DICTIONARY_SIZE then Inl panicked
               else Inr (self\<lparr>prefix := (prefix self)(free_ent self := if old < 65536 then old else 0),
                              suffix := (suffix self)(free_ent self := finbyte self),
                              free_ent := free_ent self + 1\<rparr>)
          else Inr self
      | None \<Rightarrow> Inr self)"

definition widen :: "decoder \<Rightarrow> decoder" where
  "widen self =
     (if free_ent self > section_end_code self
      then let w = code_bits self + 1 in
           self\<lparr>code_bits := w, bytes_in_section := 0,
                section_end_code := (if w = maxcode_bits self then maxcode self else 2 ^ w - 1)\<rparr>
      else self)"

text \<open>The body of the loop once a code that is no reset has been read.\<close>

definition finish_code :: "nat \<Rightarrow> nat \<Rightarrow> decoder \<Rightarrow> (io_error, bool) result \<times> decoder" where
  "finish_code newcode code self0 =
     (let self = self0\<lparr>finbyte := of_nat code\<rparr> in
      case push_stack (finbyte self) (stack self) of
        Inl e \<Rightarrow> (Inl e, self)
      | Inr st \<Rightarrow>
          let self = self\<lparr>stack := st\<rparr> in
          (case add_entry self of
             Inl e \<Rightarrow> (Inl e, self)
           | Inr self' \<Rightarrow> (Inr True, (widen self')\<lparr>oldcode := Some newcode\<rparr>)))"

definition apply_code :: "nat \<Rightarrow> decoder \<Rightarrow> (io_error, bool) result \<times> decoder" where
  "apply_code newcode self =
     (if newcode > free_ent self \<or> newcode = free_ent self \<and> oldcode self = None
      then (Inl (invalid_data ''invalid compressed data''), self)
      else
        case (if newcode \<ge> free_ent self then push_stack (finbyte self) (stack self) else Inr (stack self)) of
          Inl e \<Rightarrow> (Inl e, self)
        | Inr st \<Rightarrow>
            (case expand (suffix self) (prefix self)
                         (if newcode \<ge> free_ent self then the (oldcode self) else newcode) st of
               (Inl e, st') \<Rightarrow> (Inl e, self\<lparr>stack := st'\<rparr>)
             | (Inr code, st') \<Rightarrow> finish_code newcode code (self\<lparr>stack := st'\<rparr>)))"

fun skip_bytes :: "nat \<Rightarrow> decoder \<Rightarrow> bool \<times> decoder" where
  "skip_bytes 0 self = (True, self)"
| "skip_bytes (Suc k) self =
     (case getbits 8 self of (None, t) \<Rightarrow> (False, t) | (Some _, t) \<Rightarrow> skip_bytes k t)"

definition reset_section :: "decoder \<Rightarrow> bool \<times> decoder" where
  "reset_section self =
     (let skip = (code_bits self - bytes_in_section self mod code_bits self) mod code_bits self
      in case skip_bytes skip (self\<lparr>bits_avail := 0\<rparr>) of
           (False, t) \<Rightarrow> (False, t)
         | (True, t) \<Rightarrow>
             (True, t\<lparr>bytes_in_section := 0, code_bits := 9, section_end_code := 2 ^ 9 - 1,
                      free_ent := 257, oldcode := None\<rparr>))"

section \<open>Input is consumed\<close>

definition input_left :: "decoder \<Rightarrow> nat" where
  "input_left self = 8 * length (inner self) + bits_avail self"

lemma inner_read_shrinks: "inner_read xs = (b, ys) \<Longrightarrow> length ys \<le> length xs"
  by (induction xs rule: inner_read.induct) auto

lemma fill_bits_left:
  "fill_bits n s = (ok, t) \<Longrightarrow> input_left t \<le> input_left s \<and> (ok \<longrightarrow> n \<le> bits_avail t)"
proof (induction n s rule: fill_bits.induct)
  case (1 n s)
  show ?case
  proof (cases "bits_avail s < n")
    case True
    obtain ob rest where r: "inner_read (inner s) = (ob, rest)" by (cases "inner_read (inner s)")
    show ?thesis
    proof (cases ob)
      case None
      then show ?thesis using "1.prems" True r inner_read_shrinks [OF r] fill_bits.simps [of n s]
        by (auto simp: input_left_def)
    next
      case (Some b)
      have "length rest < length (inner s)" using inner_read_length r Some by simp
      then show ?thesis
        using "1.IH" [OF True r [symmetric] Some] "1.prems" True r Some fill_bits.simps [of n s]
        by (fastforce simp: input_left_def)
    qed
  next
    case False
    then show ?thesis using "1.prems" fill_bits.simps [of n s] by auto
  qed
qed

lemma getbits_left:
  "getbits n s = (r, t) \<Longrightarrow> (case r of None \<Rightarrow> input_left t \<le> input_left s | Some _ \<Rightarrow> input_left t + n \<le> input_left s)"
  using fill_bits_left [of n s] by (auto simp: getbits_def input_left_def split: prod.splits bool.splits)

lemma skip_bytes_left: "skip_bytes k s = (ok, t) \<Longrightarrow> input_left t \<le> input_left s"
proof (induction k s rule: skip_bytes.induct)
  case (2 k s)
  obtain r u where "getbits 8 s = (r, u)" by (cases "getbits 8 s")
  then show ?case using 2 getbits_left [of 8 s r u] by (force split: option.splits)
qed simp

lemma reset_section_left: "reset_section s = (ok, t) \<Longrightarrow> input_left t \<le> input_left s"
  using skip_bytes_left [of _ "s\<lparr>bits_avail := 0\<rparr>"]
  by (fastforce simp: reset_section_def Let_def input_left_def split: prod.splits bool.splits)

lemma getbits_small: "getbits n s = (Some code, t) \<Longrightarrow> code < 2 ^ n"
  by (auto simp: getbits_def unsigned_take_bit_eq split: prod.splits bool.splits)

function next_code :: "decoder \<Rightarrow> (io_error, bool) result \<times> decoder" where
  "next_code self =
     (case getbits (code_bits self) self of
        (None, t) \<Rightarrow> (Inr False, t)
      | (Some code, t) \<Rightarrow>
          if code = 256 \<and> use_reset_code t
          then (case reset_section t of (False, u) \<Rightarrow> (Inr False, u) | (True, u) \<Rightarrow> next_code u)
          else apply_code code t)"
  by pat_completeness auto
termination
proof (relation "measure input_left")
  fix self x t ob code y u ok
  assume g: "(ob, t) = getbits (code_bits self) self" and c: "ob = Some code" "code = 256 \<and> use_reset_code t"
    and r: "(ok, u) = reset_section t" "ok = True"
  have "code < 2 ^ code_bits self" using getbits_small [of "code_bits self" self code t] g c by simp
  then have "0 < code_bits self" using c(2) by (cases "code_bits self") auto
  then have "input_left t < input_left self" using getbits_left [OF g [symmetric]] c(1) by simp
  then show "(u, self) \<in> measure input_left" using reset_section_left [OF r(1) [symmetric]] by simp
qed simp

declare next_code.simps [simp del]

section \<open>Output\<close>

lemma finish_code_stack: "finish_code newcode code s = (Inr b, t) \<Longrightarrow> b \<and> stack t \<noteq> []"
  by (auto simp: finish_code_def push_stack_def add_entry_def widen_def Let_def split: sum.splits option.splits if_splits)

lemma apply_code_stack: "apply_code newcode s = (Inr b, t) \<Longrightarrow> b \<and> stack t \<noteq> []"
  by (auto simp: apply_code_def split: if_splits sum.splits prod.splits dest!: finish_code_stack)

lemma next_code_stack: "next_code s = (Inr True, t) \<Longrightarrow> stack t \<noteq> []"
proof (induction s rule: next_code.induct)
  case (1 s)
  then show ?case using next_code.simps [of s] apply_code_stack
    by (auto split: prod.splits option.splits if_splits bool.splits)
qed

text \<open>Reading codes leaves the output side alone.\<close>

definition same_output :: "decoder \<Rightarrow> decoder \<Rightarrow> bool" where
  "same_output s t \<longleftrightarrow> out t = out s \<and> out_pos t = out_pos s \<and> end_of_stream t = end_of_stream s"

lemma same_output_trans: "same_output s t \<Longrightarrow> same_output t u \<Longrightarrow> same_output s u"
  by (simp add: same_output_def)

lemma fill_bits_output: "fill_bits n s = (ok, t) \<Longrightarrow> same_output s t"
proof (induction n s rule: fill_bits.induct)
  case (1 n s)
  then show ?case using fill_bits.simps [of n s]
    by (fastforce simp: same_output_def split: if_splits prod.splits option.splits)
qed

lemma getbits_output: "getbits n s = (r, t) \<Longrightarrow> same_output s t"
  using fill_bits_output [of n s] by (auto simp: getbits_def same_output_def split: prod.splits bool.splits)

lemma skip_bytes_output: "skip_bytes k s = (ok, t) \<Longrightarrow> same_output s t"
proof (induction k s rule: skip_bytes.induct)
  case (2 k s)
  then show ?case using getbits_output [of 8 s] same_output_trans
    by (fastforce split: prod.splits option.splits)
qed (simp add: same_output_def)

lemma reset_section_output: "reset_section s = (ok, t) \<Longrightarrow> same_output s t"
  using skip_bytes_output [of _ "s\<lparr>bits_avail := 0\<rparr>"]
  by (fastforce simp: reset_section_def same_output_def Let_def split: prod.splits bool.splits)

lemma apply_code_output: "apply_code newcode s = (r, t) \<Longrightarrow> same_output s t"
  by (auto simp: apply_code_def finish_code_def add_entry_def widen_def same_output_def Let_def
      split: if_splits sum.splits prod.splits option.splits)

lemma next_code_output: "next_code s = (r, t) \<Longrightarrow> same_output s t"
proof (induction s arbitrary: r t rule: next_code.induct)
  case (1 s)
  obtain g u where g: "getbits (code_bits s) s = (g, u)" by (cases "getbits (code_bits s) s")
  note su = getbits_output [OF g]
  show ?case
  proof (cases g)
    case None
    then show ?thesis using "1.prems" g su next_code.simps [of s] by simp
  next
    case (Some code)
    show ?thesis
    proof (cases "code = 256 \<and> use_reset_code u")
      case True
      obtain ok v where v: "reset_section u = (ok, v)" by (cases "reset_section u")
      have sv: "same_output s v" by (rule same_output_trans [OF su reset_section_output [OF v]])
      show ?thesis
      proof (cases ok)
        case True
        then have "next_code v = (r, t)" using "1.prems" g Some \<open>code = 256 \<and> use_reset_code u\<close> v next_code.simps [of s] by simp
        from "1.IH" [OF g [symmetric] Some \<open>code = 256 \<and> use_reset_code u\<close> v [symmetric] _ this] True
        show ?thesis using same_output_trans [OF sv] by simp
      next
        case False
        then show ?thesis using "1.prems" g Some \<open>code = 256 \<and> use_reset_code u\<close> v sv next_code.simps [of s] by simp
      qed
    next
      case False
      then have "apply_code code u = (r, t)" using "1.prems" g Some next_code.simps [of s] by (auto split: if_splits)
      then show ?thesis using apply_code_output same_output_trans [OF su] by blast
    qed
  qed
qed

text \<open>The loop of \<open>fill_out_block\<close>: \<open>out_len\<close> is the length of \<open>out\<close>.\<close>

function fill_loop :: "decoder \<Rightarrow> (io_error, unit) result \<times> decoder" where
  "fill_loop self =
     (if length (out self) < OUT_BLOCK_SIZE \<and> \<not> end_of_stream self
      then (case stack self of
              byte # below \<Rightarrow> fill_loop (self\<lparr>stack := below, out := out self @ [byte]\<rparr>)
            | [] \<Rightarrow>
                (case next_code self of
                   (Inl e, t) \<Rightarrow> (Inl e, t)
                 | (Inr True, t) \<Rightarrow> fill_loop t
                 | (Inr False, t) \<Rightarrow> fill_loop (t\<lparr>end_of_stream := True\<rparr>)))
      else (Inr (), self))"
  by pat_completeness auto
termination
proof (relation "measures [\<lambda>self. OUT_BLOCK_SIZE - length (out self),
    \<lambda>self. (if end_of_stream self then 0 else 1) + (if stack self = [] then 1 else 0)]", goal_cases)
  case (2 self r t b)
  then show ?case using next_code_output [of self r t] next_code_stack [of self t] by (auto simp: same_output_def)
next
  case (3 self r t b)
  then show ?case using next_code_output [of self r t] by (auto simp: same_output_def)
qed auto

declare fill_loop.simps [simp del]

definition fill_out_block :: "decoder \<Rightarrow> (io_error, unit) result \<times> decoder" where
  "fill_out_block self =
     (case fill_loop (self\<lparr>out := []\<rparr>) of
        (Inl e, t) \<Rightarrow> (Inl e, t)
      | (Inr _, t) \<Rightarrow> (Inr (), t\<lparr>out_pos := 0\<rparr>))"


lemma fill_loop_progress: "fill_loop s = (Inr (), t) \<Longrightarrow> OUT_BLOCK_SIZE \<le> length (out t) \<or> end_of_stream t"
proof (induction s rule: fill_loop.induct)
  case (1 s)
  show ?case
  proof (cases "length (out s) < OUT_BLOCK_SIZE \<and> \<not> end_of_stream s")
    case True
    then show ?thesis using 1 fill_loop.simps [of s]
      by (auto split: list.splits prod.splits sum.splits bool.splits)
  next
    case False
    then show ?thesis using "1.prems" fill_loop.simps [of s] by auto
  qed
qed

lemma fill_out_block_progress:
  "fill_out_block s = (Inr (), t) \<Longrightarrow> out_pos t = 0 \<and> (out t \<noteq> [] \<or> end_of_stream t)"
  using fill_loop_progress [of "s\<lparr>out := []\<rparr>"]
  by (fastforce simp: fill_out_block_def OUT_BLOCK_SIZE_def split: prod.splits sum.splits)

function decoder_read :: "nat \<Rightarrow> decoder \<Rightarrow> (io_error, bytes) result \<times> decoder" where
  "decoder_read n self =
     (if out_pos self < length (out self)
      then let chunk = take n (drop (out_pos self) (out self))
           in (Inr chunk, self\<lparr>out_pos := out_pos self + length chunk\<rparr>)
      else if end_of_stream self then (Inr [], self)
      else case fill_out_block self of
             (Inl e, t) \<Rightarrow> (Inl e, t)
           | (Inr _, t) \<Rightarrow> decoder_read n t)"
  by pat_completeness auto
termination
proof (relation "measure (\<lambda>(n, self). if out_pos self < length (out self) \<or> end_of_stream self then 0 else 1)", goal_cases)
  case (2 n self r t u)
  then show ?case using fill_out_block_progress [of self t] by (cases "out t") auto
qed simp

declare decoder_read.simps [simp del]

definition start_decoder :: "inner_event list \<Rightarrow> decoder" where
  "start_decoder input =
     \<lparr>inner = input, end_of_stream = False, bit_buffer = 0, bits_avail = 0, bytes_in_section = 0, maxcode = 0,
      maxcode_bits = 0, section_end_code = 0, code_bits = 0, oldcode = None, finbyte = 0, free_ent = 0,
      use_reset_code = False, suffix = (\<lambda>_. 0), prefix = (\<lambda>_. 0), stack = [], out = [], out_pos = 0\<rparr>"

definition header_bits :: "decoder \<Rightarrow> (io_error, nat \<times> decoder) result" where
  "header_bits s = (case getbits 8 s of (None, t) \<Rightarrow> Inl (invalid_data ''truncated compress stream'') | (Some v, t) \<Rightarrow> Inr (v, t))"

definition init_tables :: "nat \<Rightarrow> decoder \<Rightarrow> decoder" where
  "init_tables parameters s =
     s\<lparr>maxcode_bits := parameters mod 32, maxcode := 2 ^ (parameters mod 32), use_reset_code := bit parameters 7,
       free_ent := (if bit parameters 7 then 257 else 256), code_bits := 9, section_end_code := 2 ^ 9 - 1,
       prefix := (\<lambda>c. if c < 256 then 0 else prefix s c), suffix := (\<lambda>c. if c < 256 then of_nat c else suffix s c)\<rparr>"

definition decoder_new :: "inner_event list \<Rightarrow> (io_error, decoder) result" where
  "decoder_new input =
     and_then (header_bits (start_decoder input)) (\<lambda>(first, s).
     and_then (header_bits s) (\<lambda>(second, s).
       if first \<noteq> 0x1f \<or> second \<noteq> 0x9d then Inl (invalid_data ''not a compress stream'')
       else and_then (header_bits s) (\<lambda>(parameters, s).
         if bit parameters 5 \<or> bit parameters 6 then Inl (invalid_data ''invalid compress stream parameters'')
         else if parameters mod 32 > 16 then Inl (invalid_data ''invalid compressed data'')
         else case next_code (init_tables parameters s) of
                (Inl e, _) \<Rightarrow> Inl e
              | (Inr _, t) \<Rightarrow> Inr t)))"


section \<open>The dictionary as strings\<close>

function spell :: "(nat \<Rightarrow> u8) \<Rightarrow> (nat \<Rightarrow> nat) \<Rightarrow> nat \<Rightarrow> bytes" where
  "spell suf pre code =
     (if code < 256 then [of_nat code]
      else if pre code < code then spell suf pre (pre code) @ [suf code] else [])"
  by pat_completeness auto
termination
  by (relation "measure (\<lambda>(suf, pre, code). code)") auto

declare spell.simps [simp del]

definition descending :: "(nat \<Rightarrow> nat) \<Rightarrow> bool" where
  "descending pre \<longleftrightarrow> (\<forall>c. 256 \<le> c \<and> c < 65536 \<longrightarrow> pre c < c)"

lemma spell_small: "code < 256 \<Longrightarrow> spell suf pre code = [of_nat code]"
  by (simp add: spell.simps)

lemma spell_entry: "descending pre \<Longrightarrow> 256 \<le> code \<Longrightarrow> code < 65536 \<Longrightarrow> spell suf pre code = spell suf pre (pre code) @ [suf code]"
  by (subst spell.simps) (simp add: descending_def)

lemma spell_length: "code < 65536 \<Longrightarrow> length (spell suf pre code) \<le> max 1 (code - 254)"
proof (induction suf pre code rule: spell.induct)
  case (1 suf pre code)
  then show ?case by (subst spell.simps) (fastforce simp: max_def split: if_splits)
qed

lemma spell_ne: "descending pre \<Longrightarrow> code < 65536 \<Longrightarrow> spell suf pre code \<noteq> []"
proof (induction suf pre code rule: spell.induct)
  case (1 suf pre code)
  then show ?case by (subst spell.simps) (auto simp: descending_def)
qed

text \<open>The expansion pushes the string of a code, all but its first byte.\<close>

lemma expand_spell:
  "\<lbrakk>descending pre; code < 65536; length st + length (spell suf pre code) \<le> STACK_CAPACITY + 1\<rbrakk> \<Longrightarrow>
     \<exists>b < 256. expand suf pre code st = (Inr b, tl (spell suf pre code) @ st) \<and> hd (spell suf pre code) = of_nat b"
proof (induction suf pre code st rule: expand.induct)
  case (1 suf pre code st)
  show ?case
  proof (cases "code < 256")
    case True
    then show ?thesis by (simp add: expand.simps spell_small)
  next
    case False
    then have s: "spell suf pre code = spell suf pre (pre code) @ [suf code]" "pre code < code"
      using spell_entry [OF "1.prems"(1)] "1.prems" by (auto simp: descending_def)
    have small: "\<not> DICTIONARY_SIZE \<le> code" "pre code < 65536" using "1.prems"(2) s(2) by (auto simp: DICTIONARY_SIZE_def)
    have ne: "spell suf pre (pre code) \<noteq> []" by (rule spell_ne [OF "1.prems"(1) small(2)])
    have cap: "length st < STACK_CAPACITY" using "1.prems"(3) s(1) ne by (cases "spell suf pre (pre code)") auto
    then have push: "push_stack (suf code) st = Inr (suf code # st)" by (simp add: push_stack_def)
    have len: "length (suf code # st) + length (spell suf pre (pre code)) \<le> STACK_CAPACITY + 1" using "1.prems"(3) s(1) by simp
    from "1.IH" [OF False small(1) push "1.prems"(1) small(2) len] obtain b where
      "b < 256" "expand suf pre (pre code) (suf code # st) = (Inr b, tl (spell suf pre (pre code)) @ suf code # st)"
      "hd (spell suf pre (pre code)) = of_nat b" by blast
    moreover have "expand suf pre code st = expand suf pre (pre code) (suf code # st)"
      using False small(1) push by (subst expand.simps) simp
    ultimately show ?thesis using s(1) ne by (intro exI [of _ b]) simp
  qed
qed

section \<open>The invariant\<close>

definition width_ok :: "decoder \<Rightarrow> bool" where
  "width_ok d \<longleftrightarrow> 9 \<le> code_bits d \<and> code_bits d \<le> 16 \<and>
     (code_bits d = maxcode_bits d \<and> 9 < code_bits d \<and> section_end_code d = maxcode d \<or>
      section_end_code d = 2 ^ code_bits d - 1 \<and>
        (code_bits d < maxcode_bits d \<or> code_bits d = 9 \<or> code_bits d = 10 \<and> maxcode_bits d = 9))"

definition old_ok :: "decoder \<Rightarrow> bool" where
  "old_ok d \<longleftrightarrow> (\<forall>old. oldcode d = Some old \<longrightarrow>
     old \<le> free_ent d \<and> old < 65536 \<and> (old = free_ent d \<longrightarrow> maxcode d \<le> free_ent d))"

definition lzw_inv :: "decoder \<Rightarrow> bool" where
  "lzw_inv d \<longleftrightarrow> maxcode_bits d \<le> 16 \<and> maxcode d = 2 ^ maxcode_bits d \<and> descending (prefix d) \<and>
     256 \<le> free_ent d \<and> free_ent d \<le> max 257 (maxcode d) \<and> width_ok d \<and> old_ok d"

lemma lzw_inv_max: "lzw_inv d \<Longrightarrow> maxcode d \<le> 65536"
  using power_increasing [of "maxcode_bits d" 16 "2::nat"] by (simp add: lzw_inv_def)

text \<open>What a code stands for in a state: its string, or the last string and its first byte again.\<close>

definition output_of :: "nat \<Rightarrow> decoder \<Rightarrow> bytes" where
  "output_of code d =
     (if code < free_ent d then spell (suffix d) (prefix d) code
      else spell (suffix d) (prefix d) (the (oldcode d)) @ [finbyte d])"

definition rejects :: "nat \<Rightarrow> decoder \<Rightarrow> bool" where
  "rejects code d \<longleftrightarrow> code > free_ent d \<or> code = free_ent d \<and> oldcode d = None"

lemma widen_ok:
  assumes "maxcode_bits d \<le> 16" "maxcode d = 2 ^ maxcode_bits d" "free_ent d \<le> max 257 (maxcode d)" "width_ok d"
  shows "width_ok (widen d)"
proof (cases "free_ent d > section_end_code d")
  case False
  then show ?thesis using assms(4) by (simp add: widen_def)
next
  case True
  have "code_bits d < maxcode_bits d \<or> code_bits d = 9 \<and> maxcode_bits d = 9"
  proof (rule ccontr)
    assume c: "\<not> (code_bits d < maxcode_bits d \<or> code_bits d = 9 \<and> maxcode_bits d = 9)"
    have small: "maxcode d \<le> 512" if "maxcode_bits d \<le> 9"
      using assms(2) power_increasing [OF that, of "2::nat"] by simp
    have small': "maxcode d \<le> 256" if "maxcode_bits d \<le> 8"
      using assms(2) power_increasing [OF that, of "2::nat"] by simp
    have big: "(1024::nat) \<le> 2 ^ maxcode_bits d" if "10 \<le> maxcode_bits d"
      using power_increasing [OF that, of "2::nat"] by simp
    have nine: "maxcode_bits d \<le> 8 \<or> maxcode_bits d = 9 \<or> 10 \<le> maxcode_bits d" by linarith
    show False
      using c assms(2-4) True small small' big nine
      by (auto simp: width_ok_def max_def not_less le_less_Suc_eq split: if_splits)
  qed
  moreover have "9 \<le> code_bits d" using assms(4) by (simp add: width_ok_def)
  ultimately show ?thesis using True assms(1) by (auto simp: widen_def width_ok_def Let_def)
qed


text \<open>One code, once the stack is empty: either the only possible error, or its string on the stack.\<close>

lemma add_entry_ok:
  assumes "lzw_inv d"
  shows "\<exists>t. add_entry d = Inr t \<and>
    t = (case oldcode d of
           Some old \<Rightarrow> if free_ent d < maxcode d
             then d\<lparr>prefix := (prefix d)(free_ent d := old), suffix := (suffix d)(free_ent d := finbyte d), free_ent := free_ent d + 1\<rparr>
             else d
         | None \<Rightarrow> d)"
  using assms lzw_inv_max [OF assms]
  by (auto simp: add_entry_def lzw_inv_def old_ok_def DICTIONARY_SIZE_def split: option.split)

definition enter :: "nat \<Rightarrow> u8 \<Rightarrow> decoder \<Rightarrow> decoder" where
  "enter newcode fin d =
     (let d = d\<lparr>finbyte := fin\<rparr> in
      (case oldcode d of
         Some old \<Rightarrow> if free_ent d < maxcode d
           then d\<lparr>prefix := (prefix d)(free_ent d := old), suffix := (suffix d)(free_ent d := fin), free_ent := free_ent d + 1\<rparr>
           else d
       | None \<Rightarrow> d))"

lemma lzw_inv_enter:
  assumes inv: "lzw_inv d" and code: "newcode < 65536" "\<not> rejects newcode d"
  shows "lzw_inv ((widen (enter newcode fin d))\<lparr>stack := st, oldcode := Some newcode\<rparr>)"
proof -
  let ?e = "enter newcode fin d"
  have e: "maxcode_bits ?e = maxcode_bits d" "maxcode ?e = maxcode d" "width_ok ?e \<longleftrightarrow> width_ok d"
    by (auto simp: enter_def Let_def width_ok_def split: option.split)
  have max: "maxcode d \<le> 65536" by (rule lzw_inv_max [OF inv])
  have free: "256 \<le> free_ent ?e" "free_ent ?e \<le> max 257 (maxcode d)"
    using inv by (auto simp: enter_def Let_def lzw_inv_def split: option.split)
  have desc: "descending (prefix ?e)"
    using inv by (auto simp: enter_def Let_def lzw_inv_def old_ok_def descending_def le_eq_less_or_eq split: option.split)
  have old: "newcode \<le> free_ent ?e \<and> (newcode = free_ent ?e \<longrightarrow> maxcode d \<le> free_ent ?e)"
    using code inv by (auto simp: enter_def Let_def rejects_def lzw_inv_def split: option.splits)
  have w: "width_ok (widen ?e)" using inv e free(2) by (intro widen_ok) (auto simp: lzw_inv_def)
  have same: "maxcode_bits (widen ?e) = maxcode_bits d" "maxcode (widen ?e) = maxcode d" "prefix (widen ?e) = prefix ?e"
    "free_ent (widen ?e) = free_ent ?e" using e by (simp_all add: widen_def Let_def)
  show ?thesis
    using inv w desc free old same code(1) by (simp add: lzw_inv_def width_ok_def old_ok_def)
qed


lemma lzw_inv_frame [simp]:
  "lzw_inv (d\<lparr>stack := x\<rparr>) = lzw_inv d" "lzw_inv (d\<lparr>finbyte := y\<rparr>) = lzw_inv d"
  "lzw_inv (d\<lparr>out := z\<rparr>) = lzw_inv d" "lzw_inv (d\<lparr>end_of_stream := b\<rparr>) = lzw_inv d" "lzw_inv (d\<lparr>out_pos := k\<rparr>) = lzw_inv d"
  by (simp_all add: lzw_inv_def width_ok_def old_ok_def)

lemma finish_code_ok:
  assumes inv: "lzw_inv d" and cap: "length (stack d) < STACK_CAPACITY"
  shows "finish_code newcode code d =
    (Inr True, (widen (enter newcode (of_nat code) d))\<lparr>stack := of_nat code # stack d, oldcode := Some newcode\<rparr>)"
proof -
  let ?d = "d\<lparr>finbyte := of_nat code, stack := of_nat code # stack d\<rparr>"
  have "lzw_inv ?d" using inv by simp
  from add_entry_ok [OF this] show ?thesis
    using cap by (auto simp: finish_code_def push_stack_def enter_def widen_def Let_def split: option.split)
qed

lemma output_of_length:
  assumes "lzw_inv d" "code < 65536" "\<not> rejects code d"
  shows "length (output_of code d) \<le> 65282" "output_of code d \<noteq> []"
proof -
  have desc: "descending (prefix d)" using assms(1) by (simp add: lzw_inv_def)
  have len: "length (spell (suffix d) (prefix d) c) \<le> 65281" if "c < 65536" for c
    using spell_length [OF that, of "suffix d" "prefix d"] that by simp
  show "length (output_of code d) \<le> 65282"
    using assms len [of code] len [of "the (oldcode d)"]
    by (auto simp: output_of_def rejects_def lzw_inv_def old_ok_def)
  show "output_of code d \<noteq> []" using spell_ne [OF desc assms(2)] by (simp add: output_of_def)
qed

lemma apply_code_ok:
  assumes inv: "lzw_inv d" and st: "stack d = []" and code: "code < 65536"
  shows "apply_code code d =
    (if rejects code d then (Inl (invalid_data ''invalid compressed data''), d)
     else (Inr True, (widen (enter code (hd (output_of code d)) d))\<lparr>stack := output_of code d, oldcode := Some code\<rparr>))"
proof (cases "rejects code d")
  case True
  then show ?thesis by (simp add: apply_code_def rejects_def)
next
  case False
  have desc: "descending (prefix d)" using inv by (simp add: lzw_inv_def)
  let ?c = "if code \<ge> free_ent d then the (oldcode d) else code"
  let ?s = "if code \<ge> free_ent d then [finbyte d] else []"
  have start: "(if code \<ge> free_ent d then push_stack (finbyte d) (stack d) else Inr (stack d)) = Inr ?s"
    by (simp add: push_stack_def st STACK_CAPACITY_def)
  have c: "?c < 65536" using False inv code by (auto simp: rejects_def lzw_inv_def old_ok_def)
  have out: "output_of code d = spell (suffix d) (prefix d) ?c @ ?s" by (auto simp: output_of_def)
  have "length (output_of code d) \<le> 65282" by (rule output_of_length(1) [OF inv code False])
  then have cap: "length ?s + length (spell (suffix d) (prefix d) ?c) \<le> STACK_CAPACITY + 1"
    unfolding out STACK_CAPACITY_def by simp
  from expand_spell [OF desc c cap] obtain b where b:
    "expand (suffix d) (prefix d) ?c ?s = (Inr b, tl (spell (suffix d) (prefix d) ?c) @ ?s)"
    "hd (spell (suffix d) (prefix d) ?c) = of_nat b" by blast
  have ne: "spell (suffix d) (prefix d) ?c \<noteq> []" by (rule spell_ne [OF desc c])
  let ?d = "d\<lparr>stack := tl (spell (suffix d) (prefix d) ?c) @ ?s\<rparr>"
  have sp: "spell (suffix d) (prefix d) ?c = of_nat b # tl (spell (suffix d) (prefix d) ?c)"
    using list.collapse [OF ne] b(2) by simp
  have whole: "of_nat b # stack ?d = output_of code d" unfolding out by (subst (2) sp) simp
  have whole: "of_nat b # stack ?d = output_of code d" "hd (output_of code d) = of_nat b"
    using whole by (simp, simp add: whole [symmetric])
  have "lzw_inv ?d" using inv by simp
  moreover have "length (stack ?d) < STACK_CAPACITY"
    using output_of_length(1) [OF inv code False] arg_cong [OF whole(1), of length] by (simp add: STACK_CAPACITY_def)
  ultimately have "finish_code code b ?d =
      (Inr True, (widen (enter code (of_nat b) ?d))\<lparr>stack := of_nat b # stack ?d, oldcode := Some code\<rparr>)"
    by (rule finish_code_ok)
  moreover have "(widen (enter code x ?d))\<lparr>stack := y, oldcode := z\<rparr> = (widen (enter code x d))\<lparr>stack := y, oldcode := z\<rparr>" for x y z
    by (auto simp: enter_def widen_def Let_def split: option.split)
  ultimately show ?thesis
    using False start b(1) whole by (simp add: apply_code_def rejects_def)
qed


section \<open>Every failure is a bad code\<close>

text \<open>Reading bits leaves the tables and the stack alone.\<close>

definition input_only :: "decoder \<Rightarrow> decoder \<Rightarrow> bool" where
  "input_only s t \<longleftrightarrow> t = s\<lparr>inner := inner t, bit_buffer := bit_buffer t, bits_avail := bits_avail t, bytes_in_section := bytes_in_section t\<rparr>"

lemma input_only_refl [simp]: "input_only s s"
  by (simp add: input_only_def)

lemma input_only_trans: "input_only s t \<Longrightarrow> input_only t u \<Longrightarrow> input_only s u"
  unfolding input_only_def by (cases s; cases t; cases u) simp

lemma input_only_inv: "input_only s t \<Longrightarrow> lzw_inv t = lzw_inv s \<and> stack t = stack s \<and> code_bits t = code_bits s \<and> use_reset_code t = use_reset_code s"
  unfolding input_only_def by (cases s; cases t) (simp add: lzw_inv_def width_ok_def old_ok_def)

lemma fill_bits_input: "fill_bits n s = (ok, t) \<Longrightarrow> input_only s t"
proof (induction n s rule: fill_bits.induct)
  case (1 n s)
  have upd: "input_only s (s\<lparr>inner := a, bit_buffer := b, bits_avail := c, bytes_in_section := d\<rparr>)" for a b c d
    by (simp add: input_only_def)
  obtain ob rest where r: "inner_read (inner s) = (ob, rest)" by (cases "inner_read (inner s)")
  consider "\<not> bits_avail s < n" | "bits_avail s < n" "ob = None" | b where "bits_avail s < n" "ob = Some b" by (cases ob) auto
  then show ?case
  proof cases
    case 1
    then show ?thesis using "1.prems" fill_bits.simps [of n s] by simp
  next
    case 2
    then have "t = s\<lparr>inner := rest\<rparr>" using "1.prems" r fill_bits.simps [of n s] by simp
    then show ?thesis by (simp add: input_only_def)
  next
    case 3
    then show ?thesis using "1.IH" [OF 3(1) r [symmetric] 3(2)] "1.prems" r fill_bits.simps [of n s] input_only_trans [OF upd]
      by simp
  qed
qed

lemma getbits_input: "getbits n s = (r, t) \<Longrightarrow> input_only s t"
proof -
  assume "getbits n s = (r, t)"
  moreover have "input_only u (u\<lparr>bit_buffer := x, bits_avail := y\<rparr>)" for u x y by (simp add: input_only_def)
  ultimately show ?thesis using fill_bits_input [of n s] input_only_trans
    by (auto simp: getbits_def split: prod.splits bool.splits)
qed

lemma skip_bytes_input: "skip_bytes k s = (ok, t) \<Longrightarrow> input_only s t"
proof (induction k s rule: skip_bytes.induct)
  case (2 k s)
  obtain r u where u: "getbits 8 s = (r, u)" by (cases "getbits 8 s")
  note su = getbits_input [OF u]
  show ?case using "2.prems" "2.IH" [OF u [symmetric]] u su input_only_trans [OF su] by (cases r) auto
qed simp

lemma reset_section_ok:
  assumes "lzw_inv s" "reset_section s = (ok, t)"
  shows "lzw_inv t" "stack t = stack s"
proof -
  let ?s = "s\<lparr>bits_avail := 0\<rparr>"
  have "input_only s ?s" by (simp add: input_only_def)
  obtain k where "skip_bytes k ?s = (ok, t) \<and> \<not> ok \<or>
      (\<exists>u. skip_bytes k ?s = (True, u) \<and> t = u\<lparr>bytes_in_section := 0, code_bits := 9, section_end_code := 2 ^ 9 - 1,
                      free_ent := 257, oldcode := None\<rparr>)"
    using assms(2) by (auto simp: reset_section_def Let_def split: prod.splits bool.splits)
  then obtain u where u: "input_only s u" "t = u \<or> t = u\<lparr>bytes_in_section := 0, code_bits := 9, section_end_code := 2 ^ 9 - 1,
                      free_ent := 257, oldcode := None\<rparr>"
    using skip_bytes_input input_only_trans [OF \<open>input_only s ?s\<close>] by blast
  note iu = input_only_inv [OF u(1)]
  have "lzw_inv u" using iu assms(1) by simp
  then have "maxcode_bits u \<le> 16" "maxcode u = 2 ^ maxcode_bits u" "descending (prefix u)" by (simp_all add: lzw_inv_def)
  then have "lzw_inv (u\<lparr>bytes_in_section := 0, code_bits := 9, section_end_code := 2 ^ 9 - 1, free_ent := 257, oldcode := None\<rparr>)"
    by (simp add: lzw_inv_def width_ok_def old_ok_def)
  then show "lzw_inv t" "stack t = stack s" using u(2) iu assms(1) by auto
qed

definition bad_code :: io_error where
  "bad_code = invalid_data ''invalid compressed data''"

lemma next_code_ok:
  "\<lbrakk>lzw_inv s; stack s = []; next_code s = (r, t)\<rbrakk> \<Longrightarrow> lzw_inv t \<and> (case r of Inl e \<Rightarrow> e = bad_code | Inr _ \<Rightarrow> True)"
proof (induction s arbitrary: r t rule: next_code.induct)
  case (1 s)
  obtain g u where g: "getbits (code_bits s) s = (g, u)" by (cases "getbits (code_bits s) s")
  note iu = input_only_inv [OF getbits_input [OF g]]
  have u: "lzw_inv u" "stack u = []" using iu "1.prems" by simp_all
  consider "g = None" | code where "g = Some code" "code = 256 \<and> use_reset_code u"
    | code where "g = Some code" "\<not> (code = 256 \<and> use_reset_code u)" by (cases g) auto
  then show ?case
  proof cases
    case 1
    then show ?thesis using "1.prems" g u next_code.simps [of s] by auto
  next
    case (2 code)
    obtain ok v where v: "reset_section u = (ok, v)" by (cases "reset_section u")
    note sv = reset_section_ok [OF u(1) v]
    show ?thesis
    proof (cases ok)
      case True
      then have "next_code v = (r, t)" using "1.prems" g 2 v next_code.simps [of s] by simp
      from "1.IH" [OF g [symmetric] 2 v [symmetric] _ sv(1) _ this] show ?thesis using True sv(2) u(2) by simp
    next
      case False
      then show ?thesis using "1.prems" g 2 v sv next_code.simps [of s] by auto
    qed
  next
    case (3 code)
    then have a: "apply_code code u = (r, t)" using "1.prems" g next_code.simps [of s] by (auto split: if_splits)
    have "code < 2 ^ code_bits s" using getbits_small g 3(1) by blast
    moreover have "(2::nat) ^ code_bits s \<le> 2 ^ 16" using "1.prems"(1) by (intro power_increasing) (auto simp: lzw_inv_def width_ok_def)
    ultimately have small: "code < 65536" by simp
    show ?thesis
      using a apply_code_ok [OF u small] lzw_inv_enter [OF u(1) small] u(1)
      by (auto simp: bad_code_def split: if_splits)
  qed
qed

lemma fill_loop_ok:
  "\<lbrakk>lzw_inv s; fill_loop s = (r, t)\<rbrakk> \<Longrightarrow> lzw_inv t \<and> (case r of Inl e \<Rightarrow> e = bad_code | Inr _ \<Rightarrow> True)"
proof (induction s arbitrary: r t rule: fill_loop.induct)
  case (1 s)
  show ?case
  proof (cases "length (out s) < OUT_BLOCK_SIZE \<and> \<not> end_of_stream s")
    case False
    then show ?thesis using "1.prems" fill_loop.simps [of s] by auto
  next
    case go: True
    show ?thesis
    proof (cases "stack s")
      case (Cons b st)
      then show ?thesis using "1.IH"(3) [OF go Cons] "1.prems" go fill_loop.simps [of s] by simp
    next
      case Nil
      obtain x u where u: "next_code s = (x, u)" by (cases "next_code s")
      note ok = next_code_ok [OF "1.prems"(1) Nil u]
      consider e where "x = Inl e" | "x = Inr True" | "x = Inr False" by (cases x) auto
      then show ?thesis
      proof cases
        case 1
        then show ?thesis using "1.prems" go Nil u ok fill_loop.simps [of s] by auto
      next
        case 2
        then show ?thesis using "1.IH"(1) [OF go Nil u [symmetric] 2 refl] "1.prems" go Nil u ok fill_loop.simps [of s] by simp
      next
        case 3
        then show ?thesis using "1.IH"(2) [OF go Nil u [symmetric] 3 refl] "1.prems" go Nil u ok fill_loop.simps [of s] by simp
      qed
    qed
  qed
qed


lemma decoder_read_ok:
  "\<lbrakk>lzw_inv s; decoder_read n s = (r, t)\<rbrakk> \<Longrightarrow>
     lzw_inv t \<and> (case r of Inl e \<Rightarrow> e = bad_code | Inr bs \<Rightarrow> length bs \<le> n)"
proof (induction n s arbitrary: r t rule: decoder_read.induct)
  case (1 n s)
  consider "out_pos s < length (out s)" | "\<not> out_pos s < length (out s)" "end_of_stream s"
    | "\<not> out_pos s < length (out s)" "\<not> end_of_stream s" by blast
  then show ?case
  proof cases
    case 1
    then show ?thesis using "1.prems" decoder_read.simps [of n s] by (auto simp: Let_def)
  next
    case 2
    then show ?thesis using "1.prems" decoder_read.simps [of n s] by auto
  next
    case 3
    obtain x u where u: "fill_out_block s = (x, u)" by (cases "fill_out_block s")
    have ok: "lzw_inv u \<and> (case x of Inl e \<Rightarrow> e = bad_code | Inr _ \<Rightarrow> True)"
      using fill_loop_ok [of "s\<lparr>out := []\<rparr>"] u "1.prems"(1)
      by (auto simp: fill_out_block_def split: prod.splits sum.splits)
    show ?thesis
    proof (cases x)
      case (Inl e)
      then show ?thesis using "1.prems" 3 u ok decoder_read.simps [of n s] by auto
    next
      case (Inr v)
      then show ?thesis using "1.IH" [OF 3 u [symmetric] Inr] "1.prems" 3 u ok decoder_read.simps [of n s] by auto
    qed
  qed
qed

definition sound_log :: "(nat \<times> (io_error, bytes) result) list \<Rightarrow> decoder \<Rightarrow> bool" where
  "sound_log log d \<longleftrightarrow> lzw_inv d \<and>
     list_all (\<lambda>(n, r). case r of Inl e \<Rightarrow> e = bad_code | Inr bs \<Rightarrow> length bs \<le> n) log"

interpretation lzw_reads: logged_object decoder_read sound_log
proof
  fix log s n r t assume "sound_log log s" "decoder_read n s = (r, t)"
  then show "sound_log (log @ [(n, r)]) t" using decoder_read_ok [of s n r t] by (auto simp: sound_log_def split: sum.splits)
qed

lemma getbits_8: "header_bits s = Inr (v, t) \<Longrightarrow> v < 256 \<and> input_only s t"
  using getbits_small [of 8 s] getbits_input [of 8 s] by (fastforce simp: header_bits_def split: prod.splits option.splits)

lemma decoder_new_inv:
  assumes "decoder_new input = Inr d"
  shows "lzw_inv d"
proof -
  obtain s1 s2 s3 v1 v2 p where h: "header_bits (start_decoder input) = Inr (v1, s1)" "header_bits s1 = Inr (v2, s2)"
    "header_bits s2 = Inr (p, s3)" "p mod 32 \<le> 16" and n: "\<exists>b. next_code (init_tables p s3) = (Inr b, d)"
    using assms by (auto simp: decoder_new_def result_simps not_less split: if_splits prod.splits sum.splits)
  have s3: "input_only (start_decoder input) s3"
    using getbits_8 [OF h(1)] getbits_8 [OF h(2)] getbits_8 [OF h(3)] input_only_trans by blast
  have "prefix s3 = (\<lambda>_. 0)" "stack s3 = []" "oldcode s3 = None"
    by (subst s3 [unfolded input_only_def], simp add: start_decoder_def)+
  then have "lzw_inv (init_tables p s3)" "stack (init_tables p s3) = []"
    using h(4) by (auto simp: lzw_inv_def init_tables_def width_ok_def old_ok_def descending_def)
  then show ?thesis using n next_code_ok by blast
qed

text \<open>
  C28. Whatever the input, a decoder that accepted its header fails in one way only: a code
  that the dictionary cannot contain.  No read ever indexes outside the dictionary, and the
  expansion stack of 65300 bytes never overflows, since the strings of codes are at most
  65281 bytes long; and a read returns at most the bytes asked for.  In the model every
  read returns: the loops over codes, expansions and blocks are total functions.
\<close>

theorem unix_compress_only_bad_codes:
  assumes "decoder_new input = Inr d"
  shows "list_all (\<lambda>(n, r). case r of Inl e \<Rightarrow> e = bad_code | Inr bs \<Rightarrow> length bs \<le> n)
           (fst (run_calls decoder_read ns d))"
proof -
  have "sound_log [] d" using decoder_new_inv [OF assms] by (simp add: sound_log_def)
  from lzw_reads.run_from_start [OF this, of ns] show ?thesis by (simp add: sound_log_def)
qed


definition sample_stream :: "inner_event list" where
  "sample_stream = map Byte [0x1f, 0x9d, 0x09, 0x61, 0x00]"

lemma sample_stream_opens: "\<exists>d. decoder_new sample_stream = Inr d \<and> stack d = [97]"
  by (simp add: sample_stream_def decoder_new_def header_bits_def getbits_def fill_bits.simps start_decoder_def
      next_code.simps apply_code_def expand.simps finish_code_def push_stack_def add_entry_def widen_def
      init_tables_def STACK_CAPACITY_def bit_simps)

theorem unix_compress_only_bad_codes_witness:
  "\<exists>d. decoder_new sample_stream = Inr d \<and>
     list_all (\<lambda>(n, r). case r of Inl e \<Rightarrow> e = bad_code | Inr bs \<Rightarrow> length bs \<le> n) (fst (run_calls decoder_read [1, 5] d))"
  using sample_stream_opens unix_compress_only_bad_codes by blast

text \<open>
  The LZW specification: a table of strings that grows by the last string and the first byte
  of the current one, while there is room.
\<close>

section \<open>Refinement of the table of strings\<close>

type_synonym lzw_table = "bytes list \<times> bytes option"

definition lzw_step :: "nat \<Rightarrow> nat \<Rightarrow> lzw_table \<Rightarrow> (bytes \<times> lzw_table) option" where
  "lzw_step limit code st =
     (case st of (tbl, prev) \<Rightarrow>
      let word = (if code < length tbl then Some (tbl ! code)
                  else if code = length tbl \<and> length tbl < limit then map_option (\<lambda>w. w @ [hd w]) prev
                  else None)
      in case word of
           None \<Rightarrow> None
         | Some s \<Rightarrow>
             Some (s, case prev of
                        Some w \<Rightarrow> if length tbl < limit then tbl @ [w @ [hd s]] else tbl
                      | None \<Rightarrow> tbl, Some s))"

fun lzw_decode :: "nat \<Rightarrow> nat list \<Rightarrow> lzw_table \<Rightarrow> bytes option" where
  "lzw_decode limit [] st = Some []"
| "lzw_decode limit (code # codes) st =
     (case lzw_step limit code st of
        None \<Rightarrow> None
      | Some (s, st') \<Rightarrow> (case lzw_decode limit codes st' of None \<Rightarrow> None | Some bs \<Rightarrow> Some (s @ bs)))"

text \<open>The decoder fed with codes, the stack taken off after each.\<close>

fun feed :: "nat list \<Rightarrow> decoder \<Rightarrow> (io_error, bytes) result" where
  "feed [] d = Inr []"
| "feed (code # codes) d =
     (case apply_code code d of
        (Inl e, t) \<Rightarrow> Inl e
      | (Inr _, t) \<Rightarrow> and_then (feed codes (t\<lparr>stack := []\<rparr>)) (\<lambda>bs. Inr (stack t @ bs)))"

definition spell_in :: "decoder \<Rightarrow> nat \<Rightarrow> bytes" where
  "spell_in d = spell (suffix d) (prefix d)"

definition abs_table :: "decoder \<Rightarrow> lzw_table" where
  "abs_table d = (map (spell_in d) [0 ..< free_ent d], map_option (spell_in d) (oldcode d))"

definition clean :: "decoder \<Rightarrow> bool" where
  "clean d \<longleftrightarrow> (\<forall>old. oldcode d = Some old \<longrightarrow> old < free_ent d \<and> finbyte d = hd (spell_in d old))"

lemma spell_update: "c < k \<Longrightarrow> spell (suf(k := x)) (pre(k := y)) c = spell suf pre c"
proof (induction suf pre c rule: spell.induct)
  case (1 suf pre c)
  have same: "(pre(k := y)) c = pre c" "(suf(k := x)) c = suf c" using "1.prems" by simp_all
  have "pre c < c \<Longrightarrow> \<not> c < 256 \<Longrightarrow> spell (suf(k := x)) (pre(k := y)) (pre c) = spell suf pre (pre c)"
    using 1 less_trans by blast
  then show ?case unfolding spell.simps [of "suf(k := x)" "pre(k := y)" c] spell.simps [of suf pre c] same by simp
qed

lemma spell_new:
  "\<lbrakk>descending pre; 256 \<le> k; k < 65536; y < k\<rbrakk> \<Longrightarrow> spell (suf(k := x)) (pre(k := y)) k = spell suf pre y @ [x]"
  using spell_update [of y k suf x pre y] by (subst spell.simps) simp

lemma enter_fields:
  "stack ((widen (enter c f d))\<lparr>stack := st, oldcode := oc\<rparr>) = st"
  "oldcode ((widen (enter c f d))\<lparr>stack := st, oldcode := oc\<rparr>) = oc"
  "finbyte ((widen (enter c f d))\<lparr>stack := st, oldcode := oc\<rparr>) = f"
  "maxcode ((widen (enter c f d))\<lparr>stack := st, oldcode := oc\<rparr>) = maxcode d"
  "spell_in ((widen (enter c f d))\<lparr>stack := st, oldcode := oc\<rparr>) = spell_in (enter c f d)"
  "free_ent ((widen (enter c f d))\<lparr>stack := st, oldcode := oc\<rparr>) = free_ent (enter c f d)"
  by (auto simp: widen_def enter_def Let_def spell_in_def fun_eq_iff split: option.split)

lemma enter_abs:
  assumes inv: "lzw_inv d" and cl: "clean d"
  shows "map (spell_in (enter code fin d)) [0 ..< free_ent (enter code fin d)] =
    (case map_option (spell_in d) (oldcode d) of
       Some w \<Rightarrow> if free_ent d < maxcode d then map (spell_in d) [0 ..< free_ent d] @ [w @ [fin]]
                 else map (spell_in d) [0 ..< free_ent d]
     | None \<Rightarrow> map (spell_in d) [0 ..< free_ent d])"
proof (cases "\<exists>old. oldcode d = Some old \<and> free_ent d < maxcode d")
  case True
  then obtain old where old: "oldcode d = Some old" "free_ent d < maxcode d" by blast
  have e: "spell_in (enter code fin d) = spell ((suffix d)(free_ent d := fin)) ((prefix d)(free_ent d := old))"
    "free_ent (enter code fin d) = Suc (free_ent d)"
    using old by (simp_all add: enter_def spell_in_def)
  have "spell_in (enter code fin d) (free_ent d) = spell_in d old @ [fin]"
    unfolding e(1) unfolding spell_in_def using inv cl old lzw_inv_max [OF inv]
    by (intro spell_new) (auto simp: lzw_inv_def clean_def)
  moreover have "map (spell_in (enter code fin d)) [0 ..< free_ent d] = map (spell_in d) [0 ..< free_ent d]"
    unfolding e by (rule map_cong) (simp_all add: spell_update spell_in_def)
  ultimately show ?thesis using old e(2) by simp
next
  case False
  then have "spell_in (enter code fin d) = spell_in d" "free_ent (enter code fin d) = free_ent d"
    by (auto simp: enter_def spell_in_def Let_def split: option.split)
  then show ?thesis using False by (auto split: option.split)
qed

lemma apply_code_refines:
  assumes inv: "lzw_inv d" and cl: "clean d" and st: "stack d = []" and code: "code < 65536"
    and spec: "lzw_step (maxcode d) code (abs_table d) = Some (s, st')"
  shows "\<exists>t. apply_code code d = (Inr True, t) \<and> stack t = s \<and> abs_table t = st' \<and> clean t \<and> lzw_inv t \<and> maxcode t = maxcode d"
proof -
  have s: "s = output_of code d" "\<not> rejects code d" "\<not> (code = free_ent d \<and> maxcode d \<le> free_ent d)"
    using spec cl by (auto simp: lzw_step_def abs_table_def output_of_def rejects_def clean_def spell_in_def Let_def split: if_splits option.splits)
  let ?t = "(widen (enter code (hd s) d))\<lparr>stack := s, oldcode := Some code\<rparr>"
  have run: "apply_code code d = (Inr True, ?t)" using apply_code_ok [OF inv st code] s by simp
  have inv': "lzw_inv ?t" by (rule lzw_inv_enter [OF inv code s(2)])
  note ab = enter_abs [OF inv cl, of code "hd s"]
  have lt: "code < free_ent (enter code (hd s) d)"
    using s(2,3) by (auto simp: rejects_def enter_def Let_def split: option.split)
  have word: "spell_in (enter code (hd s) d) code = s"
  proof (cases "code < free_ent d")
    case True
    then show ?thesis using s(1)
      by (auto simp: enter_def Let_def spell_in_def output_of_def spell_update split: option.split)
  next
    case False
    then obtain old where "code = free_ent d" "oldcode d = Some old" "free_ent d < maxcode d" using s(2,3) by (auto simp: rejects_def)
    moreover from this have "s = spell_in d old @ [hd (spell_in d old)]" "hd s = hd (spell_in d old)"
      using s(1) cl inv spell_ne [of "prefix d" old "suffix d"]
      by (auto simp: output_of_def clean_def spell_in_def lzw_inv_def old_ok_def)
    ultimately show ?thesis using inv cl lzw_inv_max [OF inv]
      by (auto simp: enter_def spell_in_def clean_def lzw_inv_def intro!: trans [OF spell_new])
  qed
  have "abs_table ?t = st'"
    using spec ab word
    by (auto simp: abs_table_def enter_fields lzw_step_def Let_def split: option.splits if_splits)
  moreover have "clean ?t" using lt word by (simp add: clean_def enter_fields)
  ultimately show ?thesis using run inv' by (intro exI [of _ ?t]) (simp add: enter_fields)
qed


lemma feed_refines:
  "\<lbrakk>lzw_inv d; clean d; stack d = []; list_all (\<lambda>c. c < 65536) codes;
    lzw_decode (maxcode d) codes (abs_table d) = Some bs\<rbrakk> \<Longrightarrow> feed codes d = Inr bs"
proof (induction codes arbitrary: d bs)
  case (Cons code codes)
  from Cons.prems(5) obtain s st' bs' where st: "lzw_step (maxcode d) code (abs_table d) = Some (s, st')"
    "lzw_decode (maxcode d) codes st' = Some bs'" "bs = s @ bs'" by (auto split: option.splits)
  from apply_code_refines [OF Cons.prems(1-3) _ st(1)] Cons.prems(4) obtain t where
    t: "apply_code code d = (Inr True, t)" "stack t = s" "abs_table t = st'" "clean t" "lzw_inv t" "maxcode t = maxcode d"
    by auto
  let ?t = "t\<lparr>stack := []\<rparr>"
  have "clean ?t" "lzw_inv ?t" "abs_table ?t = st'" "maxcode ?t = maxcode d"
    using t by (simp_all add: clean_def abs_table_def spell_in_def)
  then have "feed codes ?t = Inr bs'" using Cons.IH [of ?t bs'] st(2) Cons.prems(4) by simp
  then show ?case using t(1,2) st(3) by simp
qed simp

text \<open>The table a stream starts with; with the reset flag, code 256 is taken and stands for nothing.\<close>

definition standard_table :: "bool \<Rightarrow> bytes list" where
  "standard_table reset = map (\<lambda>c. [of_nat c]) [0 ..< 256] @ (if reset then [[0, 0]] else [])"

lemma init_tables_ok:
  fixes p :: nat and input :: "inner_event list"
  assumes "p mod 32 \<le> 16"
  defines "d \<equiv> init_tables p (start_decoder input)"
  shows "lzw_inv d" "clean d" "stack d = []" "maxcode d = 2 ^ (p mod 32)" "abs_table d = (standard_table (bit p 7), None)"
proof -
  have small: "spell_in d c = [of_nat c]" if "c < 256" for c using that by (simp add: spell_in_def spell_small)
  have desc: "descending (prefix d)" by (auto simp: d_def init_tables_def start_decoder_def descending_def)
  have "spell_in d 256 = [0, 0]"
    unfolding spell_in_def using spell_entry [OF desc, of 256 "suffix d"]
    by (simp add: d_def init_tables_def start_decoder_def spell_small)
  moreover have "map (spell_in d) [0 ..< 256] = map (\<lambda>c. [of_nat c]) [0 ..< 256]" using small by (intro map_cong) auto
  moreover have "[0 ..< 257] = [0 ..< 256] @ [256 :: nat]" using upt_Suc_append [of 0 256] by simp
  moreover have "free_ent d = (if bit p 7 then 257 else 256)" "oldcode d = None"
    by (simp_all add: d_def init_tables_def start_decoder_def)
  ultimately show "abs_table d = (standard_table (bit p 7), None)"
    by (simp add: abs_table_def standard_table_def del: map_eq_conv)
  show "lzw_inv d" using assms(1) desc
    by (simp add: d_def init_tables_def start_decoder_def lzw_inv_def width_ok_def old_ok_def le_max_iff_disj)
  show "clean d" "stack d = []" "maxcode d = 2 ^ (p mod 32)"
    by (simp_all add: d_def init_tables_def start_decoder_def clean_def)
qed

text \<open>
  C23. Decompression implements LZW.  For every sequence of codes that the LZW specification
  decodes, starting from the standard table and growing it up to \<open>2 ^ maxbits\<close> strings, the
  decoder's prefix and suffix arrays and its expansion stack produce the same bytes,
  including codes that name the string being defined.
\<close>

theorem unix_compress_refines_lzw:
  assumes "p mod 32 \<le> 16" "list_all (\<lambda>c. c < 65536) codes"
    and "lzw_decode (2 ^ (p mod 32)) codes (standard_table (bit p 7), None) = Some bs"
  shows "feed codes (init_tables p (start_decoder input)) = Inr bs"
proof -
  note ok = init_tables_ok [OF assms(1), of input]
  show ?thesis by (rule feed_refines [OF ok(1-3) assms(2)]) (simp add: ok(4,5) assms(3))
qed

theorem unix_compress_refines_lzw_witness:
  "feed [97, 98, 256, 258] (init_tables 16 (start_decoder [])) = Inr [97, 98, 97, 98, 97, 98, 97]"
proof -
  have t: "standard_table False ! 97 = [97]" "standard_table False ! 98 = [98]" "length (standard_table False) = 256"
    by (simp_all add: standard_table_def)
  have b: "\<not> bit (16::nat) 7" by code_simp
  have "lzw_decode (2 ^ (16 mod 32)) [97, 98, 256, 258] (standard_table (bit (16::nat) 7), None) =
      Some [97, 98, 97, 98, 97, 98, 97]"
    using b t by (simp add: lzw_step_def nth_append)
  from unix_compress_refines_lzw [OF _ _ this] show ?thesis by simp
qed


section \<open>Bits, least significant first\<close>

definition byte_bits :: "u8 \<Rightarrow> bool list" where
  "byte_bits b = map (bit b) [0 ..< 8]"

text \<open>The bits a decoder over an unfailing source still has, and when its buffer holds no others.\<close>

definition bits_of :: "u8 list \<Rightarrow> decoder \<Rightarrow> bool list" where
  "bits_of bs d = map (bit (bit_buffer d)) [0 ..< bits_avail d] @ concat (map byte_bits bs)"

definition no_residue :: "decoder \<Rightarrow> bool" where
  "no_residue d \<longleftrightarrow> (\<forall>i \<ge> bits_avail d. \<not> bit (bit_buffer d) i)"

lemma map_bit_or_push:
  fixes w :: u32
  assumes "\<forall>i \<ge> k. \<not> bit w i" "k + 8 \<le> 32"
  shows "map (bit (w OR push_bit k (ucast b))) [0 ..< k + 8] = map (bit w) [0 ..< k] @ byte_bits (b :: u8)"
    "\<forall>i \<ge> k + 8. \<not> bit (w OR push_bit k (ucast b)) i"
proof -
  have b8: "\<not> bit b i" if "8 \<le> i" for i using that by (auto dest: bit_imp_le_length)
  show "map (bit (w OR push_bit k (ucast b))) [0 ..< k + 8] = map (bit w) [0 ..< k] @ byte_bits b"
    using assms by (intro nth_equalityI)
      (auto simp: byte_bits_def nth_append bit_or_iff bit_push_bit_iff bit_ucast_iff)
  show "\<forall>i \<ge> k + 8. \<not> bit (w OR push_bit k (ucast b)) i"
    using assms(1) b8 by (auto simp: bit_or_iff bit_push_bit_iff bit_ucast_iff)
qed

lemma fill_bits_bits:
  "\<lbrakk>inner s = map Byte bs; no_residue s; n \<le> 16; fill_bits n s = (ok, t)\<rbrakk> \<Longrightarrow>
     \<exists>cs. inner t = map Byte cs \<and> no_residue t \<and> bits_of cs t = bits_of bs s \<and>
       ok = (n \<le> length (bits_of bs s)) \<and> (ok \<longrightarrow> n \<le> bits_avail t) \<and> (\<not> ok \<longrightarrow> cs = [] \<and> bits_avail t < n)"
proof (induction n s arbitrary: bs rule: fill_bits.induct)
  case (1 n s)
  show ?case
  proof (cases "bits_avail s < n")
    case False
    then show ?thesis using "1.prems" fill_bits.simps [of n s] by (intro exI [of _ bs]) (auto simp: bits_of_def)
  next
    case True
    show ?thesis
    proof (cases bs)
      case Nil
      then show ?thesis using True "1.prems" fill_bits.simps [of n s]
        by (intro exI [of _ "[]"]) (auto simp: bits_of_def no_residue_def)
    next
      case (Cons b cs)
      let ?s = "s\<lparr>inner := map Byte cs, bit_buffer := bit_buffer s OR push_bit (bits_avail s) (ucast b),
                  bits_avail := bits_avail s + 8, bytes_in_section := bytes_in_section s + 1\<rparr>"
      have r: "(Some b, map Byte cs) = inner_read (inner s)" using "1.prems"(1) Cons by simp
      have nr: "\<forall>i \<ge> bits_avail s. \<not> bit (bit_buffer s) i" using "1.prems"(2) by (simp add: no_residue_def)
      have room: "bits_avail s + 8 \<le> 32" using True "1.prems"(3) by simp
      note mb = map_bit_or_push [OF nr room, of b]
      have same: "bits_of cs ?s = bits_of bs s" using mb(1) by (simp add: bits_of_def Cons)
      have "no_residue ?s" using mb(2) by (simp add: no_residue_def)
      moreover have "fill_bits n ?s = (ok, t)" using "1.prems"(4) True r [symmetric] fill_bits.simps [of n s] by simp
      ultimately show ?thesis using "1.IH" [OF True r refl, of cs] "1.prems"(3) same by simp
    qed
  qed
qed

text \<open>
  The bit reader.  On an unfailing source, as long as the buffer holds no stale bits,
  \<open>getbits n\<close> returns the next \<open>n\<close> bits of the stream read least significant bit first, keeps
  the rest, and reports the end exactly when fewer than \<open>n\<close> bits are left.
\<close>

theorem getbits_reads_lsb_first:
  assumes "inner s = map Byte bs" "no_residue s" "n \<le> 16" "getbits n s = (r, t)"
  shows "case r of
      None \<Rightarrow> length (bits_of bs s) < n
    | Some code \<Rightarrow> n \<le> length (bits_of bs s) \<and> code = horner_sum of_bool 2 (take n (bits_of bs s)) \<and>
        (\<exists>cs. inner t = map Byte cs \<and> no_residue t \<and> bits_of cs t = drop n (bits_of bs s))"
proof -
  obtain ok u where u: "fill_bits n s = (ok, u)" by (cases "fill_bits n s")
  from fill_bits_bits [OF assms(1-3) u] obtain cs where cs: "inner u = map Byte cs" "no_residue u"
    "bits_of cs u = bits_of bs s" "ok = (n \<le> length (bits_of bs s))" "ok \<longrightarrow> n \<le> bits_avail u" by blast
  show ?thesis
  proof (cases ok)
    case False
    then show ?thesis using assms(4) u cs(4) by (auto simp: getbits_def)
  next
    case True
    let ?t = "u\<lparr>bit_buffer := drop_bit n (bit_buffer u), bits_avail := bits_avail u - n\<rparr>"
    have r: "r = Some (unat (take_bit n (bit_buffer u)))" "t = ?t" using assms(4) u True by (auto simp: getbits_def)
    have n: "n \<le> bits_avail u" using cs(5) True by simp
    have pre: "take n (bits_of bs s) = map (bit (bit_buffer u)) [0 ..< n]"
      unfolding cs(3) [symmetric] unfolding bits_of_def using n by (simp add: take_map)
    have "unat (take_bit n (bit_buffer u)) = take_bit n (unat (bit_buffer u))" by (simp add: unsigned_take_bit_eq)
    also have "\<dots> = horner_sum of_bool 2 (map (bit (unat (bit_buffer u))) [0 ..< n])" by (simp add: horner_sum_bit_eq_take_bit)
    also have "map (bit (unat (bit_buffer u))) [0 ..< n] = map (bit (bit_buffer u)) [0 ..< n]"
      using assms(3) by (auto simp: bit_unsigned_iff)
    finally have code: "unat (take_bit n (bit_buffer u)) = horner_sum of_bool 2 (take n (bits_of bs s))" by (simp add: pre)
    have "bits_of cs ?t = drop n (bits_of cs u)"
      using n by (intro nth_equalityI) (auto simp: bits_of_def nth_append bit_drop_bit_eq add.commute)
    moreover have "no_residue ?t" using cs(2) n by (auto simp: no_residue_def bit_drop_bit_eq)
    ultimately show ?thesis using r code cs True by (auto intro!: exI [of _ cs])
  qed
qed


theorem getbits_reads_lsb_first_witness:
  "getbits 4 (start_decoder [Byte 0x35]) =
     (Some (horner_sum of_bool 2 (take 4 (bits_of [0x35] (start_decoder [Byte 0x35])))), snd (getbits 4 (start_decoder [Byte 0x35])))"
proof -
  let ?s = "start_decoder [Byte 0x35]"
  obtain r t where g: "getbits 4 ?s = (r, t)" by (cases "getbits 4 ?s")
  have i: "inner ?s = map Byte [0x35]" "no_residue ?s" by (simp_all add: start_decoder_def no_residue_def)
  have len: "length (bits_of [0x35] ?s) = 8" by (simp add: bits_of_def byte_bits_def start_decoder_def)
  show ?thesis using getbits_reads_lsb_first [OF i _ g] len g by (cases r) auto
qed

text \<open>
  Where the decoder departs from its comments.  A reset sets \<open>bits_avail\<close> to 0 to discard the
  rest of the byte, but keeps the bits in the buffer, so that they are or-ed into the next
  code; and a failing source reads like a source at its end.
\<close>

lemma reset_keeps_stale_bits:
  "fst (getbits 8 ((start_decoder [Byte 0x01])\<lparr>bit_buffer := 0x40\<rparr>)) = Some 0x41"
  by (simp add: getbits_def fill_bits.simps start_decoder_def take_bit_eq_mod)

lemma source_failure_is_end_of_data:
  "\<lbrakk>inner s = Failure # rest; bits_avail s < code_bits s\<rbrakk> \<Longrightarrow> fst (next_code s) = Inr False"
  by (simp add: next_code.simps getbits_def fill_bits.simps)

end
