(* ===== verification/Gitignore.thy ===== *)
theory Gitignore
  imports Archive_Path Host_FS
begin

text \<open>
  Rules of \<open>.gitignore\<close> files (\<open>crates/zmanager-core/src/gitignore.rs\<close>): parsing a line,
  matching a rule, the decision of a list of rules, and the test whether a later rule could
  re-include something below an ignored directory.  The matcher of path segments is the
  second instance of the wildcard contract.  Whitespace beyond ASCII is the parameter
  \<open>uspace\<close> (the White\_Space property of one character given as its UTF-8 bytes).
\<close>

section \<open>Rules\<close>

datatype manifest_file_type = MFile | MDirectory | MSymlink | MOther

datatype gitignore_polarity = Ignore | Include

datatype gitignore_scope = AnyScope | DirectoryScope

datatype gitignore_anchor = Anywhere | Anchored

record gitignore_rule =
  base_archive_path :: string
  pattern :: string
  polarity :: gitignore_polarity
  rule_scope :: gitignore_scope
  anchor :: gitignore_anchor

section \<open>Matching\<close>

definition segment_pattern_matches :: "string \<Rightarrow> string \<Rightarrow> bool" where
  "segment_pattern_matches value pat = wildcard_matches pat value"

definition is_doublestar :: "string \<Rightarrow> bool" where
  "is_doublestar p \<longleftrightarrow> p = ''**''"

definition path_segments_match :: "string list \<Rightarrow> string list \<Rightarrow> bool" where
  "path_segments_match pat path =
     wildcard_matches_custom pat path is_doublestar (\<lambda>p v. segment_pattern_matches v p)"

definition split_path_segments :: "string \<Rightarrow> string list" where
  "split_path_segments path = filter (\<lambda>segment. segment \<noteq> '''') (split_on (CHR ''/'') path)"

definition path_pattern_matches :: "string \<Rightarrow> string \<Rightarrow> bool" where
  "path_pattern_matches path pat = path_segments_match (split_path_segments pat) (split_path_segments path)"

definition strictly_below_text :: "string \<Rightarrow> string \<Rightarrow> bool" where
  "strictly_below_text path ancestor =
     (case strip_prefix ancestor path of None \<Rightarrow> False | Some rest \<Rightarrow> starts_with rest ''/'')"

definition path_pattern_matches_or_contains_descendant :: "string \<Rightarrow> string \<Rightarrow> bool" where
  "path_pattern_matches_or_contains_descendant path pat \<longleftrightarrow>
     path_pattern_matches path pat \<or> strictly_below_text path pat"

definition relative_archive_path :: "string \<Rightarrow> string \<Rightarrow> string option" where
  "relative_archive_path base path =
     (if path = base then Some '''' else case strip_prefix base path of None \<Rightarrow> None | Some rest \<Rightarrow> strip_prefix ''/'' rest)"

definition is_anchored_or_path_pattern :: "gitignore_rule \<Rightarrow> bool" where
  "is_anchored_or_path_pattern self \<longleftrightarrow> anchor self = Anchored \<or> CHR ''/'' \<in> set (pattern self)"

definition any_segment_matches :: "string \<Rightarrow> string \<Rightarrow> bool" where
  "any_segment_matches relative_path pat =
     list_ex (\<lambda>segment. segment_pattern_matches segment pat) (split_on (CHR ''/'') relative_path)"

definition matches_directory :: "gitignore_rule \<Rightarrow> string \<Rightarrow> bool" where
  "matches_directory self relative_path =
     (if is_anchored_or_path_pattern self
      then path_pattern_matches_or_contains_descendant relative_path (pattern self)
      else any_segment_matches relative_path (pattern self))"

definition rule_matches :: "gitignore_rule \<Rightarrow> string \<Rightarrow> manifest_file_type \<Rightarrow> bool" where
  "rule_matches self archive_path file_type =
     (case relative_archive_path (base_archive_path self) archive_path of
        None \<Rightarrow> False
      | Some relative_path \<Rightarrow>
          if relative_path = '''' then False
          else if rule_scope self = DirectoryScope then matches_directory self relative_path
          else if is_anchored_or_path_pattern self
          then path_pattern_matches_or_contains_descendant relative_path (pattern self)
          else any_segment_matches relative_path (pattern self)
               \<or> file_type = MDirectory \<and> segment_pattern_matches relative_path (pattern self))"

definition could_include_below :: "gitignore_rule \<Rightarrow> string \<Rightarrow> bool" where
  "could_include_below self archive_path =
     (if polarity self \<noteq> Include then False
      else case relative_archive_path (base_archive_path self) archive_path of
             None \<Rightarrow> False
           | Some relative_path \<Rightarrow>
               if relative_path = '''' \<or> \<not> is_anchored_or_path_pattern self then True
               else starts_with (pattern self) (relative_path @ ''/''))"

definition gitignore_decision :: "string \<Rightarrow> manifest_file_type \<Rightarrow> gitignore_rule list \<Rightarrow> (bool \<times> nat) option" where
  "gitignore_decision archive_path file_type rules =
     (let hits = map (\<lambda>(index, rule). (polarity rule = Ignore, index))
                   (filter (\<lambda>(index, rule). rule_matches rule archive_path file_type) (enumerate 0 rules))
      in if hits = [] then None else Some (last hits))"

definition gitignore_has_later_negated_descendant :: "string \<Rightarrow> gitignore_rule list \<Rightarrow> nat \<Rightarrow> bool" where
  "gitignore_has_later_negated_descendant archive_path rules rule_index =
     list_ex (\<lambda>rule. could_include_below rule archive_path) (drop (rule_index + 1) rules)"

section \<open>Parsing\<close>

definition char_is_space :: "(string \<Rightarrow> bool) \<Rightarrow> string \<Rightarrow> bool" where
  "char_is_space uspace g =
     (case g of
        [c] \<Rightarrow> if is_ascii c then byte_val c = 32 \<or> 9 \<le> byte_val c \<and> byte_val c \<le> 13 else uspace g
      | _ \<Rightarrow> uspace g)"

definition trim_start :: "(string \<Rightarrow> bool) \<Rightarrow> string \<Rightarrow> string" where
  "trim_start uspace s = concat (dropWhile (char_is_space uspace) (utf8_chars s))"

definition trim_end :: "(string \<Rightarrow> bool) \<Rightarrow> string \<Rightarrow> string" where
  "trim_end uspace s = concat (rev (dropWhile (char_is_space uspace) (rev (utf8_chars s))))"

definition trim :: "(string \<Rightarrow> bool) \<Rightarrow> string \<Rightarrow> string" where
  "trim uspace s = trim_end uspace (trim_start uspace s)"

definition parse_gitignore_rule :: "(string \<Rightarrow> bool) \<Rightarrow> string \<Rightarrow> string \<Rightarrow> gitignore_rule option" where
  "parse_gitignore_rule uspace line base =
     (let pat = trim uspace line in
      if pat = '''' \<or> starts_with pat ''#'' then None
      else
        let negated = starts_with pat ''!'';
            pat = (if negated then trim_start uspace (tl pat) else pat)
        in if pat = '''' then None
           else
             let scope = (if ends_with pat ''/'' then DirectoryScope else AnyScope);
                 pat = trim_end_matches (CHR ''/'') pat;
                 anch = (if starts_with pat ''/'' then Anchored else Anywhere);
                 pat = trim_start_matches (CHR ''/'') pat
             in if pat = '''' then None
                else Some \<lparr>base_archive_path = base, pattern = pat,
                           polarity = (if negated then Include else Ignore), rule_scope = scope, anchor = anch\<rparr>)"

text \<open>\<open>str::lines\<close>: a line ends at a newline, a carriage return before it goes too.\<close>

definition strip_cr :: "string \<Rightarrow> string" where
  "strip_cr l = (if ends_with l [CHR 0x0D] then butlast l else l)"

definition text_lines :: "string \<Rightarrow> string list" where
  "text_lines s =
     (let parts = split_on (CHR 0x0A) s
      in map strip_cr (butlast parts) @ (if last parts = '''' then [] else [last parts]))"

record manifest_warning =
  warning_path :: path
  warning_message :: string

definition read_gitignore_rules ::
  "(string \<Rightarrow> bool) \<Rightarrow> (path \<Rightarrow> (io_error, string) result) \<Rightarrow> path \<Rightarrow> string \<Rightarrow> manifest_warning list
     \<Rightarrow> gitignore_rule list \<times> manifest_warning list" where
  "read_gitignore_rules uspace read_to_string directory base warnings =
     (let gitignore_path = path_join directory (path_of_string ''.gitignore'') in
      case read_to_string gitignore_path of
        Inl error \<Rightarrow>
          if kind error = NotFound then ([], warnings)
          else ([], warnings @ [\<lparr>warning_path = gitignore_path,
                                 warning_message = ''failed to read .gitignore: '' @ message error\<rparr>])
      | Inr contents \<Rightarrow>
          (concat (map (\<lambda>line. case parse_gitignore_rule uspace line base of None \<Rightarrow> [] | Some r \<Rightarrow> [r])
                    (text_lines contents)), warnings))"

section \<open>What a rule matches\<close>

interpretation path_segments: glob_tokens is_doublestar "\<lambda>p v. segment_pattern_matches v p" .

text \<open>A path against a path pattern, segment by segment.\<close>

definition glob_text :: "string \<Rightarrow> string \<Rightarrow> bool" where
  "glob_text pat s = glob is_star byte_matches pat s"

definition glob_path :: "string \<Rightarrow> string \<Rightarrow> bool" where
  "glob_path pat path = glob is_doublestar glob_text (split_path_segments pat) (split_path_segments path)"

lemma segment_pattern_matches_glob: "segment_pattern_matches value pat \<longleftrightarrow> glob_text pat value"
  by (simp add: segment_pattern_matches_def wildcard_matches_glob glob_text_def)

lemma path_pattern_matches_glob: "path_pattern_matches path pat \<longleftrightarrow> glob_path pat path"
  unfolding path_pattern_matches_def path_segments_match_def glob_path_def
    path_segments.wildcard_matches_custom_glob by (simp add: segment_pattern_matches_glob)

lemma relative_archive_path_iff:
  "relative_archive_path base path = Some rel \<longleftrightarrow> (if path = base then rel = '''' else path = base @ ''/'' @ rel)"
  by (auto simp: relative_archive_path_def strip_prefix_Some split: option.splits)

lemma strictly_below_text_iff: "strictly_below_text path ancestor \<longleftrightarrow> (\<exists>rest. path = ancestor @ ''/'' @ rest)"
  by (auto simp: strictly_below_text_def strip_prefix_def starts_with_iff)



section \<open>The decision\<close>

lemma last_hit:
  "(let hits = filter P [0 ..< n] in if hits = [] then None else Some (last hits)) = Some i \<longleftrightarrow>
     i < n \<and> P i \<and> (\<forall>j. i < j \<and> j < n \<longrightarrow> \<not> P j)"
proof (induction n)
  case (Suc n)
  then show ?case by (auto simp: Let_def less_Suc_eq split: if_splits)
qed simp

lemma hits_enumerate:
  "filter (\<lambda>(i, x). P i x) (enumerate 0 xs) = map (\<lambda>i. (i, xs ! i)) (filter (\<lambda>i. P i (xs ! i)) [0 ..< length xs])"
proof (induction xs rule: rev_induct)
  case (snoc x xs)
  have "filter (\<lambda>i. P i ((xs @ [x]) ! i)) [0 ..< length xs] = filter (\<lambda>i. P i (xs ! i)) [0 ..< length xs]"
    by (rule filter_cong) (auto simp: nth_append)
  moreover have "map (\<lambda>i. (i, (xs @ [x]) ! i)) (filter (\<lambda>i. P i (xs ! i)) [0 ..< length xs]) =
      map (\<lambda>i. (i, xs ! i)) (filter (\<lambda>i. P i (xs ! i)) [0 ..< length xs])"
    by (rule map_cong) (auto simp: nth_append)
  ultimately show ?case using snoc by (simp add: enumerate_append_eq)
qed simp

text \<open>
  The last matching rule decides: a decision names the greatest index of a rule that
  matches the path, together with its polarity, and there is no decision exactly when no rule
  matches.
\<close>

theorem gitignore_last_match_wins:
  "gitignore_decision path file_type rules =
     (if list_ex (\<lambda>r. rule_matches r path file_type) rules
      then let i = Max {i. i < length rules \<and> rule_matches (rules ! i) path file_type}
           in Some (polarity (rules ! i) = Ignore, i)
      else None)"
proof -
  let ?P = "\<lambda>i. rule_matches (rules ! i) path file_type"
  let ?hits = "filter ?P [0 ..< length rules]"
  have d: "gitignore_decision path file_type rules =
      (if ?hits = [] then None else Some (polarity (rules ! last ?hits) = Ignore, last ?hits))"
    using hits_enumerate [of "\<lambda>i r. rule_matches r path file_type" rules]
    by (simp add: gitignore_decision_def Let_def last_map)
  have ex: "list_ex (\<lambda>r. rule_matches r path file_type) rules \<longleftrightarrow> ?hits \<noteq> []"
    by (auto simp: list_ex_length filter_empty_conv)
  show ?thesis
  proof (cases "?hits = []")
    case False
    then have "(let hits = ?hits in if hits = [] then None else Some (last hits)) = Some (last ?hits)"
      unfolding Let_def by (rule if_not_P)
    then have l: "last ?hits < length rules \<and> ?P (last ?hits) \<and> (\<forall>j. last ?hits < j \<and> j < length rules \<longrightarrow> \<not> ?P j)"
      by (rule last_hit [THEN iffD1])
    have "Max {i. i < length rules \<and> ?P i} = last ?hits"
    proof (rule Max_eqI)
      fix j assume "j \<in> {i. i < length rules \<and> ?P i}"
      then show "j \<le> last ?hits" using l not_less by blast
    next
      show "finite {i. i < length rules \<and> ?P i}" by simp
    next
      show "last ?hits \<in> {i. i < length rules \<and> ?P i}" by (intro CollectI conjI) (rule l [THEN conjunct1], rule l [THEN conjunct2, THEN conjunct1])
    qed
    then show ?thesis unfolding d ex Let_def using False by (simp only: if_False if_True simp_thms)
  next
    case True
    then show ?thesis unfolding d ex by (simp only: if_True if_False simp_thms)
  qed
qed

text \<open>
  A rule with a trailing slash is stored with the scope of directories, but its match does not
  look at the file type: it ignores a regular file of that name as well.
\<close>

lemma directory_rule_matches_files:
  "rule_scope rule = DirectoryScope \<Longrightarrow> rule_matches rule path MFile = rule_matches rule path MDirectory"
  by (simp add: rule_matches_def split: option.split)

lemma directory_rule_ignores_file:
  "(case parse_gitignore_rule (\<lambda>_. False) ''build/'' ''p'' of
      None \<Rightarrow> False | Some rule \<Rightarrow> gitignore_decision ''p/build'' MFile [rule] = Some (True, 0))"
  by code_simp

text \<open>
  Below a directory ignored by an anchored pattern with a wildcard, the pattern itself no
  longer matches, so once a later negated rule makes the walk enter the directory, everything
  in it is taken.
\<close>

lemma anchored_wildcard_leaks_siblings:
  "(let rules = concat (map (\<lambda>l. case parse_gitignore_rule (\<lambda>_. False) l ''p'' of None \<Rightarrow> [] | Some r \<Rightarrow> [r])
                  [''/a*'', ''!/abc/keep''])
    in gitignore_decision ''p/abc'' MDirectory rules = Some (True, 0) \<and>
       gitignore_has_later_negated_descendant ''p/abc'' rules 0 \<and>
       gitignore_decision ''p/abc/other'' MFile rules = None)"
  by code_simp

section \<open>Printing and parsing a rule\<close>

definition render_rule :: "gitignore_rule \<Rightarrow> string" where
  "render_rule r =
     (if polarity r = Include then ''!'' else '''') @ (if anchor r = Anchored then ''/'' else '''') @ pattern r
     @ (if rule_scope r = DirectoryScope then ''/'' else '''')"

definition visible :: "char \<Rightarrow> bool" where
  "visible c \<longleftrightarrow> 32 < byte_val c \<and> byte_val c < 127"

text \<open>A pattern as parsing leaves it: not empty, no slash and nothing invisible at its ends, and
  no leading \<open>#\<close> or \<open>!\<close> that would read as a comment or as a negation.\<close>

definition printable_rule :: "gitignore_rule \<Rightarrow> bool" where
  "printable_rule r \<longleftrightarrow> pattern r \<noteq> '''' \<and> hd (pattern r) \<noteq> CHR ''/'' \<and> last (pattern r) \<noteq> CHR ''/'' \<and>
     visible (hd (pattern r)) \<and> visible (last (pattern r)) \<and> hd (pattern r) \<noteq> CHR ''#'' \<and> hd (pattern r) \<noteq> CHR ''!''"

lemma visible_ascii: "visible c \<Longrightarrow> is_ascii c \<and> \<not> is_continuation c"
  by (simp add: visible_def is_ascii_def is_continuation_def)

lemma utf8_chars_concat: "concat (utf8_chars s) = s"
  by (induction s) (auto split: list.splits if_splits)

lemma utf8_chars_visible_hd:
  assumes "visible c"
  shows "utf8_chars (c # s) = [c] # utf8_chars s"
  using visible_ascii [OF assms] by (cases "utf8_chars s") auto

lemma utf8_chars_visible_last:
  assumes "visible c"
  shows "utf8_chars (s @ [c]) = utf8_chars s @ [[c]]"
  using utf8_chars_cut [of c s "[]"] visible_ascii [OF assms] by simp

lemma visible_not_space: "visible c \<Longrightarrow> \<not> char_is_space uspace [c]"
  using visible_ascii [of c] by (auto simp: char_is_space_def visible_def)

lemma trim_start_visible: "s \<noteq> [] \<Longrightarrow> visible (hd s) \<Longrightarrow> trim_start uspace s = s"
  using visible_not_space utf8_chars_visible_hd [of "hd s" "tl s"] utf8_chars_concat [of s]
  by (cases s) (auto simp: trim_start_def)

lemma trim_end_visible: "s \<noteq> [] \<Longrightarrow> visible (last s) \<Longrightarrow> trim_end uspace s = s"
  using visible_not_space utf8_chars_visible_last [of "last s" "butlast s"] utf8_chars_concat [of s]
  by (cases s rule: rev_cases) (auto simp: trim_end_def utf8_chars_concat)


lemma trim_visible: "s \<noteq> [] \<Longrightarrow> visible (hd s) \<Longrightarrow> visible (last s) \<Longrightarrow> trim uspace s = s"
  by (simp add: trim_def trim_start_visible trim_end_visible)

text \<open>
  C40. Printing a rule and parsing the line gives the rule back, for every pattern that does
  not begin or end with a slash, a blank or an invisible character, nor begins like a comment
  or a negation: polarity, anchoring and directory scope are read from the right places.
\<close>

theorem gitignore_parse_render:
  assumes "printable_rule r"
  shows "parse_gitignore_rule uspace (render_rule r) (base_archive_path r) = Some r"
proof -
  let ?p = "pattern r" and ?d = "if rule_scope r = DirectoryScope then ''/'' else ''''"
  let ?a = "if anchor r = Anchored then ''/'' else ''''"
  have p: "?p \<noteq> []" "hd ?p \<noteq> CHR ''/''" "last ?p \<noteq> CHR ''/''" "visible (hd ?p)" "visible (last ?p)"
    "hd ?p \<noteq> CHR ''#''" "hd ?p \<noteq> CHR ''!''" using assms by (simp_all add: printable_rule_def)
  obtain c cs where c: "?p = c # cs" using p(1) by (cases ?p) auto
  obtain ds e where e: "?p = ds @ [e]" using p(1) by (cases ?p rule: rev_cases) auto
  have vs: "visible (CHR ''/'')" "visible (CHR ''!'')" by code_simp+
  let ?body = "?a @ ?p @ ?d"
  have body: "?body \<noteq> []" "visible (hd ?body)" "visible (last ?body)" "hd ?body \<noteq> CHR ''#''" "hd ?body \<noteq> CHR ''!''"
    using p vs by (auto simp: c split: if_splits)
  have "trim uspace (render_rule r) = render_rule r"
    using body vs by (intro trim_visible) (simp_all add: render_rule_def)
  moreover have "trim_start uspace ?body = ?body" by (rule trim_start_visible [OF body(1,2)])
  moreover have "trim_end_matches (CHR ''/'') ?body = ?a @ ?p"
    using p(3) by (simp add: e trim_end_matches_def)
  moreover have "trim_start_matches (CHR ''/'') (?a @ ?p) = ?p" using p(2) by (simp add: c trim_start_matches_def)
  moreover have "ends_with ?body ''/'' \<longleftrightarrow> rule_scope r = DirectoryScope"
    using p(3) by (simp add: e ends_with_def starts_with_def)
  moreover have "starts_with (?a @ ?p) ''/'' \<longleftrightarrow> anchor r = Anchored" using p(2) by (simp add: c starts_with_def)
  moreover have "starts_with (render_rule r) ''!'' \<longleftrightarrow> polarity r = Include" "\<not> starts_with (render_rule r) ''#''"
    using body by (cases ?body; simp add: render_rule_def starts_with_def)+
  ultimately show ?thesis
    using body(1) p(1)
    by (cases r; cases "polarity r"; cases "rule_scope r"; cases "anchor r") (simp_all add: parse_gitignore_rule_def Let_def render_rule_def)
qed

theorem gitignore_parse_render_witness:
  "parse_gitignore_rule (\<lambda>_. False) ''!/src/*.rs'' ''p'' =
     Some \<lparr>base_archive_path = ''p'', pattern = ''src/*.rs'', polarity = Include, rule_scope = AnyScope, anchor = Anchored\<rparr>"
proof -
  let ?r = "\<lparr>base_archive_path = ''p'', pattern = ''src/*.rs'', polarity = Include, rule_scope = AnyScope, anchor = Anchored\<rparr>"
  have "printable_rule ?r" by code_simp
  from gitignore_parse_render [OF this, of "\<lambda>_. False"] show ?thesis by (simp add: render_rule_def)
qed

end
