(* ===== verification/Rust_Str.thy ===== *)
theory Rust_Str
  imports Prelude "HOL-Library.Char_ord" "HOL-Library.List_Lexorder"
begin

text \<open>
  What the code uses of Rust's strings beyond the prelude: \<open>String::from_utf8_lossy\<close> (and so
  \<open>OsStr::to_string_lossy\<close>) on arbitrary bytes, and the order of \<open>str\<close>, which is the
  lexicographic order of the bytes (\<open>Char_ord\<close> and \<open>List_Lexorder\<close>).
\<close>

section \<open>Lossy decoding\<close>

definition byte_in :: "char \<Rightarrow> nat \<Rightarrow> nat \<Rightarrow> bool" where
  "byte_in c lo hi \<longleftrightarrow> lo \<le> of_char c \<and> of_char c \<le> hi"

text \<open>The number of bytes a leading byte announces, and the range of its second byte.\<close>

definition utf8_width :: "char \<Rightarrow> nat" where
  "utf8_width c =
     (if byte_in c 0 0x7F then 1 else if byte_in c 0xC2 0xDF then 2
      else if byte_in c 0xE0 0xEF then 3 else if byte_in c 0xF0 0xF4 then 4 else 0)"

definition second_byte_ok :: "char \<Rightarrow> char \<Rightarrow> bool" where
  "second_byte_ok lead c =
     (if of_char lead = (0xE0 :: nat) then byte_in c 0xA0 0xBF
      else if of_char lead = (0xED :: nat) then byte_in c 0x80 0x9F
      else if of_char lead = (0xF0 :: nat) then byte_in c 0x90 0xBF
      else if of_char lead = (0xF4 :: nat) then byte_in c 0x80 0x8F
      else byte_in c 0x80 0xBF)"

text \<open>How many of the bytes after the lead form a prefix of a valid sequence.\<close>

fun good_tail :: "nat \<Rightarrow> char \<Rightarrow> string \<Rightarrow> nat" where
  "good_tail need lead [] = 0"
| "good_tail need lead (c # cs) =
     (if need = 0 \<or> \<not> second_byte_ok lead c then 0
      else 1 + length (takeWhile (\<lambda>d. byte_in d 0x80 0xBF) (take (need - 1) cs)))"

lemma good_tail_le: "good_tail need lead s \<le> length s"
  by (cases s) (auto intro: order_trans [OF length_takeWhile_le])

definition REPLACEMENT_CHARACTER :: string where
  "REPLACEMENT_CHARACTER = [CHR 0xEF, CHR 0xBF, CHR 0xBD]"

function from_utf8_lossy :: "string \<Rightarrow> string" where
  "from_utf8_lossy [] = []"
| "from_utf8_lossy (c # cs) =
     (let n = utf8_width c; k = good_tail (n - 1) c cs
      in (if n \<noteq> 0 \<and> k = n - 1 then c # take k cs else REPLACEMENT_CHARACTER)
         @ from_utf8_lossy (drop k cs))"
  by pat_completeness auto
termination by (relation "measure length") auto

lemma from_utf8_lossy_ascii: "\<forall>c \<in> set s. byte_in c 0 0x7F \<Longrightarrow> from_utf8_lossy s = s"
proof (induction s)
  case (Cons c s)
  have "good_tail 0 c s = 0" by (cases s) auto
  then show ?case using Cons by (simp add: utf8_width_def)
qed simp

lemma REPLACEMENT_CHARACTER_bytes: "c \<in> set REPLACEMENT_CHARACTER \<Longrightarrow> byte_in c 0x80 0xFF"
  by (auto simp: REPLACEMENT_CHARACTER_def byte_in_def)

text \<open>Every byte of the result is a byte of the input or of the replacement character, so an
  ASCII byte that is absent stays absent.\<close>

lemma from_utf8_lossy_set: "set (from_utf8_lossy s) \<subseteq> set s \<union> set REPLACEMENT_CHARACTER"
proof (induction s rule: from_utf8_lossy.induct)
  case (2 c cs)
  let ?k = "good_tail (utf8_width c - 1) c cs"
  have "set (from_utf8_lossy (drop ?k cs)) \<subseteq> set cs \<union> set REPLACEMENT_CHARACTER"
    using 2 [OF refl refl] set_drop_subset [of ?k cs] by blast
  then show ?case by (auto simp: Let_def dest: in_set_takeD)
qed simp

lemma from_utf8_lossy_no_slash: "CHR ''/'' \<notin> set s \<Longrightarrow> CHR ''/'' \<notin> set (from_utf8_lossy s)"
  using from_utf8_lossy_set [of s] by (auto simp: REPLACEMENT_CHARACTER_def)

section \<open>Valid UTF-8\<close>

function is_utf8 :: "string \<Rightarrow> bool" where
  "is_utf8 [] = True"
| "is_utf8 (c # cs) =
     (let n = utf8_width c; k = good_tail (n - 1) c cs in n \<noteq> 0 \<and> k = n - 1 \<and> is_utf8 (drop k cs))"
  by pat_completeness auto
termination by (relation "measure length") auto

text \<open>\<open>OsStr::to_str\<close>\<close>

definition to_str :: "string \<Rightarrow> string option" where
  "to_str s = (if is_utf8 s then Some s else None)"

lemma is_utf8_ascii: "\<forall>c \<in> set s. byte_in c 0 0x7F \<Longrightarrow> is_utf8 s"
proof (induction s)
  case (Cons c s)
  have "good_tail 0 c s = 0" by (cases s) auto
  then show ?case using Cons by (simp add: utf8_width_def)
qed simp

lemma from_utf8_lossy_valid: "is_utf8 s \<Longrightarrow> from_utf8_lossy s = s"
proof (induction s rule: is_utf8.induct)
  case (2 c cs)
  let ?k = "good_tail (utf8_width c - 1) c cs"
  have u: "utf8_width c \<noteq> 0" "?k = utf8_width c - 1" "is_utf8 (drop ?k cs)" using 2(2) by (auto simp: Let_def)
  have "from_utf8_lossy (drop ?k cs) = drop ?k cs" by (rule 2(1) [OF refl refl u(3)])
  then show ?case using u(1,2) by (simp add: Let_def)
qed simp

end
