(* ===== verification/Manifest.thy ===== *)
theory Manifest
  imports Gitignore Rust_Str "HOL-Library.Multiset"
begin

text \<open>
  Planning an archive (\<open>crates/zmanager-core/src/manifest.rs\<close>): the walk over the source
  tree with its exclusion rules, the entry of each item, the totals, the collision warnings
  and the sorted manifest.  The source tree is a record of the file-system calls the planner
  makes; each is a total function of the path, and nothing is assumed of them.  The rules of
  the \<open>.gitignore\<close> files and the directories in progress are the walk's own mutable vectors
  and are part of its state.
\<close>

section \<open>Data\<close>

record src_metadata =
  meta_kind :: file_kind
  meta_len :: u64
  meta_modified :: "nat option"
  meta_readonly :: bool
  meta_mode :: u32

record permission_snapshot =
  readonly :: bool
  unix_mode :: "u32 option"

record manifest_entry =
  archive_path :: string
  source_path :: path
  file_type :: manifest_file_type
  entry_size :: u64
  modified :: "nat option"
  permissions :: permission_snapshot
  symlink_target :: "path option"

record excluded_entry =
  excluded_path :: string
  excluded_source :: path
  reason :: string
  excluded_size :: u64

datatype exclusion_profile = Minimal | CleanSource | Unrestricted

record plan_options =
  exclusion_profile :: exclusion_profile
  respect_gitignore :: bool
  exclude_names :: "string list"
  exclude_archive_paths :: "string list"
  include_archive_paths :: "string list"
  follow_symlinks :: bool

definition default_options :: plan_options where
  "default_options =
     \<lparr>exclusion_profile = Minimal, respect_gitignore = False, exclude_names = [], exclude_archive_paths = [],
      include_archive_paths = [], follow_symlinks = False\<rparr>"

definition clean_source :: plan_options where
  "clean_source = default_options\<lparr>exclusion_profile := CleanSource, respect_gitignore := True\<rparr>"

datatype plan_error =
    MissingFileName path
  | MetadataError path io_error
  | ReadDirError path io_error

record archive_manifest =
  manifest_root :: path
  manifest_entries :: "manifest_entry list"
  manifest_total_bytes :: u64
  manifest_excluded :: "excluded_entry list"
  manifest_excluded_bytes :: u64
  manifest_warnings :: "manifest_warning list"

definition included_count :: "archive_manifest \<Rightarrow> nat" where
  "included_count m = length (manifest_entries m)"

definition excluded_count :: "archive_manifest \<Rightarrow> nat" where
  "excluded_count m = length (manifest_excluded m)"

definition summary :: "archive_manifest \<Rightarrow> string" where
  "summary m = ''planned '' @ decimal (included_count m) @ '' entries, '' @ decimal (unat (manifest_total_bytes m))
     @ '' bytes, '' @ decimal (excluded_count m) @ '' excluded, '' @ decimal (length (manifest_warnings m)) @ '' warnings''"

text \<open>The calls to the operating system.  \<open>read_dir\<close> is \<open>fs::read_dir\<close> collected: the names of
  the children or the first error.\<close>

record source_tree =
  fs_metadata :: "path \<Rightarrow> (io_error, src_metadata) result"
  fs_symlink_metadata :: "path \<Rightarrow> (io_error, src_metadata) result"
  fs_canonicalize :: "path \<Rightarrow> (io_error, path) result"
  fs_read_dir :: "path \<Rightarrow> (io_error, string list) result"
  fs_read_link :: "path \<Rightarrow> (io_error, path) result"
  fs_read_to_string :: "path \<Rightarrow> (io_error, string) result"

text \<open>\<open>ManifestPlanner\<close> with the two vectors that \<open>walk\<close> borrows mutably.\<close>

record walk_state =
  entries :: "manifest_entry list"
  excluded_entries :: "excluded_entry list"
  warnings :: "manifest_warning list"
  total_bytes :: u64
  excluded_bytes :: u64
  gitignore_rules :: "gitignore_rule list"
  active_dirs :: "path list"

section \<open>Exclusion\<close>

definition path_matches_or_is_descendant :: "string \<Rightarrow> string \<Rightarrow> bool" where
  "path_matches_or_is_descendant path include_path \<longleftrightarrow>
     path = include_path \<or> strictly_below_text path include_path"

definition is_explicitly_included :: "plan_options \<Rightarrow> string \<Rightarrow> bool" where
  "is_explicitly_included options path =
     list_ex (\<lambda>included. path_matches_or_is_descendant path included) (include_archive_paths options)"

definition has_explicit_include_descendant :: "plan_options \<Rightarrow> string \<Rightarrow> bool" where
  "has_explicit_include_descendant options path =
     list_ex (\<lambda>included. strictly_below_text included path) (include_archive_paths options)"

definition clean_source_exclude_name :: "string \<Rightarrow> bool" where
  "clean_source_exclude_name name \<longleftrightarrow>
     List.member
       [''.DS_Store'', ''.cache'', ''.git'', ''.gradle'', ''.hg'', ''.idea'', ''.mypy_cache'', ''.next'', ''.nuxt'',
        ''.pytest_cache'', ''.ruff_cache'', ''.svn'', ''.turbo'', ''.vscode'', ''DerivedData'', ''Thumbs.db'',
        ''__pycache__'', ''build'', ''dist'', ''node_modules'', ''target''] name"

definition clean_source_exclusion_reason :: "plan_options \<Rightarrow> string \<Rightarrow> manifest_file_type \<Rightarrow> string option" where
  "clean_source_exclusion_reason options path ft =
     (case find clean_source_exclude_name (drop 1 (split_on (CHR ''/'') path)) of
        None \<Rightarrow> None
      | Some matched_name \<Rightarrow>
          if ft = MDirectory \<and> has_explicit_include_descendant options path then None
          else Some (''clean source exclusion: '' @ matched_name))"

text \<open>The tests of \<open>exclusion_reason\<close> after the explicit include, in the order of the source: the
  first that decides wins.\<close>

definition name_reason :: "plan_options \<Rightarrow> string \<Rightarrow> string \<Rightarrow> manifest_file_type \<Rightarrow> gitignore_rule list \<Rightarrow> string option" where
  "name_reason options file_name path ft rules =
     (if file_name \<in> set (exclude_names options) then
        (if ft = MDirectory \<and> has_explicit_include_descendant options path then None
         else Some (''excluded name: '' @ file_name))
      else if path \<in> set (exclude_archive_paths options) then
        (if ft = MDirectory \<and> has_explicit_include_descendant options path then None
         else Some (''excluded archive path: '' @ path))
      else if respect_gitignore options then
        (case gitignore_decision path ft rules of
           Some (True, rule_index) \<Rightarrow>
             if ft = MDirectory \<and> gitignore_has_later_negated_descendant path rules rule_index then None
             else Some ''ignored by .gitignore''
         | _ \<Rightarrow> None)
      else None)"

definition exclusion_reason ::
  "plan_options \<Rightarrow> path \<Rightarrow> string \<Rightarrow> manifest_file_type \<Rightarrow> gitignore_rule list \<Rightarrow> string option" where
  "exclusion_reason options source path ft rules =
     (case path_file_name source of
        None \<Rightarrow> None
      | Some os_name \<Rightarrow>
          let file_name = from_utf8_lossy os_name in
          if is_explicitly_included options path then None
          else if exclusion_profile options \<noteq> Unrestricted \<and> file_name = ''.DS_Store''
          then Some ''default macOS metadata exclusion''
          else if exclusion_profile options = CleanSource then
            (case clean_source_exclusion_reason options path ft of
               Some r \<Rightarrow> Some r
             | None \<Rightarrow> name_reason options file_name path ft rules)
          else name_reason options file_name path ft rules)"

section \<open>Entries\<close>

definition manifest_file_type_of :: "src_metadata \<Rightarrow> manifest_file_type" where
  "manifest_file_type_of metadata =
     (case meta_kind metadata of
        RegularFile \<Rightarrow> MFile | DirectoryFile \<Rightarrow> MDirectory | SymlinkFile \<Rightarrow> MSymlink | OtherFile \<Rightarrow> MOther)"

definition permission_snapshot_of :: "src_metadata \<Rightarrow> permission_snapshot" where
  "permission_snapshot_of metadata = \<lparr>readonly = meta_readonly metadata, unix_mode = Some (meta_mode metadata)\<rparr>"

definition estimate_regular_file_bytes :: "src_metadata \<Rightarrow> manifest_file_type \<Rightarrow> u64" where
  "estimate_regular_file_bytes metadata ft = (case ft of MFile \<Rightarrow> meta_len metadata | _ \<Rightarrow> 0)"

definition archive_file_name :: "path \<Rightarrow> (plan_error, string) result" where
  "archive_file_name path =
     (case path_file_name path of None \<Rightarrow> Inl (MissingFileName path) | Some name \<Rightarrow> Inr (from_utf8_lossy name))"

definition read_target ::
  "source_tree \<Rightarrow> path \<Rightarrow> manifest_file_type \<Rightarrow> manifest_warning list \<Rightarrow> path option \<times> manifest_warning list" where
  "read_target tree source ft ws =
     (if ft = MSymlink then
        (case fs_read_link tree source of
           Inr target \<Rightarrow> (Some target, ws)
         | Inl error \<Rightarrow>
             (None, ws @ [\<lparr>warning_path = source,
                           warning_message = ''failed to read symlink target: '' @ message error\<rparr>]))
      else (None, ws))"

definition build_entry ::
  "source_tree \<Rightarrow> path \<Rightarrow> string \<Rightarrow> src_metadata \<Rightarrow> manifest_warning list \<Rightarrow> manifest_entry \<times> manifest_warning list" where
  "build_entry tree source path metadata ws =
     (let ft = manifest_file_type_of metadata;
          sz = (if ft = MFile then meta_len metadata else 0)
      in case read_target tree source ft ws of
           (target, ws) \<Rightarrow>
             (\<lparr>archive_path = path, source_path = source, file_type = ft, entry_size = sz,
               modified = meta_modified metadata, permissions = permission_snapshot_of metadata,
               symlink_target = target\<rparr>, ws))"

section \<open>The walk\<close>

definition walk_metadata :: "source_tree \<Rightarrow> plan_options \<Rightarrow> path \<Rightarrow> (plan_error, src_metadata) result" where
  "walk_metadata tree options source =
     map_err (MetadataError source)
       (if follow_symlinks options then fs_metadata tree source else fs_symlink_metadata tree source)"

definition depth_error :: io_error where
  "depth_error = \<lparr>kind = InvalidInput, message = ''maximum manifest walk depth exceeded''\<rparr>"

definition push_excluded :: "path \<Rightarrow> string \<Rightarrow> src_metadata \<Rightarrow> string \<Rightarrow> walk_state \<Rightarrow> walk_state" where
  "push_excluded source path metadata why st =
     (let sz = estimate_regular_file_bytes metadata (manifest_file_type_of metadata)
      in st\<lparr>excluded_bytes := saturating_add (excluded_bytes st) sz,
            excluded_entries := excluded_entries st @
              [\<lparr>excluded_path = path, excluded_source = source, reason = why, excluded_size = sz\<rparr>]\<rparr>)"

definition push_entry :: "source_tree \<Rightarrow> path \<Rightarrow> string \<Rightarrow> src_metadata \<Rightarrow> walk_state \<Rightarrow> walk_state" where
  "push_entry tree source path metadata st =
     (case build_entry tree source path metadata (warnings st) of
        (entry, ws) \<Rightarrow>
          st\<lparr>warnings := ws,
             total_bytes := (if file_type entry = MFile then saturating_add (total_bytes st) (entry_size entry)
                             else total_bytes st),
             entries := entries st @ [entry]\<rparr>)"

text \<open>\<open>active_dir_marker\<close>: \<open>None\<close> is the early return on a loop of links.\<close>

definition enter_directory ::
  "source_tree \<Rightarrow> plan_options \<Rightarrow> path \<Rightarrow> walk_state \<Rightarrow> (plan_error, bool option \<times> walk_state) result" where
  "enter_directory tree options source st =
     (if follow_symlinks options then
        (case fs_canonicalize tree source of
           Inl error \<Rightarrow> Inl (MetadataError source error)
         | Inr canonical \<Rightarrow>
             if canonical \<in> set (active_dirs st)
             then Inr (None, st\<lparr>warnings := warnings st @
                    [\<lparr>warning_path = source, warning_message = ''skipped symlink directory loop''\<rparr>]\<rparr>)
             else Inr (Some True, st\<lparr>active_dirs := active_dirs st @ [canonical]\<rparr>))
      else Inr (Some False, st))"

definition load_gitignore ::
  "(string \<Rightarrow> bool) \<Rightarrow> source_tree \<Rightarrow> plan_options \<Rightarrow> path \<Rightarrow> string \<Rightarrow> walk_state \<Rightarrow> walk_state" where
  "load_gitignore uspace tree options source path st =
     (if respect_gitignore options then
        (case read_gitignore_rules uspace (fs_read_to_string tree) source path (warnings st) of
           (rules, ws) \<Rightarrow> st\<lparr>gitignore_rules := gitignore_rules st @ rules, warnings := ws\<rparr>)
      else st)"

definition leave_directory :: "nat \<Rightarrow> bool \<Rightarrow> walk_state \<Rightarrow> walk_state" where
  "leave_directory gitignore_len active_dir_marker st =
     st\<lparr>gitignore_rules := take gitignore_len (gitignore_rules st),
        active_dirs := (if active_dir_marker then butlast (active_dirs st) else active_dirs st)\<rparr>"

definition walk_reason :: "plan_options \<Rightarrow> path \<Rightarrow> string \<Rightarrow> nat \<Rightarrow> src_metadata \<Rightarrow> gitignore_rule list \<Rightarrow> string option" where
  "walk_reason options source path depth metadata rules =
     (if depth > 0 then exclusion_reason options source path (manifest_file_type_of metadata) rules else None)"

function (sequential) walk ::
  "(string \<Rightarrow> bool) \<Rightarrow> source_tree \<Rightarrow> plan_options \<Rightarrow> path \<Rightarrow> string \<Rightarrow> nat \<Rightarrow> walk_state \<Rightarrow> (plan_error, walk_state) result"
and walk_children ::
  "(string \<Rightarrow> bool) \<Rightarrow> source_tree \<Rightarrow> plan_options \<Rightarrow> path \<Rightarrow> string \<Rightarrow> nat \<Rightarrow> string list \<Rightarrow> walk_state \<Rightarrow> (plan_error, walk_state) result"
where
  "walk uspace tree options source path depth st =
     and_then (walk_metadata tree options source) (\<lambda>metadata.
       if depth > 1024 then Inl (MetadataError source depth_error)
       else
         (case walk_reason options source path depth metadata (gitignore_rules st) of
            Some why \<Rightarrow> Inr (push_excluded source path metadata why st)
          | None \<Rightarrow>
              if manifest_file_type_of metadata = MDirectory then
                and_then (enter_directory tree options source (push_entry tree source path metadata st))
                  (\<lambda>(marker, st').
                     case marker of
                       None \<Rightarrow> Inr st'
                     | Some active_dir_marker \<Rightarrow>
                         let gitignore_len = length (gitignore_rules st');
                             loaded = load_gitignore uspace tree options source path st'
                         in and_then (map_err (ReadDirError source) (fs_read_dir tree source)) (\<lambda>children.
                              and_then (walk_children uspace tree options source path (depth + 1) children loaded)
                                (\<lambda>st''. Inr (leave_directory gitignore_len active_dir_marker st''))))
              else Inr (push_entry tree source path metadata st)))"
| "walk_children uspace tree options source path depth [] st = Inr st"
| "walk_children uspace tree options source path depth (name # names) st =
     and_then (walk uspace tree options (source @ [Normal name]) (path @ ''/'' @ from_utf8_lossy name) depth st)
       (\<lambda>st'. walk_children uspace tree options source path depth names st')"
  by pat_completeness auto
termination
proof (relation "measures
       [\<lambda>x. case x of Inl (_, _, _, _, _, depth, _) \<Rightarrow> 1026 - depth | Inr (_, _, _, _, _, depth, _, _) \<Rightarrow> 1026 - depth,
        \<lambda>x. case x of Inl _ \<Rightarrow> 0 | Inr (_, _, _, _, _, _, names, _) \<Rightarrow> Suc (length names)]", goal_cases)
  case 1
  show ?case by (rule wf_measures)
next
  case (2 uspace tree options source path depth)
  have "\<not> depth > 1024" by (rule 2(2))
  then have "1026 - (depth + 1) < 1026 - depth" by linarith
  then show ?case unfolding in_measures prod.case sum.case by blast
qed simp_all

declare walk.simps [simp del]

section \<open>The manifest\<close>

instantiation component :: linorder
begin

fun component_rank :: "component \<Rightarrow> nat \<times> string" where
  "component_rank RootDir = (0, '''')"
| "component_rank CurDir = (1, '''')"
| "component_rank ParentDir = (2, '''')"
| "component_rank (Normal s) = (3, s)"

definition less_eq_component :: "component \<Rightarrow> component \<Rightarrow> bool" where
  "less_eq_component a b \<longleftrightarrow>
     fst (component_rank a) < fst (component_rank b) \<or>
     fst (component_rank a) = fst (component_rank b) \<and> snd (component_rank a) \<le> snd (component_rank b)"

definition less_component :: "component \<Rightarrow> component \<Rightarrow> bool" where
  "less_component a b \<longleftrightarrow> a \<le> b \<and> a \<noteq> b"

instance
proof
  have inj: "component_rank a = component_rank b \<Longrightarrow> a = b" for a b
    by (cases a; cases b) auto
  show "x = y" if "x \<le> y" "y \<le> x" for x y :: component
  proof (rule inj, rule prod_eqI)
    show "fst (component_rank x) = fst (component_rank y)"
      using that unfolding less_eq_component_def by linarith
    then show "snd (component_rank x) = snd (component_rank y)"
      using that unfolding less_eq_component_def by (metis nat_neq_iff order_antisym)
  qed
  then show "x < y \<longleftrightarrow> x \<le> y \<and> \<not> y \<le> x" for x y :: component
    by (auto simp: less_component_def less_eq_component_def)
  show "x \<le> y \<Longrightarrow> y \<le> z \<Longrightarrow> x \<le> z" for x y z :: component
    by (auto simp: less_eq_component_def)
qed (auto simp: less_eq_component_def)

end

text \<open>\<open>record_archive_path_collisions\<close>: the map from keys to the last path that had it.\<close>

fun record_collisions ::
  "(string \<Rightarrow> string) \<Rightarrow> manifest_entry list \<Rightarrow> (string \<rightharpoonup> string) \<Rightarrow> manifest_warning list \<Rightarrow> manifest_warning list" where
  "record_collisions ulower [] seen ws = ws"
| "record_collisions ulower (e # es) seen ws =
     (let key = case_collision_key ulower (archive_path e)
      in record_collisions ulower es (seen(key \<mapsto> archive_path e))
           (case seen key of
              None \<Rightarrow> ws
            | Some previous \<Rightarrow> ws @ [\<lparr>warning_path = source_path e,
                warning_message = ''archive path may collide with '' @ previous @ '' on case-insensitive file systems''\<rparr>]))"

definition record_archive_path_collisions ::
  "(string \<Rightarrow> string) \<Rightarrow> manifest_entry list \<Rightarrow> manifest_warning list \<Rightarrow> manifest_warning list" where
  "record_archive_path_collisions ulower es ws = record_collisions ulower es Map.empty ws"

fun walk_roots ::
  "(string \<Rightarrow> bool) \<Rightarrow> source_tree \<Rightarrow> plan_options \<Rightarrow> path list \<Rightarrow> walk_state \<Rightarrow> (plan_error, walk_state) result" where
  "walk_roots uspace tree options [] st = Inr st"
| "walk_roots uspace tree options (root # roots) st =
     and_then (archive_file_name root) (\<lambda>root_name.
       and_then (walk uspace tree options root root_name 0 (st\<lparr>gitignore_rules := [], active_dirs := []\<rparr>)) (\<lambda>st'.
         walk_roots uspace tree options roots st'))"

definition new_planner :: walk_state where
  "new_planner = \<lparr>entries = [], excluded_entries = [], warnings = [], total_bytes = 0, excluded_bytes = 0,
                   gitignore_rules = [], active_dirs = []\<rparr>"

definition plan_archive_roots ::
  "(string \<Rightarrow> bool) \<Rightarrow> (string \<Rightarrow> string) \<Rightarrow> source_tree \<Rightarrow> path list \<Rightarrow> path \<Rightarrow> plan_options \<Rightarrow> (plan_error, archive_manifest) result" where
  "plan_archive_roots uspace ulower tree roots root options =
     and_then (walk_roots uspace tree options roots new_planner) (\<lambda>st.
       let es = sort_key archive_path (entries st);
           ws = record_archive_path_collisions ulower es (warnings st)
       in Inr \<lparr>manifest_root = root, manifest_entries = es, manifest_total_bytes = total_bytes st,
               manifest_excluded = sort_key excluded_path (excluded_entries st),
               manifest_excluded_bytes = excluded_bytes st,
               manifest_warnings = sort_key warning_path ws\<rparr>)"

definition common_parent :: "path list \<Rightarrow> path option" where
  "common_parent paths =
     (case paths of
        [] \<Rightarrow> None
      | first # _ \<Rightarrow>
          (case path_parent first of
             None \<Rightarrow> None
           | Some first_parent \<Rightarrow>
               if list_all (\<lambda>p. path_parent p = Some first_parent) paths then Some first_parent else None))"

definition plan_archive ::
  "(string \<Rightarrow> bool) \<Rightarrow> (string \<Rightarrow> string) \<Rightarrow> source_tree \<Rightarrow> path \<Rightarrow> plan_options \<Rightarrow> (plan_error, archive_manifest) result" where
  "plan_archive uspace ulower tree source options = plan_archive_roots uspace ulower tree [source] source options"

definition plan_archives ::
  "(string \<Rightarrow> bool) \<Rightarrow> (string \<Rightarrow> string) \<Rightarrow> source_tree \<Rightarrow> path list \<Rightarrow> plan_options \<Rightarrow> (plan_error, archive_manifest) result" where
  "plan_archives uspace ulower tree sources options =
     (case sources of
        [] \<Rightarrow> Inl (MissingFileName [])
      | first # _ \<Rightarrow>
          plan_archive_roots uspace ulower tree sources
            (case common_parent sources of None \<Rightarrow> first | Some p \<Rightarrow> p) options)"

section \<open>The walk as a big-step relation\<close>

text \<open>A walk that succeeds, with one rule for each way it can go.\<close>

inductive walks ::
  "(string \<Rightarrow> bool) \<Rightarrow> source_tree \<Rightarrow> plan_options \<Rightarrow> path \<Rightarrow> string \<Rightarrow> nat \<Rightarrow> walk_state \<Rightarrow> walk_state \<Rightarrow> bool"
and walks_all ::
  "(string \<Rightarrow> bool) \<Rightarrow> source_tree \<Rightarrow> plan_options \<Rightarrow> path \<Rightarrow> string \<Rightarrow> nat \<Rightarrow> string list \<Rightarrow> walk_state \<Rightarrow> walk_state \<Rightarrow> bool"
for uspace :: "string \<Rightarrow> bool" and tree :: source_tree and options :: plan_options
where
  Skip: "\<lbrakk>walk_metadata tree options s = Inr m; d \<le> 1024; walk_reason options s a d m (gitignore_rules st) = Some why\<rbrakk> \<Longrightarrow>
      walks uspace tree options s a d st (push_excluded s a m why st)"
| Leaf: "\<lbrakk>walk_metadata tree options s = Inr m; d \<le> 1024; walk_reason options s a d m (gitignore_rules st) = None;
      manifest_file_type_of m \<noteq> MDirectory\<rbrakk> \<Longrightarrow>
      walks uspace tree options s a d st (push_entry tree s a m st)"
| Loop: "\<lbrakk>walk_metadata tree options s = Inr m; d \<le> 1024; walk_reason options s a d m (gitignore_rules st) = None;
      manifest_file_type_of m = MDirectory;
      enter_directory tree options s (push_entry tree s a m st) = Inr (None, st1)\<rbrakk> \<Longrightarrow>
      walks uspace tree options s a d st st1"
| Dir: "\<lbrakk>walk_metadata tree options s = Inr m; d \<le> 1024; walk_reason options s a d m (gitignore_rules st) = None;
      manifest_file_type_of m = MDirectory;
      enter_directory tree options s (push_entry tree s a m st) = Inr (Some mk, st1); fs_read_dir tree s = Inr names;
      walks_all uspace tree options s a (Suc d) names (load_gitignore uspace tree options s a st1) st2\<rbrakk> \<Longrightarrow>
      walks uspace tree options s a d st (leave_directory (length (gitignore_rules st1)) mk st2)"
| Done: "walks_all uspace tree options s a d [] st st"
| Each: "\<lbrakk>walks uspace tree options (s @ [Normal n]) (a @ ''/'' @ from_utf8_lossy n) d st st1;
      walks_all uspace tree options s a d ns st1 st2\<rbrakk> \<Longrightarrow>
      walks_all uspace tree options s a d (n # ns) st st2"

lemma walk_walks:
  "walk uspace tree options s a d st = Inr st' \<Longrightarrow> walks uspace tree options s a d st st'"
  "walk_children uspace tree options s a d names st = Inr st' \<Longrightarrow> walks_all uspace tree options s a d names st st'"
proof (induction uspace tree options s a d st and uspace tree options s a d names st
       arbitrary: st' and st' rule: walk_walk_children.induct)
  case (1 uspace tree options s a d st)
  obtain m where m: "walk_metadata tree options s = Inr m" and d: "d \<le> 1024"
    using "1.prems" by (auto simp: walk.simps [of uspace] result_simps not_less split: if_splits)
  show ?case
  proof (cases "walk_reason options s a d m (gitignore_rules st)")
    case (Some why)
    then show ?thesis using "1.prems" m d Skip [OF m d Some] by (simp add: walk.simps [of uspace])
  next
    case None
    show ?thesis
    proof (cases "manifest_file_type_of m = MDirectory")
      case False
      then show ?thesis using "1.prems" m d None Leaf [OF m d None False] by (simp add: walk.simps [of uspace])
    next
      case True
      then obtain mk st1 where e: "enter_directory tree options s (push_entry tree s a m st) = Inr (mk, st1)"
        using "1.prems" m d None by (auto simp: walk.simps [of uspace] result_simps)
      show ?thesis
      proof (cases mk)
        case None
        then show ?thesis
          using "1.prems" m d \<open>walk_reason _ _ _ _ _ _ = None\<close> True e Loop [OF m d \<open>walk_reason _ _ _ _ _ _ = None\<close> True]
          by (simp add: walk.simps [of uspace])
      next
        case (Some b)
        let ?ld = "load_gitignore uspace tree options s a st1"
        obtain names st2 where c: "fs_read_dir tree s = Inr names"
          "walk_children uspace tree options s a (d + 1) names ?ld = Inr st2"
          "st' = leave_directory (length (gitignore_rules st1)) b st2"
          using "1.prems" m d None True e Some by (auto simp: walk.simps [of uspace] result_simps Let_def)
        have "walks_all uspace tree options s a (d + 1) names ?ld st2"
          by (rule "1.IH" [OF m _ None True e refl Some refl refl _ c(2)]) (use d c(1) in simp_all)
        then show ?thesis using Dir [OF m d None True e [unfolded Some] c(1)] c(3) by simp
      qed
    qed
  qed
next
  case (3 uspace tree options s a d n ns st)
  then show ?case by (auto simp: result_simps intro: Each)
qed (auto intro: Done)

text \<open>What each primitive does to the two vectors.\<close>

lemma push_vectors [simp]:
  "gitignore_rules (push_excluded s a m why st) = gitignore_rules st"
  "active_dirs (push_excluded s a m why st) = active_dirs st"
  "gitignore_rules (push_entry tree s a m st) = gitignore_rules st"
  "active_dirs (push_entry tree s a m st) = active_dirs st"
  by (simp_all add: push_excluded_def push_entry_def Let_def split: prod.split)

definition child_rules ::
  "(string \<Rightarrow> bool) \<Rightarrow> source_tree \<Rightarrow> plan_options \<Rightarrow> path \<Rightarrow> string \<Rightarrow> gitignore_rule list \<Rightarrow> gitignore_rule list" where
  "child_rules uspace tree options s a rules =
     (if respect_gitignore options
      then rules @ fst (read_gitignore_rules uspace (fs_read_to_string tree) s a []) else rules)"

definition child_active :: "source_tree \<Rightarrow> plan_options \<Rightarrow> path \<Rightarrow> path list \<Rightarrow> path list" where
  "child_active tree options s act =
     (if follow_symlinks options
      then (case fs_canonicalize tree s of Inl _ \<Rightarrow> act | Inr c \<Rightarrow> act @ [c]) else act)"

lemma read_gitignore_rules_fst:
  "fst (read_gitignore_rules uspace rd s a ws) = fst (read_gitignore_rules uspace rd s a [])"
  by (simp add: read_gitignore_rules_def Let_def split: sum.split)

lemma load_vectors [simp]:
  "gitignore_rules (load_gitignore uspace tree options s a st) = child_rules uspace tree options s a (gitignore_rules st)"
  "active_dirs (load_gitignore uspace tree options s a st) = active_dirs st"
  using read_gitignore_rules_fst [of uspace "fs_read_to_string tree" s a "warnings st"]
  by (auto simp: load_gitignore_def child_rules_def split: prod.split)

lemma enter_vectors:
  assumes "enter_directory tree options s st = Inr (mk, st1)"
  shows "gitignore_rules st1 = gitignore_rules st"
    "active_dirs st1 = (case mk of None \<Rightarrow> active_dirs st | Some _ \<Rightarrow> child_active tree options s (active_dirs st))"
    "mk = Some b \<Longrightarrow> (if b then butlast (active_dirs st1) else active_dirs st1) = active_dirs st"
  using assms by (auto simp: enter_directory_def child_active_def split: if_splits sum.splits)

lemma child_rules_take: "take (length rules) (child_rules uspace tree options s a rules) = rules"
  by (simp add: child_rules_def)

lemma walks_vectors:
  "walks uspace tree options s a d st st' \<Longrightarrow>
     gitignore_rules st' = gitignore_rules st \<and> active_dirs st' = active_dirs st"
  "walks_all uspace tree options s a d names st st' \<Longrightarrow>
     gitignore_rules st' = gitignore_rules st \<and> active_dirs st' = active_dirs st"
proof (induction rule: walks_walks_all.inducts)
  case (Loop s m d a st st1)
  then show ?case by (simp add: enter_vectors)
next
  case (Dir s m d a st mk st1 names st2)
  note e = \<open>enter_directory _ _ _ _ = _\<close>
  show ?case
    using Dir.IH enter_vectors(1,2) [OF e] enter_vectors(3) [OF e refl]
    by (cases mk) (simp_all add: leave_directory_def child_rules_take)
qed simp_all

section \<open>Which items are visited\<close>

text \<open>
  The items a plan visits, as reachable states: an item is its source path, its archive path,
  its depth and what it inherits, the rules of the \<open>.gitignore\<close> files above and the canonical
  directories above.  One step goes from a directory that is kept and is not a loop to one of
  its children.
\<close>

record item =
  item_source :: path
  item_path :: string
  item_depth :: nat
  item_rules :: "gitignore_rule list"
  item_active :: "path list"

definition kept :: "source_tree \<Rightarrow> plan_options \<Rightarrow> item \<Rightarrow> bool" where
  "kept tree options v =
     (case walk_metadata tree options (item_source v) of
        Inl _ \<Rightarrow> False
      | Inr m \<Rightarrow> walk_reason options (item_source v) (item_path v) (item_depth v) m (item_rules v) = None)"

definition is_loop :: "source_tree \<Rightarrow> plan_options \<Rightarrow> item \<Rightarrow> bool" where
  "is_loop tree options v \<longleftrightarrow> follow_symlinks options \<and>
     (case fs_canonicalize tree (item_source v) of Inl _ \<Rightarrow> False | Inr c \<Rightarrow> c \<in> set (item_active v))"

definition kept_directory :: "source_tree \<Rightarrow> plan_options \<Rightarrow> item \<Rightarrow> bool" where
  "kept_directory tree options v \<longleftrightarrow> item_depth v \<le> 1024 \<and> kept tree options v \<and>
     map_sum id manifest_file_type_of (walk_metadata tree options (item_source v)) = Inr MDirectory"

definition child_item :: "(string \<Rightarrow> bool) \<Rightarrow> source_tree \<Rightarrow> plan_options \<Rightarrow> item \<Rightarrow> string \<Rightarrow> item" where
  "child_item uspace tree options v n =
     \<lparr>item_source = item_source v @ [Normal n], item_path = item_path v @ ''/'' @ from_utf8_lossy n,
      item_depth = Suc (item_depth v),
      item_rules = child_rules uspace tree options (item_source v) (item_path v) (item_rules v),
      item_active = child_active tree options (item_source v) (item_active v)\<rparr>"

inductive walk_step :: "(string \<Rightarrow> bool) \<Rightarrow> source_tree \<Rightarrow> plan_options \<Rightarrow> item \<Rightarrow> item \<Rightarrow> bool"
for uspace :: "string \<Rightarrow> bool" and tree :: source_tree and options :: plan_options
where
  step: "\<lbrakk>kept_directory tree options v; \<not> is_loop tree options v; fs_read_dir tree (item_source v) = Inr names;
      n \<in> set names\<rbrakk> \<Longrightarrow> walk_step uspace tree options v (child_item uspace tree options v n)"

inductive_cases walk_stepE: "walk_step uspace tree options v w"

definition below :: "(string \<Rightarrow> bool) \<Rightarrow> source_tree \<Rightarrow> plan_options \<Rightarrow> item \<Rightarrow> item set" where
  "below uspace tree options v = {w. (walk_step uspace tree options)\<^sup>*\<^sup>* v w}"

lemma below_unfold:
  "below uspace tree options v = insert v (\<Union>w \<in> {w. walk_step uspace tree options v w}. below uspace tree options w)"
proof -
  have "(walk_step uspace tree options)\<^sup>*\<^sup>* v w \<longleftrightarrow>
      w = v \<or> (\<exists>u. walk_step uspace tree options v u \<and> (walk_step uspace tree options)\<^sup>*\<^sup>* u w)" for w
    by (metis converse_rtranclpE converse_rtranclp_into_rtranclp rtranclp.rtrancl_refl)
  then show ?thesis by (auto simp: below_def)
qed

lemma below_stuck: "(\<And>w. \<not> walk_step uspace tree options v w) \<Longrightarrow> below uspace tree options v = {v}"
  using below_unfold [of uspace tree options v] by simp

lemma below_directory:
  assumes "kept_directory tree options v" "\<not> is_loop tree options v" "fs_read_dir tree (item_source v) = Inr names"
  shows "below uspace tree options v =
    insert v (\<Union>n \<in> set names. below uspace tree options (child_item uspace tree options v n))"
proof -
  have "{w. walk_step uspace tree options v w} = child_item uspace tree options v ` set names"
    using assms by (auto intro: step elim: walk_stepE)
  then show ?thesis by (subst below_unfold) simp
qed

text \<open>The record of an item: an entry or an exclusion.\<close>

definition item_entry :: "source_tree \<Rightarrow> plan_options \<Rightarrow> item \<Rightarrow> manifest_entry" where
  "item_entry tree options v =
     fst (build_entry tree (item_source v) (item_path v) (projr (walk_metadata tree options (item_source v))) [])"

definition item_exclusion :: "source_tree \<Rightarrow> plan_options \<Rightarrow> item \<Rightarrow> excluded_entry" where
  "item_exclusion tree options v =
     (let m = projr (walk_metadata tree options (item_source v))
      in \<lparr>excluded_path = item_path v, excluded_source = item_source v,
          reason = the (walk_reason options (item_source v) (item_path v) (item_depth v) m (item_rules v)),
          excluded_size = estimate_regular_file_bytes m (manifest_file_type_of m)\<rparr>)"

text \<open>What a visit can fail with.\<close>

definition read_dir_error :: "source_tree \<Rightarrow> item \<Rightarrow> plan_error option" where
  "read_dir_error tree v =
     (case fs_read_dir tree (item_source v) of Inl e \<Rightarrow> Some (ReadDirError (item_source v) e) | Inr _ \<Rightarrow> None)"

definition item_error :: "source_tree \<Rightarrow> plan_options \<Rightarrow> item \<Rightarrow> plan_error option" where
  "item_error tree options v =
     (case walk_metadata tree options (item_source v) of
        Inl e \<Rightarrow> Some e
      | Inr m \<Rightarrow>
          if item_depth v > 1024 then Some (MetadataError (item_source v) depth_error)
          else if kept_directory tree options v then
            (if follow_symlinks options then
               (case fs_canonicalize tree (item_source v) of
                  Inl e \<Rightarrow> Some (MetadataError (item_source v) e)
                | Inr c \<Rightarrow> if c \<in> set (item_active v) then None else read_dir_error tree v)
             else read_dir_error tree v)
          else None)"

definition shown :: "(string \<Rightarrow> bool) \<Rightarrow> source_tree \<Rightarrow> plan_options \<Rightarrow> item \<Rightarrow> manifest_entry set" where
  "shown uspace tree options v = item_entry tree options ` {w \<in> below uspace tree options v. kept tree options w}"

definition hidden :: "(string \<Rightarrow> bool) \<Rightarrow> source_tree \<Rightarrow> plan_options \<Rightarrow> item \<Rightarrow> excluded_entry set" where
  "hidden uspace tree options v = item_exclusion tree options ` {w \<in> below uspace tree options v. \<not> kept tree options w}"

abbreviation at_item :: "path \<Rightarrow> string \<Rightarrow> nat \<Rightarrow> walk_state \<Rightarrow> item" where
  "at_item s a d st \<equiv> \<lparr>item_source = s, item_path = a, item_depth = d, item_rules = gitignore_rules st, item_active = active_dirs st\<rparr>"

text \<open>What a successful walk of a subtree has done: recorded the shown and the hidden items below
  it, none of which failed.\<close>

definition recorded :: "(string \<Rightarrow> bool) \<Rightarrow> source_tree \<Rightarrow> plan_options \<Rightarrow> item set \<Rightarrow> walk_state \<Rightarrow> walk_state \<Rightarrow> bool" where
  "recorded uspace tree options V st st' \<longleftrightarrow>
     set (entries st') = set (entries st) \<union> (\<Union>v \<in> V. shown uspace tree options v) \<and>
     set (excluded_entries st') = set (excluded_entries st) \<union> (\<Union>v \<in> V. hidden uspace tree options v) \<and>
     (\<forall>v \<in> V. \<forall>w \<in> below uspace tree options v. item_error tree options w = None)"

lemma recorded_empty: "recorded uspace tree options {} st st"
  by (simp add: recorded_def)

lemma recorded_union:
  "recorded uspace tree options V st st1 \<Longrightarrow> recorded uspace tree options W st1 st2 \<Longrightarrow>
     recorded uspace tree options (V \<union> W) st st2"
  by (auto simp: recorded_def)

text \<open>An item without children below it.\<close>

lemma recorded_stuck:
  assumes "\<And>w. \<not> walk_step uspace tree options v w" "item_error tree options v = None"
    and "set (entries st') = set (entries st) \<union> (if kept tree options v then {item_entry tree options v} else {})"
    and "set (excluded_entries st') =
      set (excluded_entries st) \<union> (if kept tree options v then {} else {item_exclusion tree options v})"
  shows "recorded uspace tree options {v} st st'"
proof -
  have "below uspace tree options v = {v}" by (rule below_stuck [OF assms(1)])
  moreover have "{w \<in> {v}. kept tree options w} = (if kept tree options v then {v} else {})"
    "{w \<in> {v}. \<not> kept tree options w} = (if kept tree options v then {} else {v})" by auto
  ultimately show ?thesis using assms(2-4) by (simp add: recorded_def shown_def hidden_def)
qed

lemma recorded_directory:
  assumes "kept_directory tree options v" "\<not> is_loop tree options v" "fs_read_dir tree (item_source v) = Inr names"
    and "item_error tree options v = None"
    and "recorded uspace tree options (child_item uspace tree options v ` set names) st1 st2"
    and "set (entries st1) = insert (item_entry tree options v) (set (entries st))"
      "excluded_entries st1 = excluded_entries st"
  shows "recorded uspace tree options {v} st st2"
proof -
  have k: "kept tree options v" using assms(1) by (simp add: kept_directory_def)
  have b: "below uspace tree options v =
      insert v (\<Union>n \<in> set names. below uspace tree options (child_item uspace tree options v n))"
    by (rule below_directory [OF assms(1-3)])
  have "shown uspace tree options v = insert (item_entry tree options v)
      (\<Union>n \<in> set names. shown uspace tree options (child_item uspace tree options v n))"
    unfolding shown_def b using k by auto
  moreover have "hidden uspace tree options v =
      (\<Union>n \<in> set names. hidden uspace tree options (child_item uspace tree options v n))"
    unfolding hidden_def b using k by auto
  ultimately show ?thesis using assms(4-7) b by (auto simp: recorded_def)
qed

lemma push_entry_sets:
  assumes "walk_metadata tree options (item_source v) = Inr m"
  shows "set (entries (push_entry tree (item_source v) (item_path v) m st)) = set (entries st) \<union> {item_entry tree options v}"
    "excluded_entries (push_entry tree (item_source v) (item_path v) m st) = excluded_entries st"
proof -
  have "fst (build_entry tree s a m ws) = fst (build_entry tree s a m [])" for s a ws
    by (simp add: build_entry_def read_target_def Let_def split: sum.split)
  then show "set (entries (push_entry tree (item_source v) (item_path v) m st)) = set (entries st) \<union> {item_entry tree options v}"
    using assms by (auto simp: push_entry_def item_entry_def split: prod.split) (metis fst_conv)+
  show "excluded_entries (push_entry tree (item_source v) (item_path v) m st) = excluded_entries st"
    by (simp add: push_entry_def split: prod.split)
qed

lemma enter_records:
  assumes "enter_directory tree options s st = Inr (mk, st1)"
  shows "entries st1 = entries st" "excluded_entries st1 = excluded_entries st"
    "total_bytes st1 = total_bytes st" "excluded_bytes st1 = excluded_bytes st"
  using assms by (auto simp: enter_directory_def split: if_splits sum.splits)

lemma load_records [simp]:
  "entries (load_gitignore uspace tree options s a st) = entries st"
  "excluded_entries (load_gitignore uspace tree options s a st) = excluded_entries st"
  "total_bytes (load_gitignore uspace tree options s a st) = total_bytes st"
  "excluded_bytes (load_gitignore uspace tree options s a st) = excluded_bytes st"
  by (simp_all add: load_gitignore_def split: prod.split)

lemma leave_records [simp]:
  "entries (leave_directory k b st) = entries st"
  "excluded_entries (leave_directory k b st) = excluded_entries st"
  "total_bytes (leave_directory k b st) = total_bytes st"
  "excluded_bytes (leave_directory k b st) = excluded_bytes st"
  by (simp_all add: leave_directory_def)

lemma enter_loop:
  assumes "enter_directory tree options s st = Inr (mk, st1)"
  shows "mk = None \<longleftrightarrow> is_loop tree options (at_item s a d st)"
    "\<And>c. follow_symlinks options \<Longrightarrow> fs_canonicalize tree s \<noteq> Inl c"
  using assms by (auto simp: enter_directory_def is_loop_def split: if_splits sum.splits)

lemma child_at_item:
  "child_item uspace tree options (at_item s a d st) n =
     \<lparr>item_source = s @ [Normal n], item_path = a @ ''/'' @ from_utf8_lossy n, item_depth = Suc d,
      item_rules = child_rules uspace tree options s a (gitignore_rules st),
      item_active = child_active tree options s (active_dirs st)\<rparr>"
  by (simp add: child_item_def)

lemma walks_recorded:
  "walks uspace tree options s a d st st' \<Longrightarrow> recorded uspace tree options {at_item s a d st} st st'"
  "walks_all uspace tree options s a d names st st' \<Longrightarrow>
     recorded uspace tree options ((\<lambda>n. at_item (s @ [Normal n]) (a @ ''/'' @ from_utf8_lossy n) d st) ` set names) st st'"
proof (induction rule: walks_walks_all.inducts)
  case (Skip s m d a st why)
  let ?v = "at_item s a d st"
  have k: "\<not> kept tree options ?v" using Skip by (simp add: kept_def)
  show ?case
  proof (rule recorded_stuck)
    show "\<not> walk_step uspace tree options ?v w" for w using k by (auto elim!: walk_stepE simp: kept_directory_def)
    show "item_error tree options ?v = None" using Skip k by (simp add: item_error_def kept_directory_def)
  qed (use Skip k in \<open>simp_all add: push_excluded_def item_exclusion_def Let_def\<close>)
next
  case (Leaf s m d a st)
  let ?v = "at_item s a d st"
  have k: "kept tree options ?v" "\<not> kept_directory tree options ?v" using Leaf by (simp_all add: kept_def kept_directory_def)
  show ?case
  proof (rule recorded_stuck)
    show "\<not> walk_step uspace tree options ?v w" for w using k by (auto elim!: walk_stepE)
    show "item_error tree options ?v = None" using Leaf k by (simp add: item_error_def)
  qed (use Leaf k push_entry_sets [of tree options ?v m st] in simp_all)
next
  case (Loop s m d a st st1)
  let ?v = "at_item s a d st"
  note e = \<open>enter_directory _ _ _ _ = _\<close>
  have k: "kept tree options ?v" "kept_directory tree options ?v" using Loop by (simp_all add: kept_def kept_directory_def)
  have l: "is_loop tree options ?v" using enter_loop(1) [OF e, of a d] by simp
  show ?case
  proof (rule recorded_stuck)
    show "\<not> walk_step uspace tree options ?v w" for w using l by (auto elim!: walk_stepE)
    show "item_error tree options ?v = None" using Loop k l by (auto simp: item_error_def is_loop_def split: sum.splits)
  qed (use Loop k push_entry_sets [of tree options ?v m st] enter_records [OF e] in simp_all)
next
  case (Dir s m d a st mk st1 names st2)
  let ?v = "at_item s a d st" and ?ld = "load_gitignore uspace tree options s a st1"
  note e = \<open>enter_directory _ _ _ _ = _\<close> and r = \<open>fs_read_dir _ _ = _\<close>
  have k: "kept_directory tree options ?v" using Dir by (simp add: kept_def kept_directory_def)
  have l: "\<not> is_loop tree options ?v" using enter_loop(1) [OF e, of a d] by simp
  have err: "item_error tree options ?v = None"
    using \<open>walk_metadata _ _ _ = _\<close> \<open>d \<le> 1024\<close> k l r enter_loop(2) [OF e] by (auto simp: item_error_def is_loop_def read_dir_error_def split: sum.splits)
  have "(\<lambda>n. at_item (s @ [Normal n]) (a @ ''/'' @ from_utf8_lossy n) (Suc d) ?ld) ` set names =
      child_item uspace tree options ?v ` set names"
    by (simp add: child_at_item enter_vectors [OF e])
  then have ch: "recorded uspace tree options (child_item uspace tree options ?v ` set names) ?ld st2"
    using Dir.IH by simp
  have "recorded uspace tree options {?v} st st2"
    by (rule recorded_directory [OF k l _ err ch])
      (use r push_entry_sets [of tree options ?v m st] \<open>walk_metadata _ _ _ = _\<close> enter_records [OF e] in simp_all)
  then show ?case by (simp add: recorded_def)
next
  case (Each s n a d st st1 ns st2)
  have v: "gitignore_rules st1 = gitignore_rules st" "active_dirs st1 = active_dirs st"
    using walks_vectors(1) [OF Each(1)] by simp_all
  show ?case using recorded_union [OF Each(2,4)] by (simp add: v)
qed (simp add: recorded_empty)

lemma walk_error:
  "walk uspace tree options s a d st = Inl e \<Longrightarrow>
     \<exists>w \<in> below uspace tree options (at_item s a d st). item_error tree options w = Some e"
  "walk_children uspace tree options s a d names st = Inl e \<Longrightarrow>
     \<exists>n \<in> set names. \<exists>w \<in> below uspace tree options (at_item (s @ [Normal n]) (a @ ''/'' @ from_utf8_lossy n) d st).
       item_error tree options w = Some e"
proof (induction uspace tree options s a d st and uspace tree options s a d names st
       rule: walk_walk_children.induct)
  case (1 uspace tree options s a d st)
  let ?v = "at_item s a d st"
  have self: "?v \<in> below uspace tree options ?v" by (simp add: below_def)
  show ?case
  proof (cases "item_error tree options ?v = Some e")
    case False
    obtain m where m: "walk_metadata tree options s = Inr m" and d: "d \<le> 1024"
      using False "1.prems" by (auto simp: walk.simps [of uspace] result_simps item_error_def not_less split: if_splits)
    have n: "walk_reason options s a d m (gitignore_rules st) = None" and t: "manifest_file_type_of m = MDirectory"
      using "1.prems" m d by (auto simp: walk.simps [of uspace] split: option.splits if_splits)
    have k: "kept_directory tree options ?v" using m d n t by (simp add: kept_def kept_directory_def)
    obtain mk st1 where en: "enter_directory tree options s (push_entry tree s a m st) = Inr (mk, st1)"
    proof (cases "enter_directory tree options s (push_entry tree s a m st)")
      case (Inl x)
      then have "e = x" using "1.prems" m d n t by (simp add: walk.simps [of uspace])
      then show ?thesis using Inl False m d k
        by (auto simp: enter_directory_def item_error_def split: if_splits sum.splits)
    qed (metis surj_pair that)
    obtain b where b: "mk = Some b" using "1.prems" m d n t en by (cases mk) (auto simp: walk.simps [of uspace])
    have l: "\<not> is_loop tree options ?v" using enter_loop(1) [OF en, of a d] b by simp
    let ?ld = "load_gitignore uspace tree options s a st1"
    have rd: "item_error tree options ?v = read_dir_error tree ?v"
      using m d k l enter_loop(2) [OF en] by (auto simp: item_error_def is_loop_def split: sum.splits)
    obtain names where r: "fs_read_dir tree s = Inr names"
      using "1.prems" m d n t en b False unfolding rd
      by (cases "fs_read_dir tree s") (auto simp: walk.simps [of uspace] read_dir_error_def Let_def)
    have c: "walk_children uspace tree options s a (d + 1) names ?ld = Inl e"
      using "1.prems" m d n t en b r by (auto simp: walk.simps [of uspace] result_simps Let_def)
    have "\<exists>x \<in> set names. \<exists>w \<in> below uspace tree options (at_item (s @ [Normal x]) (a @ ''/'' @ from_utf8_lossy x) (d + 1) ?ld).
        item_error tree options w = Some e"
      by (rule "1.IH" [OF m _ n t en refl b refl refl _ c]) (use d r in simp_all)
    then show ?thesis
      using below_directory [OF k l, of names uspace] r by (auto simp: child_at_item enter_vectors [OF en] b)
  qed (use self in blast)
next
  case (3 uspace tree options s a d n ns st)
  show ?case
  proof (cases "walk uspace tree options (s @ [Normal n]) (a @ ''/'' @ from_utf8_lossy n) d st")
    case (Inl x)
    then show ?thesis using 3 by auto
  next
    case (Inr st1)
    have v: "gitignore_rules st1 = gitignore_rules st" "active_dirs st1 = active_dirs st"
      using walks_vectors(1) [OF walk_walks(1) [OF Inr]] by simp_all
    have "walk_children uspace tree options s a d ns st1 = Inl e" using "3.prems" Inr by simp
    from "3.IH"(2) [OF Inr this] show ?thesis by (simp add: v)
  qed
qed simp

section \<open>Plans\<close>

definition root_item :: "path \<Rightarrow> item" where
  "root_item root = \<lparr>item_source = root, item_path = from_utf8_lossy (the (path_file_name root)), item_depth = 0,
                     item_rules = [], item_active = []\<rparr>"

definition reached :: "(string \<Rightarrow> bool) \<Rightarrow> source_tree \<Rightarrow> plan_options \<Rightarrow> path list \<Rightarrow> item set" where
  "reached uspace tree options roots = (\<Union>r \<in> set roots. below uspace tree options (root_item r))"

text \<open>All that can go wrong in a plan: no source, a source without a name, or a failing item.\<close>

definition plan_failures :: "(string \<Rightarrow> bool) \<Rightarrow> source_tree \<Rightarrow> plan_options \<Rightarrow> path list \<Rightarrow> plan_error set" where
  "plan_failures uspace tree options roots =
     {e. \<exists>r \<in> set roots. path_file_name r = None \<and> e = MissingFileName r} \<union>
     {e. \<exists>r \<in> set roots. path_file_name r \<noteq> None \<and>
        (\<exists>v \<in> below uspace tree options (root_item r). item_error tree options v = Some e)}"

lemma recorded_clear:
  "recorded uspace tree options V (st\<lparr>gitignore_rules := rs, active_dirs := ds\<rparr>) st' \<longleftrightarrow> recorded uspace tree options V st st'"
  by (simp add: recorded_def)

lemma walk_roots_recorded:
  "walk_roots uspace tree options roots st = Inr st' \<Longrightarrow>
     recorded uspace tree options (root_item ` set roots) st st' \<and> list_all (\<lambda>r. path_file_name r \<noteq> None) roots"
proof (induction roots arbitrary: st)
  case (Cons r rs)
  let ?clear = "st\<lparr>gitignore_rules := [], active_dirs := []\<rparr>"
  obtain name st1 where n: "path_file_name r = Some name"
    and w: "walk uspace tree options r (from_utf8_lossy name) 0 ?clear = Inr st1"
    and rest: "walk_roots uspace tree options rs st1 = Inr st'"
    using Cons.prems by (auto simp: result_simps archive_file_name_def split: option.splits)
  have "recorded uspace tree options {root_item r} st st1"
    using walks_recorded(1) [OF walk_walks(1) [OF w]] n by (simp add: root_item_def recorded_clear)
  from recorded_union [OF this] Cons.IH [OF rest] n show ?case by auto
qed (simp add: recorded_empty)

lemma walk_roots_error:
  "walk_roots uspace tree options roots st = Inl e \<Longrightarrow> e \<in> plan_failures uspace tree options roots"
proof (induction roots arbitrary: st)
  case (Cons r rs)
  let ?clear = "st\<lparr>gitignore_rules := [], active_dirs := []\<rparr>"
  have mono: "plan_failures uspace tree options rs \<subseteq> plan_failures uspace tree options (r # rs)"
    by (auto simp: plan_failures_def)
  show ?case
  proof (cases "path_file_name r")
    case None
    then show ?thesis using Cons.prems by (auto simp: archive_file_name_def plan_failures_def)
  next
    case (Some name)
    show ?thesis
    proof (cases "walk uspace tree options r (from_utf8_lossy name) 0 ?clear")
      case (Inl x)
      then have "x = e" using Cons.prems Some by (simp add: archive_file_name_def)
      then show ?thesis using walk_error(1) [OF Inl] Some by (auto simp: plan_failures_def root_item_def)
    next
      case (Inr st1)
      then show ?thesis using Cons Some mono by (auto simp: archive_file_name_def)
    qed
  qed
qed simp

lemma plan_archive_roots_cases:
  "plan_archive_roots uspace ulower tree roots base options = Inr m \<longleftrightarrow>
     (\<exists>st. walk_roots uspace tree options roots new_planner = Inr st \<and>
        m = \<lparr>manifest_root = base, manifest_entries = sort_key archive_path (entries st),
             manifest_total_bytes = total_bytes st, manifest_excluded = sort_key excluded_path (excluded_entries st),
             manifest_excluded_bytes = excluded_bytes st,
             manifest_warnings = sort_key warning_path
               (record_archive_path_collisions ulower (sort_key archive_path (entries st)) (warnings st))\<rparr>)"
  by (auto simp: plan_archive_roots_def result_simps Let_def)

lemma plan_archives_roots:
  "sources \<noteq> [] \<Longrightarrow> plan_archives uspace ulower tree sources options =
     plan_archive_roots uspace ulower tree sources
       (case common_parent sources of None \<Rightarrow> hd sources | Some p \<Rightarrow> p) options"
  by (cases sources) (auto simp: plan_archives_def cong: option.case_cong)

lemma plan_archives_entries:
  assumes "plan_archives uspace ulower tree sources options = Inr m"
  shows "set (manifest_entries m) = item_entry tree options ` {v \<in> reached uspace tree options sources. kept tree options v}"
    and "set (manifest_excluded m) = item_exclusion tree options ` {v \<in> reached uspace tree options sources. \<not> kept tree options v}"
    and "sorted (map archive_path (manifest_entries m))" "sorted (map excluded_path (manifest_excluded m))"
proof -
  have "sources \<noteq> []" using assms by (auto simp: plan_archives_def)
  then obtain st where w: "walk_roots uspace tree options sources new_planner = Inr st"
    and m: "manifest_entries m = sort_key archive_path (entries st)"
      "manifest_excluded m = sort_key excluded_path (excluded_entries st)"
    using assms by (auto simp: plan_archives_roots plan_archive_roots_cases)
  have "recorded uspace tree options (root_item ` set sources) new_planner st"
    using walk_roots_recorded [OF w] by simp
  then have "set (entries st) = (\<Union>r \<in> set sources. shown uspace tree options (root_item r))"
    "set (excluded_entries st) = (\<Union>r \<in> set sources. hidden uspace tree options (root_item r))"
    by (simp_all add: recorded_def new_planner_def)
  then show "set (manifest_entries m) = item_entry tree options ` {v \<in> reached uspace tree options sources. kept tree options v}"
    "set (manifest_excluded m) = item_exclusion tree options ` {v \<in> reached uspace tree options sources. \<not> kept tree options v}"
    by (auto simp: m reached_def shown_def hidden_def)
  show "sorted (map archive_path (manifest_entries m))" "sorted (map excluded_path (manifest_excluded m))"
    by (simp_all add: m)
qed

text \<open>
  C29. The manifest is exactly what the exclusion rules say.  The entries of a plan are the
  entries of the items that can be reached from the sources through kept directories and are
  kept themselves, the excluded entries are the reachable items that are not kept, each with
  the reason of its first matching rule, and both lists are sorted by archive path.
\<close>

theorem plan_archives_lists_reachable:
  assumes "plan_archives uspace ulower tree sources options = Inr m"
  shows "set (manifest_entries m) = item_entry tree options ` {v \<in> reached uspace tree options sources. kept tree options v} \<and>
    set (manifest_excluded m) = item_exclusion tree options ` {v \<in> reached uspace tree options sources. \<not> kept tree options v} \<and>
    sorted (map archive_path (manifest_entries m)) \<and> sorted (map excluded_path (manifest_excluded m))"
  using plan_archives_entries [OF assms] by blast

lemma plan_archives_walk:
  "sources \<noteq> [] \<Longrightarrow> (\<exists>m. plan_archives uspace ulower tree sources options = Inr m) \<longleftrightarrow>
     (\<exists>st. walk_roots uspace tree options sources new_planner = Inr st)"
  by (auto simp: plan_archives_roots plan_archive_roots_cases)

lemma plan_archives_no_failure:
  assumes "plan_archives uspace ulower tree sources options = Inr m"
  shows "plan_failures uspace tree options sources = {}"
proof -
  have "sources \<noteq> []" using assms by (auto simp: plan_archives_def)
  then obtain st where "walk_roots uspace tree options sources new_planner = Inr st"
    using assms plan_archives_walk by metis
  from walk_roots_recorded [OF this] show ?thesis
    by (auto simp: recorded_def plan_failures_def list_all_iff)
qed

text \<open>
  C30. Planning fails exactly for a reason: when it fails, the error is the error of a source
  without a name or of an item that the walk reaches, and when it succeeds there is no such
  error, so no unreadable directory, vanished file or overlong chain below the sources is
  passed over in silence.
\<close>

theorem plan_archives_errors:
  "case plan_archives uspace ulower tree sources options of
     Inl e \<Rightarrow> if sources = [] then e = MissingFileName [] else e \<in> plan_failures uspace tree options sources
   | Inr m \<Rightarrow> sources \<noteq> [] \<and> plan_failures uspace tree options sources = {}"
proof (cases "plan_archives uspace ulower tree sources options")
  case (Inl e)
  show ?thesis
  proof (cases "sources = []")
    case False
    then have "walk_roots uspace tree options sources new_planner = Inl e"
      using Inl by (auto simp: plan_archives_roots plan_archive_roots_def result_simps Let_def)
    then show ?thesis using Inl False walk_roots_error by simp
  qed (use Inl in \<open>simp add: plan_archives_def\<close>)
next
  case (Inr m)
  then show ?thesis using plan_archives_no_failure [OF Inr] by (auto simp: plan_archives_def)
qed

text \<open>The concrete tree of the witnesses: a directory \<open>p\<close> with a source file, a build directory
  and an unreadable link.\<close>

definition plain_meta :: "file_kind \<Rightarrow> u64 \<Rightarrow> src_metadata" where
  "plain_meta k n = \<lparr>meta_kind = k, meta_len = n, meta_modified = None, meta_readonly = False, meta_mode = 420\<rparr>"

definition sample_meta :: "path \<Rightarrow> (io_error, src_metadata) result" where
  "sample_meta s =
     (if s = [Normal ''p''] \<or> s = [Normal ''p'', Normal ''build''] then Inr (plain_meta DirectoryFile 0)
      else if s = [Normal ''p'', Normal ''a.rs''] then Inr (plain_meta RegularFile 7)
      else if s = [Normal ''p'', Normal ''ln''] then Inr (plain_meta SymlinkFile 3)
      else Inl absent_error)"

definition sample_tree :: source_tree where
  "sample_tree =
     \<lparr>fs_metadata = sample_meta, fs_symlink_metadata = sample_meta, fs_canonicalize = Inr,
      fs_read_dir = (\<lambda>s. if s = [Normal ''p''] then Inr [''ln'', ''build'', ''a.rs''] else Inl absent_error),
      fs_read_link = (\<lambda>_. Inl absent_error), fs_read_to_string = (\<lambda>_. Inl absent_error)\<rparr>"

lemma sample_plan:
  "plan_archives (\<lambda>_. False) id sample_tree [[Normal ''p'']] clean_source =
     Inr \<lparr>manifest_root = [],
       manifest_entries = map (\<lambda>(a, s, t, n). \<lparr>archive_path = a, source_path = s, file_type = t, entry_size = n, modified = None,
            permissions = \<lparr>readonly = False, unix_mode = Some 420\<rparr>, symlink_target = None\<rparr>)
          [(''p'', [Normal ''p''], MDirectory, 0), (''p/a.rs'', [Normal ''p'', Normal ''a.rs''], MFile, 7),
           (''p/ln'', [Normal ''p'', Normal ''ln''], MSymlink, 0)],
       manifest_total_bytes = 7,
       manifest_excluded = [\<lparr>excluded_path = ''p/build'', excluded_source = [Normal ''p'', Normal ''build''],
                             reason = ''clean source exclusion: build'', excluded_size = 0\<rparr>],
       manifest_excluded_bytes = 0,
       manifest_warnings = [\<lparr>warning_path = [Normal ''p'', Normal ''ln''],
                             warning_message = ''failed to read symlink target: not found''\<rparr>]\<rparr>"
  by code_simp

theorem plan_archives_lists_reachable_witness:
  "{v \<in> reached (\<lambda>_. False) sample_tree clean_source [[Normal ''p'']]. \<not> kept sample_tree clean_source v} \<noteq> {}"
proof -
  note e = plan_archives_lists_reachable [OF sample_plan, THEN conjunct2, THEN conjunct1, symmetric]
  have "item_exclusion sample_tree clean_source `
      {v \<in> reached (\<lambda>_. False) sample_tree clean_source [[Normal ''p'']]. \<not> kept sample_tree clean_source v} \<noteq> {}"
    unfolding e by simp
  then show ?thesis by (simp only: image_is_empty not_False_eq_True)
qed

section \<open>Totals\<close>

lemma sum_list_snoc_saturating:
  fixes t n :: "'a::len word"
  assumes "unat t = min S (2 ^ LENGTH('a) - 1)"
  shows "unat (saturating_add t n) = min (S + unat n) (2 ^ LENGTH('a) - 1)"
  using assms by (auto simp: bound_simps)

definition totalled :: "walk_state \<Rightarrow> bool" where
  "totalled st \<longleftrightarrow>
     unat (total_bytes st) = min (\<Sum>e \<leftarrow> entries st. unat (entry_size e)) (2 ^ 64 - 1) \<and>
     unat (excluded_bytes st) = min (\<Sum>x \<leftarrow> excluded_entries st. unat (excluded_size x)) (2 ^ 64 - 1)"

lemma totalled_push_excluded: "totalled st \<Longrightarrow> totalled (push_excluded s a m why st)"
  by (simp add: totalled_def push_excluded_def Let_def sum_list_snoc_saturating)

lemma totalled_push_entry:
  assumes "totalled st"
  shows "totalled (push_entry tree s a m st)"
proof -
  obtain e ws where b: "build_entry tree s a m (warnings st) = (e, ws)" by fastforce
  then have "file_type e \<noteq> MFile \<longrightarrow> entry_size e = 0" by (auto simp: build_entry_def Let_def split: prod.splits)
  then show ?thesis using assms b by (auto simp: totalled_def push_entry_def sum_list_snoc_saturating)
qed

lemma totalled_same:
  "totalled st \<Longrightarrow> entries st1 = entries st \<Longrightarrow> excluded_entries st1 = excluded_entries st \<Longrightarrow>
     total_bytes st1 = total_bytes st \<Longrightarrow> excluded_bytes st1 = excluded_bytes st \<Longrightarrow> totalled st1"
  by (simp add: totalled_def)

lemma walks_totalled:
  "walks uspace tree options s a d st st' \<Longrightarrow> totalled st \<Longrightarrow> totalled st'"
  "walks_all uspace tree options s a d names st st' \<Longrightarrow> totalled st \<Longrightarrow> totalled st'"
proof (induction rule: walks_walks_all.inducts)
  case (Loop s m d a st st1)
  show ?case
    by (rule totalled_same [OF totalled_push_entry [OF Loop.prems, of tree s a m]])
      (simp_all add: enter_records [OF \<open>enter_directory _ _ _ _ = _\<close>])
next
  case (Dir s m d a st mk st1 names st2)
  have "totalled (load_gitignore uspace tree options s a st1)"
    by (rule totalled_same [OF totalled_push_entry [OF Dir.prems, of tree s a m]])
      (simp_all add: enter_records [OF \<open>enter_directory _ _ _ _ = _\<close>])
  then have "totalled st2" using Dir by blast
  then show ?case by (rule totalled_same) simp_all
qed (auto intro: totalled_push_excluded totalled_push_entry)

lemma walk_roots_totalled:
  "walk_roots uspace tree options roots st = Inr st' \<Longrightarrow> totalled st \<Longrightarrow> totalled st'"
proof (induction roots arbitrary: st)
  case (Cons r rs)
  let ?clear = "st\<lparr>gitignore_rules := [], active_dirs := []\<rparr>"
  obtain name st1 where w: "walk uspace tree options r name 0 ?clear = Inr st1"
    and rest: "walk_roots uspace tree options rs st1 = Inr st'"
    using Cons.prems(1) by (auto simp: result_simps)
  have "totalled ?clear" by (rule totalled_same [OF Cons.prems(2)]) simp_all
  then show ?case using Cons.IH [OF rest] walks_totalled(1) [OF walk_walks(1) [OF w]] by blast
qed simp

lemma sum_list_sort_key: "(\<Sum>x \<leftarrow> sort_key k xs. f x) = (\<Sum>x \<leftarrow> xs. f x :: nat)"
  by (metis mset_map mset_sort sum_mset_sum_list)

text \<open>
  The byte totals of a manifest are the sums of the sizes of its entries and of its excluded
  entries, held at the greatest 64-bit value when the sum does not fit: they never wrap around
  to a small number.
\<close>

theorem plan_archives_totals:
  "case plan_archives uspace ulower tree sources options of
     Inl e \<Rightarrow> True
   | Inr m \<Rightarrow> unat (manifest_total_bytes m) = min (\<Sum>e \<leftarrow> manifest_entries m. unat (entry_size e)) (2 ^ 64 - 1) \<and>
             unat (manifest_excluded_bytes m) = min (\<Sum>x \<leftarrow> manifest_excluded m. unat (excluded_size x)) (2 ^ 64 - 1)"
proof (cases "plan_archives uspace ulower tree sources options")
  case (Inr m)
  then have "sources \<noteq> []" by (auto simp: plan_archives_def)
  then obtain st where w: "walk_roots uspace tree options sources new_planner = Inr st"
    and m: "m = \<lparr>manifest_root = manifest_root m, manifest_entries = sort_key archive_path (entries st),
             manifest_total_bytes = total_bytes st, manifest_excluded = sort_key excluded_path (excluded_entries st),
             manifest_excluded_bytes = excluded_bytes st, manifest_warnings = manifest_warnings m\<rparr>"
    using Inr by (auto simp: plan_archives_roots plan_archive_roots_cases)
  have "totalled new_planner" by (simp add: totalled_def new_planner_def)
  then have "totalled st" by (rule walk_roots_totalled [OF w])
  then show ?thesis unfolding Inr sum.case by (subst (1 2 3 4) m) (simp add: totalled_def sum_list_sort_key)
qed simp

section \<open>What a manifest never holds\<close>

lemma reached_ok:
  assumes "plan_archives uspace ulower tree sources options = Inr m" "v \<in> reached uspace tree options sources"
  shows "item_error tree options v = None"
proof -
  have "plan_failures uspace tree options sources = {}" using plan_archives_no_failure [OF assms(1)] .
  moreover have "path_file_name r \<noteq> None" if "r \<in> set sources" for r
    using calculation that by (auto simp: plan_failures_def)
  ultimately show ?thesis using assms(2) by (cases "item_error tree options v") (auto simp: plan_failures_def reached_def)
qed

lemma item_entry_fields [simp]:
  "archive_path (item_entry tree options v) = item_path v"
  "source_path (item_entry tree options v) = item_source v"
  "file_type (item_entry tree options v) = manifest_file_type_of (projr (walk_metadata tree options (item_source v)))"
  by (simp_all add: item_entry_def build_entry_def Let_def split: prod.split)

lemma child_item_fields [simp]:
  "item_source (child_item uspace tree options v n) = item_source v @ [Normal n]"
  "item_path (child_item uspace tree options v n) = item_path v @ ''/'' @ from_utf8_lossy n"
  "item_depth (child_item uspace tree options v n) = Suc (item_depth v)"
  by (simp_all add: child_item_def)

lemma kept_directory_entry:
  assumes "kept_directory tree options v"
  shows "kept tree options v" "file_type (item_entry tree options v) = MDirectory"
proof -
  show "kept tree options v" using assms by (simp add: kept_directory_def)
  show "file_type (item_entry tree options v) = MDirectory"
    using assms by (cases "walk_metadata tree options (item_source v)") (simp_all add: kept_directory_def)
qed

lemma reached_cases:
  assumes "v \<in> reached uspace tree options sources"
  obtains (root) r where "r \<in> set sources" "v = root_item r"
  | (child) u n where "u \<in> reached uspace tree options sources" "kept_directory tree options u"
      "v = child_item uspace tree options u n"
proof -
  from assms obtain r where r: "r \<in> set sources" "(walk_step uspace tree options)\<^sup>*\<^sup>* (root_item r) v"
    by (auto simp: reached_def below_def)
  from r(2) show thesis
  proof (cases rule: rtranclp.cases)
    case rtrancl_refl
    then show thesis using root r(1) by blast
  next
    case (rtrancl_into_rtrancl u)
    then have "u \<in> reached uspace tree options sources" using r(1) by (auto simp: reached_def below_def)
    then show thesis using child rtrancl_into_rtrancl(2) by (auto elim!: walk_stepE)
  qed
qed

definition has_parent_entry :: "manifest_entry list \<Rightarrow> manifest_entry \<Rightarrow> bool" where
  "has_parent_entry es e \<longleftrightarrow>
     (\<exists>p \<in> set es. file_type p = MDirectory \<and>
        (\<exists>n. source_path e = source_path p @ [Normal n] \<and> archive_path e = archive_path p @ ''/'' @ from_utf8_lossy n))"

lemma planned_item:
  assumes "plan_archives uspace ulower tree sources options = Inr m" "e \<in> set (manifest_entries m)"
  obtains v where "v \<in> reached uspace tree options sources" "kept tree options v" "e = item_entry tree options v"
  using plan_archives_entries [OF assms(1)] assms(2) by auto

text \<open>
  C31. A manifest is closed under parents: every entry is one of the sources or lies directly
  below a directory that is itself an entry, under that directory's archive path, so that an
  archive written in the order of the manifest never holds a file without its directory.
\<close>

theorem plan_archives_parents:
  "case plan_archives uspace ulower tree sources options of
     Inl e \<Rightarrow> True
   | Inr m \<Rightarrow> list_all (\<lambda>e. source_path e \<in> set sources \<or> has_parent_entry (manifest_entries m) e) (manifest_entries m)"
proof (cases "plan_archives uspace ulower tree sources options")
  case (Inr m)
  have "source_path e \<in> set sources \<or> has_parent_entry (manifest_entries m) e" if e: "e \<in> set (manifest_entries m)" for e
  proof -
    obtain v where v: "v \<in> reached uspace tree options sources" "kept tree options v" "e = item_entry tree options v"
      by (rule planned_item [OF Inr e])
    from v(1) show ?thesis
    proof (cases rule: reached_cases)
      case (root r)
      then show ?thesis by (simp add: v(3) root_item_def)
    next
      case (child u n)
      have "item_entry tree options u \<in> set (manifest_entries m)"
        using plan_archives_entries [OF Inr] child(1) kept_directory_entry(1) [OF child(2)] by blast
      then show ?thesis using kept_directory_entry(2) [OF child(2)]
        by (auto simp: has_parent_entry_def v(3) child(3) intro!: bexI [of _ "item_entry tree options u"])
    qed
  qed
  then show ?thesis by (simp add: Inr list_all_iff)
qed simp

definition well_formed_entry :: "manifest_entry \<Rightarrow> bool" where
  "well_formed_entry e \<longleftrightarrow>
     (file_type e \<noteq> MFile \<longrightarrow> entry_size e = 0) \<and> (file_type e \<noteq> MSymlink \<longrightarrow> symlink_target e = None) \<and>
     unix_mode (permissions e) \<noteq> None"

text \<open>
  Every entry of a manifest is well formed: only a regular file has a size, only a symbolic
  link has a target, and the permission bits are recorded.
\<close>

theorem plan_archives_well_formed:
  "case plan_archives uspace ulower tree sources options of
     Inl e \<Rightarrow> True | Inr m \<Rightarrow> list_all well_formed_entry (manifest_entries m)"
proof (cases "plan_archives uspace ulower tree sources options")
  case (Inr m)
  have "well_formed_entry (item_entry tree options v)" for v
    by (simp add: item_entry_def build_entry_def well_formed_entry_def permission_snapshot_of_def read_target_def Let_def
        split: sum.split)
  then have "well_formed_entry e" if "e \<in> set (manifest_entries m)" for e
    using planned_item [OF Inr that] by metis
  then show ?thesis by (simp add: Inr list_all_iff)
qed simp

lemma depth_one:
  assumes "v \<in> reached uspace tree options sources" "item_source v \<notin> set sources"
  shows "0 < item_depth v"
  using assms(1) by (cases rule: reached_cases) (use assms(2) in \<open>auto simp: root_item_def\<close>)

lemma excluded_name_reason:
  assumes "path_file_name s = Some name" "from_utf8_lossy name \<in> set (exclude_names options)"
    and "\<not> is_explicitly_included options a" "\<not> (ft = MDirectory \<and> has_explicit_include_descendant options a)"
  shows "exclusion_reason options s a ft rules \<noteq> None"
proof -
  have "name_reason options (from_utf8_lossy name) a ft rules \<noteq> None" using assms(2,4) by (simp add: name_reason_def)
  then show ?thesis using assms(1,3) by (simp add: exclusion_reason_def Let_def split: option.split)
qed

text \<open>
  Excluding a name works at every depth: an entry below the sources whose file name is in
  the list of excluded names was included explicitly, or is a directory that leads to an
  explicitly included path.
\<close>

theorem plan_archives_excluded_names:
  assumes "plan_archives uspace ulower tree sources options = Inr m" "e \<in> set (manifest_entries m)"
    and "source_path e \<notin> set sources" "path_file_name (source_path e) = Some name"
    and "from_utf8_lossy name \<in> set (exclude_names options)"
  shows "is_explicitly_included options (archive_path e) \<or>
    file_type e = MDirectory \<and> has_explicit_include_descendant options (archive_path e)"
proof -
  obtain v where v: "v \<in> reached uspace tree options sources" "kept tree options v" "e = item_entry tree options v"
    by (rule planned_item [OF assms(1,2)])
  have d: "0 < item_depth v" by (rule depth_one [OF v(1)]) (use assms(3) v(3) in simp)
  obtain meta where meta: "walk_metadata tree options (item_source v) = Inr meta"
    and r: "exclusion_reason options (item_source v) (item_path v) (manifest_file_type_of meta) (item_rules v) = None"
    using v(2) d by (auto simp: kept_def walk_reason_def split: sum.splits)
  have "path_file_name (item_source v) = Some name" using assms(4) by (simp add: v(3))
  from excluded_name_reason [OF this assms(5)] r show ?thesis unfolding v(3) item_entry_fields meta sum.sel by metis
qed

definition no_rs_options :: plan_options where
  "no_rs_options = clean_source\<lparr>exclude_names := [''a.rs''], include_archive_paths := [''p/a.rs'']\<rparr>"

theorem plan_archives_excluded_names_witness:
  "case plan_archives (\<lambda>_. False) id sample_tree [[Normal ''p'']] no_rs_options of
     Inl e \<Rightarrow> False
   | Inr m \<Rightarrow> archive_path (manifest_entries m ! 1) = ''p/a.rs'' \<and> is_explicitly_included no_rs_options ''p/a.rs''"
proof -
  let ?plan = "plan_archives (\<lambda>_. False) id sample_tree [[Normal ''p'']] no_rs_options"
  have c: "(case ?plan of Inl e \<Rightarrow> False | Inr m \<Rightarrow> 1 < length (manifest_entries m) \<and>
      (let e = manifest_entries m ! 1
       in archive_path e = ''p/a.rs'' \<and> source_path e \<notin> set [[Normal ''p'']] \<and> path_file_name (source_path e) = Some ''a.rs'' \<and>
          from_utf8_lossy ''a.rs'' \<in> set (exclude_names no_rs_options) \<and> file_type e = MFile))"
    by code_simp
  then obtain m where m: "?plan = Inr m" by (cases ?plan) simp_all
  note c = c [unfolded m sum.case Let_def]
  have "manifest_entries m ! 1 \<in> set (manifest_entries m)" using c by (intro nth_mem) blast
  from plan_archives_excluded_names [OF m this, of "''a.rs''"] c
  have "is_explicitly_included no_rs_options ''p/a.rs''" by (metis manifest_file_type.distinct(1))
  then show ?thesis unfolding m sum.case using c by blast
qed

section \<open>Collision warnings\<close>

definition previous_same_key :: "(string \<Rightarrow> string) \<Rightarrow> manifest_entry list \<Rightarrow> nat \<Rightarrow> nat option" where
  "previous_same_key ulower es i =
     (let hits = filter (\<lambda>j. case_collision_key ulower (archive_path (es ! j)) =
                             case_collision_key ulower (archive_path (es ! i))) [0 ..< i]
      in if hits = [] then None else Some (last hits))"

definition collision_warning :: "manifest_entry list \<Rightarrow> nat \<Rightarrow> nat \<Rightarrow> manifest_warning" where
  "collision_warning es i j =
     \<lparr>warning_path = source_path (es ! i),
      warning_message = ''archive path may collide with '' @ archive_path (es ! j) @ '' on case-insensitive file systems''\<rparr>"

definition warning_at :: "(string \<Rightarrow> string) \<Rightarrow> manifest_entry list \<Rightarrow> nat \<Rightarrow> manifest_warning list" where
  "warning_at ulower es i =
     (case previous_same_key ulower es i of None \<Rightarrow> [] | Some j \<Rightarrow> [collision_warning es i j])"

definition collision_warnings :: "(string \<Rightarrow> string) \<Rightarrow> manifest_entry list \<Rightarrow> manifest_warning list" where
  "collision_warnings ulower es = concat (map (warning_at ulower es) [0 ..< length es])"

text \<open>The map after a prefix of the entries: the last path with each key.\<close>

definition seen_after :: "(string \<Rightarrow> string) \<Rightarrow> manifest_entry list \<Rightarrow> (string \<rightharpoonup> string)" where
  "seen_after ulower es = map_of (rev (map (\<lambda>e. (case_collision_key ulower (archive_path e), archive_path e)) es))"

lemma seen_after_snoc:
  "seen_after ulower (es @ [e]) = (seen_after ulower es)(case_collision_key ulower (archive_path e) \<mapsto> archive_path e)"
  by (simp add: seen_after_def)

lemma seen_after_last:
  "seen_after ulower es k =
     (let hits = filter (\<lambda>j. case_collision_key ulower (archive_path (es ! j)) = k) [0 ..< length es]
      in if hits = [] then None else Some (archive_path (es ! last hits)))"
proof (induction es rule: rev_induct)
  case (snoc e es)
  let ?hits = "\<lambda>l. filter (\<lambda>j. case_collision_key ulower (archive_path (l ! j)) = k) [0 ..< length es]"
  have same: "?hits (es @ [e]) = ?hits es" by (rule filter_cong) (auto simp: nth_append)
  have "last (?hits es) < length es" if "?hits es \<noteq> []" using last_in_set [OF that] by simp
  then show ?case using snoc same
    by (cases "case_collision_key ulower (archive_path e) = k") (simp_all add: seen_after_snoc Let_def nth_append)
qed (simp add: seen_after_def)

lemma record_collisions_from:
  "record_collisions ulower es (seen_after ulower done) ws =
     ws @ concat (map (warning_at ulower (done @ es)) [length done ..< length done + length es])"
proof (induction es arbitrary: "done" ws)
  case (Cons e es)
  let ?k = "case_collision_key ulower (archive_path e)" and ?all = "done @ e # es" and ?n = "length done"
  have prev: "previous_same_key ulower ?all ?n =
      (let hits = filter (\<lambda>j. case_collision_key ulower (archive_path (done ! j)) = ?k) [0 ..< ?n]
       in if hits = [] then None else Some (last hits))"
  proof -
    have "filter (\<lambda>j. case_collision_key ulower (archive_path (?all ! j)) = ?k) [0 ..< ?n] =
        filter (\<lambda>j. case_collision_key ulower (archive_path (done ! j)) = ?k) [0 ..< ?n]"
      by (rule filter_cong) (auto simp: nth_append)
    then show ?thesis by (simp add: previous_same_key_def)
  qed
  have seen: "seen_after ulower done ?k = map_option (\<lambda>j. archive_path (?all ! j)) (previous_same_key ulower ?all ?n)"
  proof (cases "filter (\<lambda>j. case_collision_key ulower (archive_path (done ! j)) = ?k) [0 ..< ?n] = []")
    case False
    then have "last (filter (\<lambda>j. case_collision_key ulower (archive_path (done ! j)) = ?k) [0 ..< ?n]) < ?n"
      using last_in_set [OF False] by simp
    then show ?thesis using False by (simp add: prev seen_after_last Let_def nth_append)
  qed (simp add: prev seen_after_last Let_def)
  have step: "record_collisions ulower (e # es) (seen_after ulower done) ws =
      record_collisions ulower es (seen_after ulower (done @ [e]))
        (ws @ warning_at ulower ?all ?n)"
    by (cases "previous_same_key ulower ?all ?n")
      (simp_all add: seen seen_after_snoc Let_def collision_warning_def warning_at_def)
  have "[?n ..< ?n + length (e # es)] = ?n # [Suc ?n ..< Suc ?n + length es]"
    by (subst upt_rec) simp
  then show ?case unfolding step Cons.IH by (simp del: upt_Suc)
qed simp

text \<open>
  The collision warnings of a manifest are complete: for every entry whose archive path has
  the same case-folded key as an earlier entry there is exactly one warning, which names the
  nearest such entry, and there are no others.
\<close>

theorem record_archive_path_collisions_correct:
  "record_archive_path_collisions ulower es ws = ws @ collision_warnings ulower es"
  using record_collisions_from [of ulower es "[]" ws]
  by (simp add: record_archive_path_collisions_def collision_warnings_def seen_after_def)

lemma no_collision_warnings:
  "collision_warnings ulower es = [] \<longleftrightarrow> distinct (map (\<lambda>e. case_collision_key ulower (archive_path e)) es)"
proof -
  have "collision_warnings ulower es = [] \<longleftrightarrow> (\<forall>i < length es. previous_same_key ulower es i = None)"
    by (auto simp: collision_warnings_def warning_at_def split: option.splits)
  also have "\<dots> \<longleftrightarrow> (\<forall>i < length es. \<forall>j < i. case_collision_key ulower (archive_path (es ! j)) \<noteq>
      case_collision_key ulower (archive_path (es ! i)))"
    by (auto simp: previous_same_key_def Let_def filter_empty_conv split: if_splits) fastforce
  also have "\<dots> \<longleftrightarrow> distinct (map (\<lambda>e. case_collision_key ulower (archive_path e)) es)"
    by (auto simp: distinct_conv_nth) (metis nat_neq_iff less_trans)+
  finally show ?thesis .
qed

end
