(* ===== verification/Uu_Decoder.thy ===== *)
theory Uu_Decoder
  imports Segmented_Reader
begin

text \<open>
  The streaming decoder of uuencoded and base64 text
  (\<open>crates/zmanager-core/src/uu_decoder.rs\<close>): the line scanner, the state machine of header,
  body and end lines, the refill loop with its output cap, and \<open>Read::read\<close>.  The wrapped
  reader is a parameter: a function \<open>rd\<close> and its state.  \<open>produced\<close>, a local variable of
  \<open>fill\<close> that is handed down by reference, is a field of the state.  Both loops take fuel, so
  that not returning is the value \<open>None\<close>.
\<close>

section \<open>State\<close>

definition MAX_SCAN :: nat where "MAX_SCAN = 128 * 1024"
definition MAX_LINE :: nat where "MAX_LINE = 128 * 1024"
definition OUT_BUFF_SIZE :: nat where "OUT_BUFF_SIZE = 64 * 1024"
definition READ_CHUNK :: nat where "READ_CHUNK = 32 * 1024"

text \<open>The comparisons with these limits, evaluated on integers.\<close>

definition over_scan :: "nat \<Rightarrow> bool" where [simp]: "over_scan n \<longleftrightarrow> n > MAX_SCAN"
definition over_line :: "nat \<Rightarrow> bool" where [simp]: "over_line n \<longleftrightarrow> n > MAX_LINE"
definition over_out :: "nat \<Rightarrow> bool" where [simp]: "over_out n \<longleftrightarrow> n > OUT_BUFF_SIZE"

lemma over_code [code]:
  "over_scan n \<longleftrightarrow> int n > 131072" "over_line n \<longleftrightarrow> int n > 131072" "over_out n \<longleftrightarrow> int n > 65536"
  by (auto simp: MAX_SCAN_def MAX_LINE_def OUT_BUFF_SIZE_def)

declare READ_CHUNK_def [code del]

datatype uu_state = FindHead | ReadUu | UuEnd | ReadBase64 | IgnoreRest

record 's uu_decoder =
  uu_inner :: 's
  uu_state :: uu_state
  uu_input :: bytes
  uu_pos :: nat
  scanned :: nat
  uu_total :: u64
  uu_out :: bytes
  uu_out_pos :: nat
  uu_finished :: bool
  produced :: nat

definition uu_new :: "'s \<Rightarrow> 's uu_decoder" where
  "uu_new s = \<lparr>uu_inner = s, uu_state = FindHead, uu_input = [], uu_pos = 0, scanned = 0, uu_total = 0, uu_out = [],
                uu_out_pos = 0, uu_finished = False, produced = 0\<rparr>"

definition bad_data :: "string \<Rightarrow> io_error" where
  "bad_data m = \<lparr>kind = InvalidData, message = m\<rparr>"

definition insufficient :: io_error where
  "insufficient = bad_data ''insufficient uuencode data''"

type_synonym 's uu_step = "(io_error, unit) result \<times> 's uu_decoder"

section \<open>Alphabets\<close>

definition is_uu_char :: "u8 \<Rightarrow> bool" where
  "is_uu_char byte \<longleftrightarrow> 0x20 \<le> byte \<and> byte \<le> 0x60"

definition uu_decode :: "u8 \<Rightarrow> u8" where
  "uu_decode byte = and (byte - 0x20) 0x3f"

definition is_ascii_alphanumeric :: "u8 \<Rightarrow> bool" where
  "is_ascii_alphanumeric b \<longleftrightarrow> 0x30 \<le> b \<and> b \<le> 0x39 \<or> 0x41 \<le> b \<and> b \<le> 0x5a \<or> 0x61 \<le> b \<and> b \<le> 0x7a"

definition is_base64_char :: "u8 \<Rightarrow> bool" where
  "is_base64_char byte \<longleftrightarrow> is_ascii_alphanumeric byte \<or> byte = 0x2b \<or> byte = 0x2f \<or> byte = 0x3d"

definition base64_value :: "u8 \<Rightarrow> u8" where
  "base64_value byte =
     (if 0x41 \<le> byte \<and> byte \<le> 0x5a then byte - 0x41
      else if 0x61 \<le> byte \<and> byte \<le> 0x7a then byte - 0x61 + 26
      else if 0x30 \<le> byte \<and> byte \<le> 0x39 then byte - 0x30 + 52
      else if byte = 0x2b then 62
      else if byte = 0x2f then 63
      else 0)"

text \<open>\<open>u8::try_from(x).unwrap_or(0)\<close>\<close>

definition u8_or_zero :: "u32 \<Rightarrow> u8" where
  "u8_or_zero x = (if x < 256 then ucast x else 0)"

definition get_at :: "'a list \<Rightarrow> nat \<Rightarrow> 'a option" where
  "get_at xs i = (if i < length xs then Some (xs ! i) else None)"

definition emit :: "u32 \<Rightarrow> 's uu_decoder \<Rightarrow> 's uu_decoder" where
  "emit x d = d\<lparr>uu_out := uu_out d @ [u8_or_zero x], produced := produced d + 1\<rparr>"

section \<open>Lines\<close>

definition find_header :: "bytes \<Rightarrow> 's uu_decoder \<Rightarrow> 's uu_step" where
  "find_header line d =
     (let d = d\<lparr>scanned := scanned d + length line + 1\<rparr> in
      if over_scan (scanned d) then (Inl (bad_data ''invalid uuencode format data''), d)
      else
        let offset = (if length line \<ge> 11 \<and> starts_with line [0x62, 0x65, 0x67, 0x69, 0x6e, 0x20] then Some 6
                      else if length line \<ge> 18 \<and>
                        starts_with line [0x62, 0x65, 0x67, 0x69, 0x6e, 0x2d, 0x62, 0x61, 0x73, 0x65, 0x36, 0x34, 0x20]
                      then Some 13 else None)
        in case offset of
             None \<Rightarrow> (Inr (), d)
           | Some offset \<Rightarrow>
               let octal = (\<lambda>b. 0x30 \<le> b \<and> b \<le> (0x37 :: u8));
                   valid_mode = (offset + 4 \<le> length line \<and> octal (line ! offset) \<and> octal (line ! (offset + 1)) \<and>
                                 octal (line ! (offset + 2)) \<and> line ! (offset + 3) = 0x20)
               in if valid_mode
                  then (Inr (), d\<lparr>uu_state := (if offset = (6 :: nat) then ReadUu else ReadBase64), scanned := 0\<rparr>)
                  else (Inr (), d))"

text \<open>The second and the third byte of a group: \<open>shift\<close> places the sextet, \<open>out_shift\<close> cuts the
  byte.\<close>

definition uu_next ::
  "bytes \<Rightarrow> nat \<Rightarrow> nat \<Rightarrow> u32 \<times> nat \<times> nat \<Rightarrow> 's uu_decoder \<Rightarrow> (io_error, u32 \<times> nat \<times> nat) result \<times> 's uu_decoder" where
  "uu_next line shift out_shift s d =
     (case s of (value, count, cur) \<Rightarrow>
        if count > 0 then
          (case get_at line cur of
             None \<Rightarrow> (Inl insufficient, d)
           | Some next_char \<Rightarrow>
               if \<not> is_uu_char next_char then (Inl insufficient, d)
               else let value = or value (push_bit shift (ucast (uu_decode next_char)))
                    in (Inr (value, count - 1, cur + 1), emit (and (drop_bit out_shift value) 0xff) d))
        else (Inr s, d))"

lemma uu_next_count: "uu_next line shift out_shift (value, count, cur) d = (Inr (value', count', cur'), d') \<Longrightarrow> count' \<le> count"
  by (auto simp: uu_next_def Let_def split: if_splits option.splits)

lemma uu_group_count:
  "and_then_st (uu_next line 6 8 (value, count, cur) d) (uu_next line 0 0) = (Inr (value', count', cur'), d') \<Longrightarrow> count' \<le> count"
  by (auto simp: result_simps dest!: uu_next_count intro: order_trans)

function decode_uu_groups :: "bytes \<Rightarrow> nat \<Rightarrow> nat \<Rightarrow> 's uu_decoder \<Rightarrow> 's uu_step" where
  "decode_uu_groups line count cur d =
     (if count = 0 then (Inr (), d)
      else case (get_at line cur, get_at line (cur + 1)) of
        (Some first_char, Some second_char) \<Rightarrow>
          if \<not> is_uu_char first_char \<or> \<not> is_uu_char second_char then (Inl insufficient, d)
          else
            let value = or (push_bit 18 (ucast (uu_decode first_char))) (push_bit 12 (ucast (uu_decode second_char)));
                d1 = emit (drop_bit 16 value) d
            in (case and_then_st (uu_next line 6 8 (value, count - 1, cur + 2) d1) (uu_next line 0 0) of
                  (Inl e, d2) \<Rightarrow> (Inl e, d2)
                | (Inr (_, count', cur'), d2) \<Rightarrow> decode_uu_groups line count' cur' d2)
      | _ \<Rightarrow> (Inl insufficient, d))"
  by pat_completeness auto
termination
proof (relation "measure (\<lambda>(line, count, cur, d). count)", goal_cases)
  case 2
  then show ?case by (auto dest!: uu_group_count [OF sym])
qed simp

declare decode_uu_groups.simps [simp del]

definition decode_uu_line :: "bytes \<Rightarrow> 's uu_decoder \<Rightarrow> 's uu_step" where
  "decode_uu_line line d =
     (case line of
        [] \<Rightarrow> (Inl insufficient, d)
      | first # _ \<Rightarrow>
          if \<not> is_uu_char first then (Inl insufficient, d)
          else
            let count = unat (uu_decode first); body = length line - 1 in
            if count > body then (Inl insufficient, d)
            else if count = 0 then (Inr (), d\<lparr>uu_state := UuEnd\<rparr>)
            else decode_uu_groups line count 1 d)"

definition expect_end_line :: "bytes \<Rightarrow> 's uu_decoder \<Rightarrow> 's uu_step" where
  "expect_end_line line d =
     (if line = [0x65, 0x6e, 0x64] then (Inr (), d\<lparr>uu_state := FindHead\<rparr>) else (Inl insufficient, d))"

text \<open>The third and the fourth sextet of a base64 group; \<open>True\<close> is the \<open>break\<close>.\<close>

definition base64_next ::
  "bytes \<Rightarrow> nat \<Rightarrow> nat \<Rightarrow> bool \<times> u32 \<times> nat \<times> nat \<Rightarrow> 's uu_decoder \<Rightarrow> (bool \<times> u32 \<times> nat \<times> nat) \<times> 's uu_decoder" where
  "base64_next line shift out_shift s d =
     (case s of (stop, value, remaining, cur) \<Rightarrow>
        if \<not> stop \<and> remaining > 0 then
          (case get_at line cur of
             None \<Rightarrow> ((True, value, remaining, cur), d)
           | Some next_char \<Rightarrow>
               if next_char = 0x3d \<or> \<not> is_base64_char next_char then ((True, value, remaining, cur), d)
               else let value = or value (push_bit shift (ucast (base64_value next_char)))
                    in ((False, value, remaining - 1, cur + 1), emit (and (drop_bit out_shift value) 0xff) d))
        else (s, d))"

lemma base64_next_count:
  "base64_next line shift out_shift (stop, value, remaining, cur) d = ((stop', value', remaining', cur'), d') \<Longrightarrow>
     remaining' \<le> remaining"
  by (auto simp: base64_next_def Let_def split: if_splits option.splits)

definition base64_tail ::
  "bytes \<Rightarrow> u32 \<Rightarrow> nat \<Rightarrow> nat \<Rightarrow> 's uu_decoder \<Rightarrow> (bool \<times> u32 \<times> nat \<times> nat) \<times> 's uu_decoder" where
  "base64_tail line value remaining cur d =
     (case base64_next line 6 8 (False, value, remaining, cur) d of (s, d1) \<Rightarrow> base64_next line 0 0 s d1)"

lemma base64_tail_count:
  "base64_tail line value remaining cur d = ((stop', value', remaining', cur'), d') \<Longrightarrow> remaining' \<le> remaining"
  unfolding base64_tail_def
  by (cases "base64_next line 6 8 (False, value, remaining, cur) d") (auto dest!: base64_next_count intro: order_trans)

function decode_base64_groups :: "bytes \<Rightarrow> nat \<Rightarrow> nat \<Rightarrow> 's uu_decoder \<Rightarrow> (nat \<times> nat) \<times> 's uu_decoder" where
  "decode_base64_groups line remaining cur d =
     (if remaining = 0 then ((remaining, cur), d)
      else case (get_at line cur, get_at line (cur + 1)) of
        (Some first_char, Some second_char) \<Rightarrow>
          if \<not> is_base64_char first_char \<or> \<not> is_base64_char second_char then ((remaining, cur), d)
          else
            let value = or (push_bit 18 (ucast (base64_value first_char))) (push_bit 12 (ucast (base64_value second_char)))
            in (case base64_tail line value (remaining - 2) (cur + 2) (emit (drop_bit 16 value) d) of
                  ((stop, _, remaining', cur'), d2) \<Rightarrow>
                    if stop then ((remaining', cur'), d2) else decode_base64_groups line remaining' cur' d2)
      | _ \<Rightarrow> ((remaining, cur), d))"
  by pat_completeness auto
termination
proof (relation "measure (\<lambda>(line, remaining, cur, d). remaining)", goal_cases)
  case 2
  then show ?case by (auto dest!: base64_tail_count [OF sym])
qed simp

declare decode_base64_groups.simps [simp del]

definition decode_base64_line :: "bytes \<Rightarrow> 's uu_decoder \<Rightarrow> 's uu_step" where
  "decode_base64_line line d =
     (if length line \<ge> 3 \<and> starts_with line [0x3d, 0x3d, 0x3d] then (Inr (), d\<lparr>uu_state := FindHead\<rparr>)
      else
        (case decode_base64_groups line (length line) 0 d of
           ((remaining, cur), d') \<Rightarrow>
             if remaining > 0 \<and> (case get_at line cur of None \<Rightarrow> False | Some byte \<Rightarrow> byte \<noteq> 0x3d)
             then (Inl insufficient, d') else (Inr (), d')))"

text \<open>The state \<open>IgnoreRest\<close> never gets here: \<open>fill\<close> returns first, and the source marks the arm
  unreachable.\<close>

definition process_line :: "bytes \<Rightarrow> 's uu_decoder \<Rightarrow> 's uu_step" where
  "process_line line d =
     (case uu_state d of
        FindHead \<Rightarrow> find_header line d
      | ReadUu \<Rightarrow> decode_uu_line line d
      | UuEnd \<Rightarrow> expect_end_line line d
      | ReadBase64 \<Rightarrow> decode_base64_line line d
      | IgnoreRest \<Rightarrow> (Inl (bad_data ''unreachable''), d))"

section \<open>Refill and read\<close>

datatype line_scan = LineEnd nat nat | BadByte | NoLine

fun scan_line :: "nat \<Rightarrow> bytes \<Rightarrow> line_scan" where
  "scan_line idx [] = NoLine"
| "scan_line idx (b # bs) =
     (if b = 0x0a then LineEnd idx 1
      else if b = 0x0d then LineEnd idx (if bs \<noteq> [] \<and> hd bs = 0x0a then 2 else 1)
      else if 0x20 \<le> b \<and> b \<le> 0x7e then scan_line (idx + 1) bs
      else BadByte)"

definition compact :: "'s uu_decoder \<Rightarrow> 's uu_decoder" where
  "compact d = (if uu_pos d > 0 then d\<lparr>uu_input := drop (uu_pos d) (uu_input d), uu_pos := 0\<rparr> else d)"

text \<open>The source delivers nothing more.\<close>

definition at_end_of_stream :: "'s uu_decoder \<Rightarrow> 's uu_step" where
  "at_end_of_stream d =
     (if uu_pos d = length (uu_input d) then (Inr (), d\<lparr>uu_finished := True\<rparr>)
      else if uu_state d = UuEnd then
        and_then_st (process_line (drop (uu_pos d) (uu_input d)) d) (\<lambda>_ d'. (Inr (), d'\<lparr>uu_finished := True\<rparr>))
      else if produced d = 0 then (Inl (bad_data ''missing uuencode format data''), d)
      else (Inr (), d\<lparr>uu_finished := True\<rparr>))"

fun fill_loop :: "(nat \<Rightarrow> 's \<Rightarrow> (io_error, bytes) result \<times> 's) \<Rightarrow> nat \<Rightarrow> 's uu_decoder \<Rightarrow> 's uu_step option" where
  "fill_loop rd 0 d = None"
| "fill_loop rd (Suc fuel) d0 =
     (let d = compact d0 in
      if uu_state d = IgnoreRest then Some (Inr (), d\<lparr>uu_input := []\<rparr>)
      else
        case scan_line (uu_pos d) (drop (uu_pos d) (uu_input d)) of
          BadByte \<Rightarrow>
            if uu_state d = FindHead \<and> (uu_total d > 0 \<or> produced d > 0)
            then Some (Inr (), d\<lparr>uu_state := IgnoreRest, uu_input := []\<rparr>)
            else Some (Inl insufficient, d)
        | NoLine \<Rightarrow>
            if over_line (length (uu_input d) - uu_pos d)
            then Some (Inl (bad_data ''invalid uuencode line length''), d)
            else
              (case rd READ_CHUNK (uu_inner d) of
                 (Inl e, s) \<Rightarrow>
                   if kind e = Interrupted then fill_loop rd fuel (d\<lparr>uu_inner := s\<rparr>)
                   else Some (Inl e, d\<lparr>uu_inner := s\<rparr>)
               | (Inr bs, s) \<Rightarrow>
                   if bs = [] then Some (at_end_of_stream (d\<lparr>uu_inner := s\<rparr>))
                   else fill_loop rd fuel (d\<lparr>uu_inner := s, uu_input := uu_input d @ bs\<rparr>))
        | LineEnd content_end nl_size \<Rightarrow>
            let content = take (content_end - uu_pos d) (drop (uu_pos d) (uu_input d));
                line_len = length content + nl_size
            in if (uu_state d = ReadUu \<or> uu_state d = ReadBase64) \<and> over_out (length (uu_out d) + line_len * 2)
               then Some (Inr (), if uu_out d = [] then d\<lparr>uu_finished := True\<rparr> else d)
               else
                 (case process_line content (d\<lparr>uu_pos := content_end + nl_size\<rparr>) of
                    (Inl e, d') \<Rightarrow> Some (Inl e, d')
                  | (Inr _, d') \<Rightarrow> fill_loop rd fuel d'))"

definition fill :: "(nat \<Rightarrow> 's \<Rightarrow> (io_error, bytes) result \<times> 's) \<Rightarrow> nat \<Rightarrow> 's uu_decoder \<Rightarrow> 's uu_step option" where
  "fill rd fuel d = fill_loop rd fuel (d\<lparr>uu_out := [], uu_out_pos := 0, produced := 0\<rparr>)"

text \<open>One fuel for the iterations of \<open>read\<close> and one for each refill.\<close>

fun uu_read ::
  "(nat \<Rightarrow> 's \<Rightarrow> (io_error, bytes) result \<times> 's) \<Rightarrow> nat \<Rightarrow> nat \<Rightarrow> nat \<Rightarrow> 's uu_decoder \<Rightarrow> ((io_error, bytes) result \<times> 's uu_decoder) option" where
  "uu_read rd fuel 0 n d = None"
| "uu_read rd fuel (Suc turns) n d =
     (if uu_out_pos d < length (uu_out d) then
        let data = take n (drop (uu_out_pos d) (uu_out d))
        in Some (Inr data, d\<lparr>uu_out_pos := uu_out_pos d + length data, uu_total := uu_total d + of_nat (length data)\<rparr>)
      else if uu_finished d then Some (Inr [], d)
      else
        (case fill rd fuel d of
           None \<Rightarrow> None
         | Some (Inl e, d') \<Rightarrow> Some (Inl e, d')
         | Some (Inr _, d') \<Rightarrow> uu_read rd fuel turns n d'))"

declare fill_loop.simps [simp del] uu_read.simps [simp del]

section \<open>Groups of sextets\<close>

text \<open>The encoder of the format: three bytes are a 24-bit value and are written as four sextets,
  the last group filled up with zeros.\<close>

definition group24 :: "u8 \<Rightarrow> u8 \<Rightarrow> u8 \<Rightarrow> u32" where
  "group24 a b c = or (push_bit 16 (ucast a)) (or (push_bit 8 (ucast b)) (ucast c))"

definition sextet :: "nat \<Rightarrow> u32 \<Rightarrow> u8" where
  "sextet k v = ucast (take_bit 6 (drop_bit k v))"

lemma bit_sextet: "bit (sextet k v) n \<longleftrightarrow> n < 6 \<and> bit v (k + n)"
  by (auto simp: sextet_def bit_simps dest: bit_imp_le_length)

lemma bit_group24:
  "bit (group24 a b c) n \<longleftrightarrow> (if n < 8 then bit c n else if n < 16 then bit b (n - 8) else bit a (n - 16))"
  by (auto simp: group24_def bit_simps dest: bit_imp_le_length)

definition gather :: "u8 \<Rightarrow> u8 \<Rightarrow> u8 \<Rightarrow> u8 \<Rightarrow> u32" where
  "gather p q r s = or (or (or (push_bit 18 (ucast p)) (push_bit 12 (ucast q))) (push_bit 6 (ucast r))) (push_bit 0 (ucast s))"


lemma Suc_Suc_back: "2 \<le> n \<Longrightarrow> Suc (Suc (n - 2)) = n" "\<not> n < 2 \<Longrightarrow> Suc (Suc (n - 2)) = n" by simp_all

lemma gather_sextets: "gather (sextet 18 (group24 a b c)) (sextet 12 (group24 a b c)) (sextet 6 (group24 a b c)) (sextet 0 (group24 a b c)) = group24 a b c"
proof (rule bit_word_eqI)
  fix n assume n: "n < LENGTH(32)"
  let ?g = "group24 a b c"
  have hi: "\<not> bit ?g n" if "24 \<le> n" using that
    by (auto simp: bit_group24 dest: bit_imp_le_length)
  have m: "(n < 6 \<or> 6 \<le> n \<and> n < 12 \<or> 12 \<le> n \<and> n < 18 \<or> 18 \<le> n \<and> n < 24 \<or> 24 \<le> n)" by linarith
  have "bit (gather (sextet 18 ?g) (sextet 12 ?g) (sextet 6 ?g) (sextet 0 ?g)) n \<longleftrightarrow>
      (18 \<le> n \<and> n - 18 < 6 \<and> bit ?g (18 + (n - 18))) \<or> (12 \<le> n \<and> n - 12 < 6 \<and> bit ?g (12 + (n - 12))) \<or>
      (6 \<le> n \<and> n - 6 < 6 \<and> bit ?g (6 + (n - 6))) \<or> (n < 6 \<and> bit ?g n)"
    using n by (auto simp add: gather_def bit_simps bit_sextet)
  also have "\<dots> \<longleftrightarrow> bit ?g n"
    using m by (elim disjE conjE) (simp_all add: hi less_diff_conv2)
  finally show "bit (gather (sextet 18 ?g) (sextet 12 ?g) (sextet 6 ?g) (sextet 0 ?g)) n = bit ?g n" .
qed

lemma first_byte:
  "drop_bit 16 (or (push_bit 18 (ucast (sextet 18 (group24 a b c)))) (push_bit 12 (ucast (sextet 12 (group24 a b c))))) = (ucast a :: u32)"
  by (rule bit_word_eqI) (auto simp add: bit_simps bit_sextet bit_group24 Suc_Suc_back dest: bit_imp_le_length)

lemma second_byte:
  "and (drop_bit 8 (or (or (push_bit 18 (ucast (sextet 18 (group24 a b c)))) (push_bit 12 (ucast (sextet 12 (group24 a b c))))) 
      (push_bit 6 (ucast (sextet 6 (group24 a b c)))))) 0xff = (ucast b :: u32)"
proof -
  have m: "(0xff :: u32) = mask 8" by (simp add: mask_eq_exp_minus_1)
  show ?thesis unfolding m take_bit_eq_mask [symmetric]
  by (rule bit_word_eqI) (auto simp add: bit_simps bit_sextet bit_group24 Suc_Suc_back dest: bit_imp_le_length)
qed

lemma third_byte:
  "and (drop_bit 0 (gather (sextet 18 (group24 a b c)) (sextet 12 (group24 a b c)) (sextet 6 (group24 a b c)) (sextet 0 (group24 a b c)))) 0xff = (ucast c :: u32)"
proof -
  have m: "(0xff :: u32) = mask 8" by (simp add: mask_eq_exp_minus_1)
  show ?thesis unfolding m take_bit_eq_mask [symmetric] gather_sextets
  by (rule bit_word_eqI) (auto simp add: bit_simps bit_sextet bit_group24 dest: bit_imp_le_length)
qed

lemma u8_or_zero_ucast [simp]: "u8_or_zero (ucast b) = b"
proof -
  have b: "unat b < 256" using unsigned_less [of b, where ?'a = nat] by simp
  then have "unat (ucast b :: u32) = unat b" by (simp add: unsigned_ucast_eq take_bit_nat_eq_self)
  then have "(ucast b :: u32) < 256" using b by (simp add: word_less_nat_alt)
  then show ?thesis by (simp add: u8_or_zero_def ucast_up_ucast_id is_up)
qed

definition put :: "bytes \<Rightarrow> 's uu_decoder \<Rightarrow> 's uu_decoder" where
  "put bs d = d\<lparr>uu_out := uu_out d @ bs, produced := produced d + length bs\<rparr>"

lemma put_put [simp]: "put bs (put as d) = put (as @ bs) d"
  by (simp add: put_def)

lemma put_Nil [simp]: "put [] d = d"
  by (simp add: put_def)

lemma emit_ucast: "emit (ucast b) d = put [b] d"
  by (simp add: emit_def put_def)

lemma get_at_drop: "drop k xs = y # ys \<Longrightarrow> get_at xs k = Some y \<and> drop (Suc k) xs = ys"
  by (simp add: get_at_def) (metis drop_Suc drop_eq_Nil leI list.distinct(1) list.sel(3) nth_via_drop tl_drop)

section \<open>Round trip of a line\<close>

text \<open>A group in an alphabet: \<open>f\<close> writes a sextet.\<close>

fun encode_groups :: "(u8 \<Rightarrow> u8) \<Rightarrow> bytes \<Rightarrow> bytes" where
  "encode_groups f [] = []"
| "encode_groups f [a] = map (\<lambda>k. f (sextet k (group24 a 0 0))) [18, 12, 6, 0]"
| "encode_groups f [a, b] = map (\<lambda>k. f (sextet k (group24 a b 0))) [18, 12, 6, 0]"
| "encode_groups f (a # b # c # bs) = map (\<lambda>k. f (sextet k (group24 a b c))) [18, 12, 6, 0] @ encode_groups f bs"

definition uu_char :: "u8 \<Rightarrow> u8" where
  "uu_char x = x + 0x20"

definition uu_line :: "bytes \<Rightarrow> bytes" where
  "uu_line bs = uu_char (of_nat (length bs)) # encode_groups uu_char bs"

lemma all_sextets:
  assumes "list_all P (map of_nat [0 ..< 64])" "x < (64 :: u8)"
  shows "P x"
proof -
  have "unat x < 64" using assms(2) by (simp add: word_less_nat_alt)
  then have "of_nat (unat x) \<in> set (map of_nat [0 ..< 64] :: u8 list)" by (metis (no_types) atLeastLessThan_iff image_eqI le0 set_map set_upt)
  then show ?thesis using assms(1) by (auto simp: list_all_iff)
qed

lemma sextet_less: "sextet k v < 64"
proof -
  have "sextet k v = take_bit 6 (sextet k v)" by (rule bit_word_eqI) (auto simp: bit_sextet bit_simps)
  then have "unat (sextet k v) = take_bit 6 (unat (sextet k v))" by (metis unsigned_take_bit_eq)
  also have "\<dots> < 2 ^ 6" by (rule take_bit_nat_less_exp)
  finally show ?thesis by (simp add: word_less_nat_alt)
qed

lemma uu_sextets: "list_all (\<lambda>x. is_uu_char (uu_char x) \<and> uu_decode (uu_char x) = x) (map of_nat [0 ..< 64])"
  by code_simp

lemma uu_char_sextet [simp]: "is_uu_char (uu_char (sextet k v))" "uu_decode (uu_char (sextet k v)) = sextet k v"
  using all_sextets [OF uu_sextets sextet_less] by simp_all

lemma uu_next_skip: "uu_next line k j (v, 0, cur) d = (Inr (v, 0, cur), d)"
  by (simp add: uu_next_def)

lemma uu_next_char:
  assumes "drop cur line = uu_char (sextet k v) # rest"
    "and (drop_bit j (or w (push_bit i (ucast (sextet k v))))) 0xff = ucast b"
  shows "uu_next line i j (w, Suc n, cur) d = (Inr (or w (push_bit i (ucast (sextet k v))), n, Suc cur), put [b] d)"
  using assms get_at_drop [OF assms(1)] by (simp add: uu_next_def Let_def emit_ucast)

lemma decode_uu_first:
  assumes "drop cur line = uu_char (sextet 18 (group24 a b c)) # uu_char (sextet 12 (group24 a b c)) # rest"
  shows "decode_uu_groups line (Suc n) cur d =
    (case and_then_st (uu_next line 6 8
        (or (push_bit 18 (ucast (sextet 18 (group24 a b c)))) (push_bit 12 (ucast (sextet 12 (group24 a b c)))), n, Suc (Suc cur))
        (put [a] d)) (uu_next line 0 0) of
       (Inl e, d2) \<Rightarrow> (Inl e, d2) | (Inr (_, count', cur'), d2) \<Rightarrow> decode_uu_groups line count' cur' d2)"
proof -
  have 1: "get_at line cur = Some (uu_char (sextet 18 (group24 a b c)))" using get_at_drop [OF assms(1)] by simp
  have 2: "drop (Suc cur) line = uu_char (sextet 12 (group24 a b c)) # rest" using get_at_drop [OF assms(1)] by simp
  have 3: "get_at line (Suc cur) = Some (uu_char (sextet 12 (group24 a b c)))" using get_at_drop [OF 2] by simp
  show ?thesis by (subst decode_uu_groups.simps) (simp add: 1 3 Let_def first_byte emit_ucast [of a] del: drop_bit_or)
qed

lemma decode_uu_none: "decode_uu_groups line 0 cur d = (Inr (), d)"
  by (subst decode_uu_groups.simps) simp

lemma drop_next: "drop k xs = y # ys \<Longrightarrow> drop (Suc k) xs = ys"
  by (rule get_at_drop [THEN conjunct2])

lemma decode_uu_groups_encode:
  "drop cur line = encode_groups uu_char bs \<Longrightarrow> decode_uu_groups line (length bs) cur d = (Inr (), put bs d)"
proof (induction uu_char bs arbitrary: cur d rule: encode_groups.induct)
  case 1
  then show ?case by (simp add: decode_uu_none)
next
  case (2 a)
  then have l: "drop cur line = uu_char (sextet 18 (group24 a 0 0)) # uu_char (sextet 12 (group24 a 0 0)) #
      [uu_char (sextet 6 (group24 a 0 0)), uu_char (sextet 0 (group24 a 0 0))]" by simp
  show ?case by (simp add: decode_uu_first [OF l] uu_next_skip decode_uu_none)
next
  case (3 a b)
  then have l: "drop cur line = uu_char (sextet 18 (group24 a b 0)) # uu_char (sextet 12 (group24 a b 0)) #
      [uu_char (sextet 6 (group24 a b 0)), uu_char (sextet 0 (group24 a b 0))]" by simp
  note l2 = drop_next [OF drop_next [OF l]]
  show ?case
    by (simp add: decode_uu_first [OF l] uu_next_char [OF l2 second_byte] uu_next_skip decode_uu_none)
next
  case (4 a b c bs)
  then have l: "drop cur line = uu_char (sextet 18 (group24 a b c)) # uu_char (sextet 12 (group24 a b c)) #
      uu_char (sextet 6 (group24 a b c)) # uu_char (sextet 0 (group24 a b c)) # encode_groups uu_char bs" by simp
  note l2 = drop_next [OF drop_next [OF l]]
  note l3 = drop_next [OF l2]
  show ?case
    using 4(1) [OF drop_next [OF l3]]
    by (simp add: decode_uu_first [OF l] uu_next_char [OF l2 second_byte] uu_next_char [OF l3 third_byte [unfolded gather_def]])
qed

lemma decode_uu_line_encode_fact:
  assumes "bs \<noteq> []" "length bs < 64"
  shows "decode_uu_line (uu_line bs) d = (Inr (), put bs d)"
proof -
  have lt: "(of_nat (length bs) :: u8) < 64"
    using assms(2) by (simp add: word_less_nat_alt unat_of_nat)
  have c: "is_uu_char (uu_char (of_nat (length bs)))" "uu_decode (uu_char (of_nat (length bs))) = of_nat (length bs)"
    using all_sextets [OF uu_sextets lt] by simp_all
  have u: "unat (of_nat (length bs) :: u8) = length bs" using assms(2) by (simp add: unat_of_nat)
  have len: "length bs \<le> length (encode_groups uu_char bs)"
    by (induction uu_char bs rule: encode_groups.induct) auto
  have g: "drop 1 (uu_line bs) = encode_groups uu_char bs" by (simp add: uu_line_def)
  have "decode_uu_groups (uu_line bs) (length bs) 1 d = (Inr (), put bs d)"
    by (rule decode_uu_groups_encode [OF g])
  then show ?thesis using assms(1) c u len by (simp add: decode_uu_line_def uu_line_def Let_def)
qed

text \<open>
  C35. Every line of the uuencoded form decodes to the bytes it was written from: for one to 63
  bytes, the count character and the groups of sextets give back exactly those bytes, appended
  to the output, and the decoder stays in the body.
\<close>

theorem decode_uu_line_encode:
  assumes "bs \<noteq> []" "length bs < 64"
  shows "decode_uu_line (uu_line bs) d = (Inr (), put bs d)"
  by (rule decode_uu_line_encode_fact [OF assms])

theorem decode_uu_line_encode_witness:
  "decode_uu_line (uu_line [0x68, 0x69]) (uu_new ()) = (Inr (), put [0x68, 0x69] (uu_new ())) \<and>
     uu_line [0x68, 0x69] = [0x22, 0x3a, 0x26, 0x44, 0x20]"
proof -
  have "uu_line [0x68, 0x69] = [0x22, 0x3a, 0x26, 0x44, 0x20]" by code_simp
  then show ?thesis using decode_uu_line_encode [of "[0x68, 0x69]" "uu_new ()"] by simp
qed

definition base64_char :: "u8 \<Rightarrow> u8" where
  "base64_char x =
     (if x < 26 then x + 0x41 else if x < 52 then x - 26 + 0x61 else if x < 62 then x - 52 + 0x30
      else if x = 62 then 0x2b else 0x2f)"

fun base64_line :: "bytes \<Rightarrow> bytes" where
  "base64_line [] = []"
| "base64_line [a] = map (\<lambda>k. base64_char (sextet k (group24 a 0 0))) [18, 12] @ [0x3d, 0x3d]"
| "base64_line [a, b] = map (\<lambda>k. base64_char (sextet k (group24 a b 0))) [18, 12, 6] @ [0x3d]"
| "base64_line (a # b # c # bs) = map (\<lambda>k. base64_char (sextet k (group24 a b c))) [18, 12, 6, 0] @ base64_line bs"

lemma base64_sextets:
  "list_all (\<lambda>x. is_base64_char (base64_char x) \<and> base64_value (base64_char x) = x \<and> base64_char x \<noteq> 0x3d \<and>
     0x20 \<le> base64_char x \<and> base64_char x \<le> 0x7e) (map of_nat [0 ..< 64])"
  by code_simp

lemma base64_char_sextet [simp]:
  "is_base64_char (base64_char (sextet k v))" "base64_value (base64_char (sextet k v)) = sextet k v"
  "base64_char (sextet k v) \<noteq> 0x3d"
  using all_sextets [OF base64_sextets sextet_less] by simp_all

lemma base64_next_char:
  assumes "drop cur line = base64_char (sextet k v) # rest"
    "and (drop_bit j (or w (push_bit i (ucast (sextet k v))))) 0xff = ucast b"
  shows "base64_next line i j (False, w, Suc n, cur) d =
    ((False, or w (push_bit i (ucast (sextet k v))), n, Suc cur), put [b] d)"
  using assms get_at_drop [OF assms(1)] by (simp add: base64_next_def Let_def emit_ucast)

lemma base64_next_pad:
  "drop cur line = 0x3d # rest \<Longrightarrow> base64_next line i j (False, w, Suc n, cur) d = ((True, w, Suc n, cur), d)"
  using get_at_drop [of cur line] by (simp add: base64_next_def)

lemma base64_next_stop: "base64_next line i j (True, w, n, cur) d = ((True, w, n, cur), d)"
  by (simp add: base64_next_def)

lemma decode_base64_first:
  assumes "drop cur line = base64_char (sextet 18 (group24 a b c)) # base64_char (sextet 12 (group24 a b c)) # rest"
  shows "decode_base64_groups line (Suc (Suc n)) cur d =
    (case base64_tail line
        (or (push_bit 18 (ucast (sextet 18 (group24 a b c)))) (push_bit 12 (ucast (sextet 12 (group24 a b c)))))
        n (Suc (Suc cur)) (put [a] d) of
       ((stop, _, remaining', cur'), d2) \<Rightarrow>
         if stop then ((remaining', cur'), d2) else decode_base64_groups line remaining' cur' d2)"
proof -
  have 1: "get_at line cur = Some (base64_char (sextet 18 (group24 a b c)))" using get_at_drop [OF assms(1)] by simp
  have 2: "drop (Suc cur) line = base64_char (sextet 12 (group24 a b c)) # rest" using get_at_drop [OF assms(1)] by simp
  have 3: "get_at line (Suc cur) = Some (base64_char (sextet 12 (group24 a b c)))" using get_at_drop [OF 2] by simp
  show ?thesis by (subst decode_base64_groups.simps) (simp add: 1 3 Let_def first_byte emit_ucast [of a] del: drop_bit_or)
qed

lemma decode_base64_none: "decode_base64_groups line 0 cur d = ((0, cur), d)"
  by (subst decode_base64_groups.simps) simp

lemma decode_base64_groups_encode:
  "drop cur line = base64_line bs \<Longrightarrow>
     \<exists>rem cur'. decode_base64_groups line (length (base64_line bs)) cur d = ((rem, cur'), put bs d) \<and>
       (rem = 0 \<or> get_at line cur' = Some 0x3d)"
proof (induction bs arbitrary: cur d rule: base64_line.induct)
  case 1
  then show ?case by (simp add: decode_base64_none)
next
  case (2 a)
  then have l: "drop cur line = base64_char (sextet 18 (group24 a 0 0)) # base64_char (sextet 12 (group24 a 0 0)) # 0x3d # [0x3d]"
    by simp
  note l2 = drop_next [OF drop_next [OF l]]
  show ?case
    using get_at_drop [OF l2] by (simp add: decode_base64_first [OF l] base64_tail_def base64_next_pad [OF l2] base64_next_stop)
next
  case (3 a b)
  then have l: "drop cur line = base64_char (sextet 18 (group24 a b 0)) # base64_char (sextet 12 (group24 a b 0)) #
      base64_char (sextet 6 (group24 a b 0)) # [0x3d]" by simp
  note l2 = drop_next [OF drop_next [OF l]]
  note l3 = drop_next [OF l2]
  show ?case
    using get_at_drop [OF l3]
    by (simp add: decode_base64_first [OF l] base64_tail_def base64_next_char [OF l2 second_byte] base64_next_pad [OF l3])
next
  case (4 a b c bs)
  then have l: "drop cur line = base64_char (sextet 18 (group24 a b c)) # base64_char (sextet 12 (group24 a b c)) #
      base64_char (sextet 6 (group24 a b c)) # base64_char (sextet 0 (group24 a b c)) # base64_line bs" by simp
  note l2 = drop_next [OF drop_next [OF l]]
  note l3 = drop_next [OF l2]
  show ?case
    using 4(1) [OF drop_next [OF l3], of "put [a, b, c] d"]
    by (simp add: decode_base64_first [OF l] base64_tail_def base64_next_char [OF l2 second_byte]
        base64_next_char [OF l3 third_byte [unfolded gather_def]])
qed

lemma decode_base64_line_encode_fact:
  "decode_base64_line (base64_line bs) d = (Inr (), put bs d)"
proof -
  have "\<not> starts_with (base64_line bs) [0x3d, 0x3d, 0x3d]"
    by (cases bs rule: base64_line.cases) (auto simp: starts_with_def)
  moreover obtain r k where "decode_base64_groups (base64_line bs) (length (base64_line bs)) 0 d = ((r, k), put bs d)"
    "r = 0 \<or> get_at (base64_line bs) k = Some 0x3d"
    using decode_base64_groups_encode [of 0 "base64_line bs" bs d] by auto
  ultimately show ?thesis by (auto simp: decode_base64_line_def)
qed

text \<open>
  C36. A line of base64 text, padded or not, decodes to the bytes it was written from.
\<close>

theorem decode_base64_line_encode:
  "decode_base64_line (base64_line bs) d = (Inr (), put bs d)"
  by (rule decode_base64_line_encode_fact)

section \<open>Encoded texts\<close>

text \<open>
  The texts the decoder accepts, line by line from a state of the machine, with the bytes they
  stand for: any number of sections, each a header with a name, body lines and an end line.
\<close>

definition printable :: "bytes \<Rightarrow> bool" where
  "printable l \<longleftrightarrow> list_all (\<lambda>b. 0x20 \<le> b \<and> b \<le> 0x7e) l"

definition section_name :: "bytes \<Rightarrow> bool" where
  "section_name name \<longleftrightarrow> name \<noteq> [] \<and> printable name \<and> length name \<le> 1000"

definition uu_begin :: "bytes \<Rightarrow> bytes" where
  "uu_begin name = [0x62, 0x65, 0x67, 0x69, 0x6e, 0x20, 0x36, 0x34, 0x34, 0x20] @ name"

definition base64_begin :: "bytes \<Rightarrow> bytes" where
  "base64_begin name =
     [0x62, 0x65, 0x67, 0x69, 0x6e, 0x2d, 0x62, 0x61, 0x73, 0x65, 0x36, 0x34, 0x20, 0x36, 0x34, 0x34, 0x20] @ name"

inductive uu_text :: "uu_state \<Rightarrow> bytes list \<Rightarrow> bytes \<Rightarrow> bool" where
  stop: "uu_text FindHead [] []"
| uu_head: "section_name name \<Longrightarrow> uu_text ReadUu ls bs \<Longrightarrow> uu_text FindHead (uu_begin name # ls) bs"
| uu_body: "xs \<noteq> [] \<Longrightarrow> length xs < 64 \<Longrightarrow> uu_text ReadUu ls bs \<Longrightarrow> uu_text ReadUu (uu_line xs # ls) (xs @ bs)"
| uu_zero: "uu_text UuEnd ls bs \<Longrightarrow> uu_text ReadUu ([0x20] # ls) bs"
| uu_end: "uu_text FindHead ls bs \<Longrightarrow> uu_text UuEnd ([0x65, 0x6e, 0x64] # ls) bs"
| base64_head: "section_name name \<Longrightarrow> uu_text ReadBase64 ls bs \<Longrightarrow> uu_text FindHead (base64_begin name # ls) bs"
| base64_body: "length xs \<le> 1000 \<Longrightarrow> uu_text ReadBase64 ls bs \<Longrightarrow> uu_text ReadBase64 (base64_line xs # ls) (xs @ bs)"
| base64_end: "uu_text FindHead ls bs \<Longrightarrow> uu_text ReadBase64 ([0x3d, 0x3d, 0x3d, 0x3d] # ls) bs"

inductive_cases uu_text_NilE: "uu_text st [] bs"
inductive_cases uu_text_ConsE: "uu_text st (l # ls) bs"

definition text_of :: "bytes list \<Rightarrow> bytes" where
  "text_of ls = concat (map (\<lambda>l. l @ [0x0a]) ls)"

lemma printable_append [simp]: "printable (as @ bs) \<longleftrightarrow> printable as \<and> printable bs"
  by (simp add: printable_def)

lemma printable_Cons [simp]: "printable (a # as) \<longleftrightarrow> 0x20 \<le> a \<and> a \<le> 0x7e \<and> printable as"
  by (simp add: printable_def)

lemma printable_Nil [simp]: "printable []"
  by (simp add: printable_def)

lemma uu_chars_printable: "list_all (\<lambda>x. 0x20 \<le> uu_char x \<and> uu_char x \<le> 0x7e) (map of_nat [0 ..< 64])"
  by code_simp

lemma uu_line_printable: "length bs < 64 \<Longrightarrow> printable (uu_line bs)"
proof -
  have "printable (encode_groups uu_char bs)"
    using all_sextets [OF uu_chars_printable sextet_less]
    by (induction uu_char bs rule: encode_groups.induct) auto
  moreover assume "length bs < 64"
  then have "(of_nat (length bs) :: u8) < 64" by (simp add: word_less_nat_alt unat_of_nat)
  ultimately show ?thesis using all_sextets [OF uu_chars_printable] by (simp add: uu_line_def)
qed

lemma base64_line_printable: "printable (base64_line bs)"
  using all_sextets [OF base64_sextets sextet_less] by (induction bs rule: base64_line.induct) auto

lemma encode_groups_length: "length (encode_groups f bs) \<le> 2 * length bs + 2"
  by (induction f bs rule: encode_groups.induct) auto

lemma base64_line_length: "length (base64_line bs) \<le> 2 * length bs + 2"
  by (induction bs rule: base64_line.induct) auto

lemma scan_line_text: "printable l \<Longrightarrow> scan_line k (l @ 0x0a # xs) = LineEnd (k + length l) 1"
  by (induction l arbitrary: k) auto

lemma scan_line_partial: "printable l \<Longrightarrow> scan_line k l = NoLine"
  by (induction l arbitrary: k) auto

lemma put_state: "put xs (d\<lparr>uu_state := st\<rparr>) = (put xs d)\<lparr>uu_state := st\<rparr>"
  by (simp add: put_def)

lemma header_lines:
  assumes "section_name name" "scanned d = 0"
  shows "find_header (uu_begin name) d = (Inr (), d\<lparr>uu_state := ReadUu\<rparr>)"
    "find_header (base64_begin name) d = (Inr (), d\<lparr>uu_state := ReadBase64\<rparr>)"
proof -
  have "Suc 0 \<le> length name" "length name \<le> 1000" using assms(1) by (auto simp: section_name_def Suc_le_eq)
  then show "find_header (uu_begin name) d = (Inr (), d\<lparr>uu_state := ReadUu\<rparr>)"
    "find_header (base64_begin name) d = (Inr (), d\<lparr>uu_state := ReadBase64\<rparr>)"
    using assms(2) by (simp_all add: find_header_def uu_begin_def base64_begin_def Let_def starts_with_def MAX_SCAN_def)
qed

text \<open>What a line of a text does to the decoder.\<close>

definition takes_line :: "uu_state \<Rightarrow> bytes \<Rightarrow> uu_state \<Rightarrow> bytes \<Rightarrow> 's uu_decoder \<Rightarrow> bool" where
  "takes_line st l st' xs d \<longleftrightarrow>
     (uu_state d = st \<and> scanned d = 0 \<longrightarrow> process_line l d = (Inr (), put xs (d\<lparr>uu_state := st'\<rparr>)))"

definition line_ok :: "uu_state \<Rightarrow> bytes \<Rightarrow> bytes list \<Rightarrow> bytes \<Rightarrow> 's uu_decoder itself \<Rightarrow> bool" where
  "line_ok st l ls bs t \<longleftrightarrow> printable l \<and> length l \<le> 2100 \<and>
     (\<exists>st' xs bs'. bs = xs @ bs' \<and> uu_text st' ls bs' \<and> (\<forall>d :: 's uu_decoder. takes_line st l st' xs d))"

lemma line_okI:
  "printable l \<Longrightarrow> length l \<le> 2100 \<Longrightarrow> bs = xs @ bs' \<Longrightarrow> uu_text st' ls bs' \<Longrightarrow> (\<And>d :: 's uu_decoder. takes_line st l st' xs d) \<Longrightarrow>
     line_ok st l ls bs (t :: 's uu_decoder itself)"
  unfolding line_ok_def by blast

lemma begin_printable: "section_name name \<Longrightarrow> printable (uu_begin name) \<and> length (uu_begin name) \<le> 2100"
  "section_name name \<Longrightarrow> printable (base64_begin name) \<and> length (base64_begin name) \<le> 2100"
  by (simp_all add: section_name_def uu_begin_def base64_begin_def)

lemma uu_text_line:
  assumes "uu_text st (l # ls) bs"
  shows "line_ok st l ls bs (t :: 's uu_decoder itself)"
  using assms
proof (cases rule: uu_text.cases)
  case (uu_head name)
  then show ?thesis
    by (intro line_okI [where xs = "[]" and st' = ReadUu])
      (simp_all add: begin_printable takes_line_def process_line_def header_lines)
next
  case (uu_body xs bs')
  then show ?thesis
    using uu_line_printable [of xs] encode_groups_length [of uu_char xs]
    by (intro line_okI [where xs = xs and st' = ReadUu])
      (simp_all add: takes_line_def process_line_def decode_uu_line_encode_fact put_def, simp add: uu_line_def)
next
  case uu_zero
  have "uu_decode 0x20 = 0" "is_uu_char 0x20" by code_simp+
  then show ?thesis using uu_zero
    by (intro line_okI [where xs = "[]" and st' = UuEnd])
      (simp_all add: takes_line_def process_line_def decode_uu_line_def Let_def)
next
  case uu_end
  then show ?thesis
    by (intro line_okI [where xs = "[]" and st' = FindHead]) (simp_all add: takes_line_def process_line_def expect_end_line_def)
next
  case (base64_head name)
  then show ?thesis
    by (intro line_okI [where xs = "[]" and st' = ReadBase64])
      (simp_all add: begin_printable takes_line_def process_line_def header_lines)
next
  case (base64_body xs bs')
  then show ?thesis
    using base64_line_printable [of xs] base64_line_length [of xs]
    by (intro line_okI [where xs = xs and st' = ReadBase64])
      (simp_all add: takes_line_def process_line_def decode_base64_line_encode_fact put_def)
next
  case base64_end
  then show ?thesis
    by (intro line_okI [where xs = "[]" and st' = FindHead])
      (simp_all add: takes_line_def process_line_def decode_base64_line_def starts_with_def)
qed

section \<open>Decoding a text through a reader\<close>

lemma compact_eq: "compact d = d\<lparr>uu_input := drop (uu_pos d) (uu_input d), uu_pos := 0\<rparr>"
  by (simp add: compact_def)

text \<open>The decoder \<open>d\<close> still has to deliver \<open>bs\<close>, and the lines \<open>ls\<close> are what is pending in its
  buffer and in the reader.\<close>

definition pending ::
  "('s \<Rightarrow> bool) \<Rightarrow> ('s \<Rightarrow> bytes) \<Rightarrow> 's uu_decoder \<Rightarrow> bytes list \<Rightarrow> bytes \<Rightarrow> bool" where
  "pending valid rest d ls bs \<longleftrightarrow>
     valid (uu_inner d) \<and> drop (uu_pos d) (uu_input d) @ rest (uu_inner d) = text_of ls \<and>
     uu_text (uu_state d) ls bs \<and> scanned d = 0"

definition filled ::
  "('s \<Rightarrow> bool) \<Rightarrow> ('s \<Rightarrow> bytes) \<Rightarrow> 's uu_decoder \<Rightarrow> bytes \<Rightarrow> nat \<Rightarrow> 's uu_step option \<Rightarrow> bool" where
  "filled valid rest d bs size0 result \<longleftrightarrow>
     (\<exists>d' ls' bs'. result = Some (Inr (), d') \<and> pending valid rest d' ls' bs' \<and> uu_out d @ bs = uu_out d' @ bs' \<and>
        uu_out_pos d' = uu_out_pos d \<and> length ls' + length (rest (uu_inner d')) \<le> size0 \<and>
        (if uu_finished d' then bs' = [] else uu_out d' \<noteq> []))"

lemma text_of_Cons: "text_of (l # ls) = l @ 0x0a # text_of ls"
  by (simp add: text_of_def)

lemma append_cut:
  "as @ bs = l @ x # t \<Longrightarrow> (if length l < length as then \<exists>cs. as = l @ x # cs \<and> cs @ bs = t else \<exists>cs. l = as @ cs \<and> bs = cs @ x # t)"
  by (auto simp: append_eq_append_conv2 append_eq_Cons_conv)

lemma put_fields [simp]:
  "uu_inner (put xs d) = uu_inner d" "uu_pos (put xs d) = uu_pos d" "uu_input (put xs d) = uu_input d"
  "uu_state (put xs d) = uu_state d" "scanned (put xs d) = scanned d" "uu_finished (put xs d) = uu_finished d"
  "uu_out (put xs d) = uu_out d @ xs" "uu_out_pos (put xs d) = uu_out_pos d"
  by (simp_all add: put_def)

context total_reader
begin

lemma fill_loop_text:
  "\<lbrakk>pending inv rest d ls bs; \<not> uu_finished d; length ls + length (rest (uu_inner d)) < fuel\<rbrakk> \<Longrightarrow>
     filled inv rest d bs (length ls + length (rest (uu_inner d))) (fill_loop read fuel d)"
proof (induction fuel arbitrary: d ls bs)
  case (Suc fuel)
  let ?d = "compact d" and ?inp = "drop (uu_pos d) (uu_input d)"
  have inv: "inv (uu_inner d)" and pend: "?inp @ rest (uu_inner d) = text_of ls"
    and tx: "uu_text (uu_state d) ls bs" and scn: "scanned d = 0"
    using Suc.prems(1) by (auto simp: pending_def)
  obtain data t where r: "read READ_CHUNK (uu_inner d) = (Inr data, t)" using read_total [OF inv] by blast
  note ok = read_ok [OF inv r]
  have pos: "READ_CHUNK \<noteq> 0" by (simp add: READ_CHUNK_def)
  have run: "uu_state d \<noteq> IgnoreRest" using tx by (auto elim: uu_text.cases)
  show ?case
  proof (cases ls)
    case Nil
    then have e: "?inp = []" "rest (uu_inner d) = []" using pend by (simp_all add: text_of_def)
    then have "bs = []" "data = []" using tx Nil ok pos by (auto elim: uu_text_NilE)
    then show ?thesis
      using run r e Suc.prems(1) ok Nil
      by (auto simp: fill_loop.simps compact_eq Let_def at_end_of_stream_def filled_def pending_def intro!: exI [of _ "[]"])
  next
    case (Cons l ls')
    obtain st' xs bs' where l: "printable l" "length l \<le> 2100" and bs: "bs = xs @ bs'" and tx': "uu_text st' ls' bs'"
      and tk: "\<And>d :: 'a uu_decoder. takes_line (uu_state d) l st' xs d \<or> uu_state d \<noteq> uu_state ?d"
      using uu_text_line [OF tx [unfolded Cons], of "TYPE('a uu_decoder)"] by (auto simp: line_ok_def compact_eq) metis
    note cut = append_cut [OF pend [unfolded Cons text_of_Cons]]
    show ?thesis
    proof (cases "length l < length ?inp")
      case True
      then obtain cs where cs: "?inp = l @ 0x0a # cs" "cs @ rest (uu_inner d) = text_of ls'" using cut by auto
      have scan: "scan_line (uu_pos ?d) (drop (uu_pos ?d) (uu_input ?d)) = LineEnd (length l) 1"
        using scan_line_text [OF l(1), of 0 cs] cs(1) by (simp add: compact_eq)
      have content: "take (length l - uu_pos ?d) (drop (uu_pos ?d) (uu_input ?d)) = l" using cs(1) by (simp add: compact_eq)
      let ?e = "put xs (?d\<lparr>uu_pos := Suc (length l), uu_state := st'\<rparr>)"
      have pl: "process_line l (?d\<lparr>uu_pos := Suc (length l)\<rparr>) = (Inr (), ?e)"
        using tk [of "?d\<lparr>uu_pos := Suc (length l)\<rparr>"] scn by (auto simp: takes_line_def compact_eq)
      show ?thesis
      proof (cases "(uu_state d = ReadUu \<or> uu_state d = ReadBase64) \<and> length (uu_out d) + (length l + 1) * 2 > OUT_BUFF_SIZE")
        case True
        then have "uu_out d \<noteq> []" using l(2) by (auto simp: OUT_BUFF_SIZE_def)
        then have "fill_loop read (Suc fuel) d = Some (Inr (), ?d)"
          using True run scan content by (simp add: fill_loop.simps Let_def) (auto simp: compact_eq)
        then show ?thesis using Suc.prems \<open>uu_out d \<noteq> []\<close>
          by (auto simp: filled_def pending_def compact_eq intro!: exI [of _ ls] exI [of _ bs])
      next
        case False
        have "fill_loop read (Suc fuel) d = fill_loop read fuel ?e"
          using False run scan content pl by (simp add: fill_loop.simps Let_def) (auto simp: compact_eq)
        moreover have "pending inv rest ?e ls' bs'"
          using inv cs tx' scn by (simp add: pending_def compact_eq)
        moreover have "\<not> uu_finished ?e" using Suc.prems(2) by (simp add: compact_eq)
        moreover have "length ls' + length (rest (uu_inner ?e)) < fuel" using Suc.prems(3) Cons by (simp add: compact_eq)
        ultimately have "filled inv rest ?e bs' (length ls' + length (rest (uu_inner ?e))) (fill_loop read (Suc fuel) d)"
          using Suc.IH [of ?e ls' bs'] by simp
        then show ?thesis using bs Cons by (fastforce simp: filled_def compact_eq)
      qed
    next
      case False
      then obtain cs where cs: "l = ?inp @ cs" "rest (uu_inner d) = cs @ 0x0a # text_of ls'" using cut by auto
      have scan: "scan_line (uu_pos ?d) (drop (uu_pos ?d) (uu_input ?d)) = NoLine"
        using scan_line_partial [of ?inp] l(1) cs(1) by (simp add: compact_eq)
      have data: "data \<noteq> []" using ok cs(2) pos by auto
      let ?e = "?d\<lparr>uu_inner := t, uu_input := uu_input ?d @ data\<rparr>"
      have "length ?inp \<le> MAX_LINE" using False l(2) by (simp add: MAX_LINE_def)
      then have "fill_loop read (Suc fuel) d = fill_loop read fuel ?e"
        using run scan r data by (simp add: fill_loop.simps Let_def) (simp add: compact_eq)
      moreover have "pending inv rest ?e ls bs"
        using ok pend tx scn by (simp add: pending_def compact_eq)
      moreover have "\<not> uu_finished ?e" using Suc.prems(2) by (simp add: compact_eq)
      moreover have less: "length (rest t) < length (rest (uu_inner d))" using ok data by (cases data) auto
      ultimately have "filled inv rest ?e bs (length ls + length (rest t)) (fill_loop read (Suc fuel) d)"
        using Suc.IH [of ?e ls bs] Suc.prems(3) by simp
      then show ?thesis using less by (fastforce simp: filled_def compact_eq)
    qed
  qed
qed simp

end

text \<open>The client: read chunks until a read returns nothing.\<close>

fun uu_drain ::
  "(nat \<Rightarrow> 's \<Rightarrow> (io_error, bytes) result \<times> 's) \<Rightarrow> nat \<Rightarrow> nat \<Rightarrow> nat \<Rightarrow> 's uu_decoder \<Rightarrow> (io_error, bytes) result option" where
  "uu_drain rd fuel chunk 0 d = None"
| "uu_drain rd fuel chunk (Suc k) d =
     (case uu_read rd fuel 2 chunk d of
        None \<Rightarrow> None
      | Some (Inl e, d') \<Rightarrow> Some (Inl e)
      | Some (Inr bs, d') \<Rightarrow>
          if bs = [] then Some (Inr [])
          else (case uu_drain rd fuel chunk k d' of
                  None \<Rightarrow> None | Some (Inl e) \<Rightarrow> Some (Inl e) | Some (Inr cs) \<Rightarrow> Some (Inr (bs @ cs))))"

text \<open>The decoder between two reads: \<open>bs\<close> is what it still delivers.\<close>

definition delivers ::
  "('s \<Rightarrow> bool) \<Rightarrow> ('s \<Rightarrow> bytes) \<Rightarrow> nat \<Rightarrow> 's uu_decoder \<Rightarrow> bytes \<Rightarrow> bool" where
  "delivers valid rest fuel d bs \<longleftrightarrow>
     (\<exists>ls cs. bs = drop (uu_out_pos d) (uu_out d) @ cs \<and> pending valid rest d ls cs \<and>
        length ls + length (rest (uu_inner d)) < fuel \<and> (uu_finished d \<longrightarrow> cs = []))"

lemma two_turns:
  "uu_read rd fuel 2 n d =
     (if uu_out_pos d < length (uu_out d) \<or> uu_finished d then uu_read rd fuel 1 n d
      else (case fill rd fuel d of None \<Rightarrow> None | Some (Inl e, d') \<Rightarrow> Some (Inl e, d') | Some (Inr _, d') \<Rightarrow> uu_read rd fuel 1 n d'))"
  unfolding numeral_2_eq_2 One_nat_def by (subst uu_read.simps) (auto simp: uu_read.simps Let_def)

lemma one_turn:
  assumes "0 < n" "if uu_finished d then cs = [] else uu_out_pos d < length (uu_out d)"
    "delivers valid rest fuel d (drop (uu_out_pos d) (uu_out d) @ cs)"
  shows "\<exists>data d' bs'. uu_read rd fuel 1 n d = Some (Inr data, d') \<and> drop (uu_out_pos d) (uu_out d) @ cs = data @ bs' \<and>
    delivers valid rest fuel d' bs' \<and> (data = [] \<longrightarrow> bs' = [])"
proof (cases "uu_out_pos d < length (uu_out d)")
  case True
  let ?left = "drop (uu_out_pos d) (uu_out d)" and ?data = "take n (drop (uu_out_pos d) (uu_out d))"
  let ?d = "d\<lparr>uu_out_pos := uu_out_pos d + length ?data, uu_total := uu_total d + of_nat (length ?data)\<rparr>"
  have "uu_read rd fuel 1 n d = Some (Inr ?data, ?d)" using True unfolding One_nat_def by (simp add: uu_read.simps Let_def)
  moreover
  have left: "drop (uu_out_pos d + length ?data) (uu_out d) = drop n ?left"
    by (simp add: min_def add.commute)
  have "drop (uu_out_pos ?d) (uu_out ?d) = drop n ?left" using left by simp
  then have "?left @ cs = ?data @ (drop (uu_out_pos ?d) (uu_out ?d) @ cs)"
    by (simp only: append.assoc [symmetric] append_take_drop_id)
  moreover have "delivers valid rest fuel ?d (drop (uu_out_pos ?d) (uu_out ?d) @ cs)"
    using assms(3) by (auto simp: delivers_def pending_def)
  moreover have "?data \<noteq> []" using True assms(1) by simp
  ultimately show ?thesis by blast
next
  case False
  then have "uu_finished d" "cs = []" using assms(2) by (auto split: if_splits)
  then show ?thesis using False assms(3) unfolding One_nat_def by (simp add: uu_read.simps)
qed

context total_reader
begin

lemma uu_read_delivers:
  assumes "delivers inv rest fuel d bs" "0 < n"
  shows "\<exists>data d' bs'. uu_read read fuel 2 n d = Some (Inr data, d') \<and> bs = data @ bs' \<and>
    delivers inv rest fuel d' bs' \<and> (data = [] \<longrightarrow> bs' = [])"
proof -
  obtain ls cs where bs: "bs = drop (uu_out_pos d) (uu_out d) @ cs" and p: "pending inv rest d ls cs"
    and f: "length ls + length (rest (uu_inner d)) < fuel" and fin: "uu_finished d \<longrightarrow> cs = []"
    using assms(1) by (auto simp: delivers_def)
  show ?thesis
  proof (cases "uu_out_pos d < length (uu_out d) \<or> uu_finished d")
    case True
    then show ?thesis using one_turn [OF assms(2), of d cs inv rest fuel read] assms(1) bs fin two_turns [of read fuel n d]
      by (auto split: if_splits)
  next
    case False
    let ?e = "d\<lparr>uu_out := [], uu_out_pos := 0, produced := 0\<rparr>"
    have "pending inv rest ?e ls cs" using p by (simp add: pending_def)
    then have "filled inv rest ?e cs (length ls + length (rest (uu_inner ?e))) (fill_loop read fuel ?e)"
      by (rule fill_loop_text) (use False f in simp_all)
    then obtain d' ls' cs' where d': "fill read fuel d = Some (Inr (), d')" "pending inv rest d' ls' cs'"
      "cs = uu_out d' @ cs'" "uu_out_pos d' = 0" "length ls' + length (rest (uu_inner d')) < fuel"
      "if uu_finished d' then cs' = [] else uu_out d' \<noteq> []"
      using f by (auto simp: filled_def fill_def)
    have "delivers inv rest fuel d' (drop (uu_out_pos d') (uu_out d') @ cs')"
      using d' by (auto simp: delivers_def split: if_splits)
    moreover have "if uu_finished d' then cs' = [] else uu_out_pos d' < length (uu_out d')"
      using d'(4,6) by (auto split: if_splits)
    ultimately have "\<exists>data e bs'. uu_read read fuel 1 n d' = Some (Inr data, e) \<and> cs = data @ bs' \<and>
        delivers inv rest fuel e bs' \<and> (data = [] \<longrightarrow> bs' = [])"
      using one_turn [OF assms(2), of d' cs' inv rest fuel read] d'(3,4) by simp
    then show ?thesis using False d'(1) bs two_turns [of read fuel n d] by simp
  qed
qed

lemma uu_drain_delivers:
  "\<lbrakk>delivers inv rest fuel d bs; 0 < n; length bs < k\<rbrakk> \<Longrightarrow> uu_drain read fuel n k d = Some (Inr bs)"
proof (induction k arbitrary: d bs)
  case (Suc k)
  obtain data d' bs' where r: "uu_read read fuel 2 n d = Some (Inr data, d')" "bs = data @ bs'"
    "delivers inv rest fuel d' bs'" "data = [] \<longrightarrow> bs' = []"
    using uu_read_delivers [OF Suc.prems(1,2)] by blast
  show ?case
  proof (cases "data = []")
    case False
    then have "length bs' < k" using Suc.prems(3) r(2) by (cases data) auto
    then show ?thesis using Suc.IH [OF r(3) Suc.prems(2)] r False by simp
  qed (use r in simp)
qed simp

end

text \<open>
  C33. Decoding an encoded stream gives the encoded bytes.  For every text of uuencoded and base64
  sections, read through an open file that returns short reads of any size, the chunks that the
  decoder delivers are, put together, exactly the bytes that were encoded, and the end is
  reported after them.
\<close>

theorem uu_stream_roundtrip:
  assumes "always_reads f" "drop (cursor f) (contents f) = text_of ls" "uu_text FindHead ls bs"
    and "0 < chunk" "length ls + length (text_of ls) < fuel" "length bs < k"
  shows "uu_drain file_read fuel chunk k (uu_new f) = Some (Inr bs)"
proof (rule reliable_files.uu_drain_delivers [OF _ assms(4,6)])
  have "pending always_reads (\<lambda>f. drop (cursor f) (contents f)) (uu_new f) ls bs"
    using assms(1-3) by (simp add: pending_def uu_new_def)
  then show "delivers always_reads (\<lambda>f. drop (cursor f) (contents f)) fuel (uu_new f) bs"
    using assms(2,5) by (auto simp: delivers_def uu_new_def)
qed

definition sample_lines :: "bytes list" where
  "sample_lines = [uu_begin [0x61], uu_line [0x68, 0x69], [0x20], [0x65, 0x6e, 0x64],
                   base64_begin [0x62], base64_line [0x21], [0x3d, 0x3d, 0x3d, 0x3d]]"

lemma sample_lines_text: "uu_text FindHead sample_lines [0x68, 0x69, 0x21]"
proof -
  have "uu_text ReadBase64 [base64_line [0x21], [0x3d, 0x3d, 0x3d, 0x3d]] ([0x21] @ [])"
    by (intro base64_body base64_end stop) simp
  then have "uu_text FindHead [base64_begin [0x62], base64_line [0x21], [0x3d, 0x3d, 0x3d, 0x3d]] [0x21]"
    by (intro base64_head) (simp_all add: section_name_def)
  then have "uu_text ReadUu [uu_line [0x68, 0x69], [0x20], [0x65, 0x6e, 0x64],
      base64_begin [0x62], base64_line [0x21], [0x3d, 0x3d, 0x3d, 0x3d]] ([0x68, 0x69] @ [0x21])"
    by (intro uu_body uu_zero uu_end) simp_all
  then show ?thesis unfolding sample_lines_def by (intro uu_head) (simp_all add: section_name_def)
qed

theorem uu_stream_roundtrip_witness:
  "uu_drain file_read 200 2 4 (uu_new (plain_file (text_of sample_lines))) = Some (Inr [0x68, 0x69, 0x21])"
proof (rule uu_stream_roundtrip [OF plain_file_always_reads _ sample_lines_text])
  have "length sample_lines = 7" "length (text_of sample_lines) \<le> 100" by code_simp+
  then show "length sample_lines + length (text_of sample_lines) < 200" by linarith
qed (simp_all add: plain_file_def)

section \<open>Does a read return?\<close>

text \<open>Lines do not touch the buffer, its position or the wrapped reader.\<close>

definition same_source :: "'s uu_decoder \<Rightarrow> 's uu_decoder \<Rightarrow> bool" where
  "same_source d d' \<longleftrightarrow> uu_inner d' = uu_inner d \<and> uu_input d' = uu_input d \<and> uu_pos d' = uu_pos d \<and>
     uu_finished d' = uu_finished d \<and> uu_out_pos d' = uu_out_pos d"

lemma same_source_refl [simp]: "same_source d d"
  by (simp add: same_source_def)

lemma same_source_trans: "same_source d e \<Longrightarrow> same_source e f \<Longrightarrow> same_source d f"
  by (simp add: same_source_def)

lemma same_source_emit [simp]: "same_source d (emit x e) \<longleftrightarrow> same_source d e"
  by (simp add: same_source_def emit_def)

lemma uu_next_source: "uu_next line i j s d = (r, d') \<Longrightarrow> same_source d d'"
  by (auto simp: uu_next_def Let_def split: if_splits option.splits prod.splits)

lemma uu_group_source:
  "and_then_st (uu_next line i j s (emit x d)) (uu_next line k l) = (r, e) \<Longrightarrow> same_source d e"
proof -
  assume a: "and_then_st (uu_next line i j s (emit x d)) (uu_next line k l) = (r, e)"
  obtain r1 d1 where 1: "uu_next line i j s (emit x d) = (r1, d1)" by fastforce
  have d1: "same_source d d1" using uu_next_source [OF 1] by (simp add: same_source_def emit_def)
  show ?thesis
  proof (cases r1)
    case (Inl b)
    then show ?thesis using a 1 d1 by simp
  next
    case (Inr b)
    then have "uu_next line k l b d1 = (r, e)" using a 1 by simp
    then show ?thesis using uu_next_source same_source_trans [OF d1] by blast
  qed
qed

lemma decode_uu_groups_source: "decode_uu_groups line count cur d = (r, d') \<Longrightarrow> same_source d d'"
proof (induction line count cur d arbitrary: r d' rule: decode_uu_groups.induct)
  case (1 line count cur d)
  show ?case
  proof (cases "count \<noteq> 0 \<and> (\<exists>f s. get_at line cur = Some f \<and> get_at line (cur + 1) = Some s \<and> is_uu_char f \<and> is_uu_char s)")
    case False
    then have "d' = d" using "1.prems" by (subst (asm) decode_uu_groups.simps) (auto split: if_splits option.splits)
    then show ?thesis by simp
  next
    case True
    then obtain f s where c: "count \<noteq> 0" and g: "get_at line cur = Some f" "get_at line (cur + 1) = Some s"
      and ch: "\<not> (\<not> is_uu_char f \<or> \<not> is_uu_char s)" by blast
    let ?v = "or (push_bit 18 (ucast (uu_decode f))) (push_bit 12 (ucast (uu_decode s))) :: u32"
    obtain x e where x: "and_then_st (uu_next line 6 8 (?v, count - 1, cur + 2) (emit (drop_bit 16 ?v) d)) (uu_next line 0 0) = (x, e)"
      by fastforce
    have e: "same_source d e" by (rule uu_group_source [OF x])
    have step: "decode_uu_groups line count cur d =
        (case x of Inl er \<Rightarrow> (Inl er, e) | Inr (_, count', cur') \<Rightarrow> decode_uu_groups line count' cur' e)"
      using c g ch x by (subst decode_uu_groups.simps) (auto simp: Let_def split: sum.splits)
    show ?thesis
    proof (cases x)
      case (Inl er)
      then show ?thesis using "1.prems" step e by simp
    next
      case (Inr y)
      obtain v count' cur' where y: "y = (v, count', cur')" by (cases y)
      have "decode_uu_groups line count' cur' e = (r, d')" using "1.prems" step Inr y by simp
      from "1.IH" [OF c refl g ch refl refl x [symmetric] Inr y [symmetric] refl this]
      show ?thesis by (rule same_source_trans [OF e])
    qed
  qed
qed

lemma base64_next_source: "base64_next line i j s d = (s', d') \<Longrightarrow> same_source d d'"
  by (auto simp: base64_next_def Let_def split: if_splits option.splits prod.splits)

lemma base64_tail_source: "base64_tail line v n cur (emit x d) = (s, e) \<Longrightarrow> same_source d e"
proof -
  assume a: "base64_tail line v n cur (emit x d) = (s, e)"
  obtain s1 d1 where 1: "base64_next line 6 8 (False, v, n, cur) (emit x d) = (s1, d1)" by fastforce
  then have "base64_next line 0 0 s1 d1 = (s, e)" using a by (simp add: base64_tail_def)
  from same_source_trans [OF base64_next_source [OF 1] base64_next_source [OF this]]
  show ?thesis by (simp add: same_source_def emit_def)
qed

lemma decode_base64_groups_source: "decode_base64_groups line n cur d = (r, d') \<Longrightarrow> same_source d d'"
proof (induction line n cur d arbitrary: r d' rule: decode_base64_groups.induct)
  case (1 line n cur d)
  show ?case
  proof (cases "n \<noteq> 0 \<and> (\<exists>f s. get_at line cur = Some f \<and> get_at line (cur + 1) = Some s \<and> is_base64_char f \<and> is_base64_char s)")
    case False
    then have "d' = d" using "1.prems" by (subst (asm) decode_base64_groups.simps) (auto split: if_splits option.splits)
    then show ?thesis by simp
  next
    case True
    then obtain f s where c: "n \<noteq> 0" and g: "get_at line cur = Some f" "get_at line (cur + 1) = Some s"
      and ch: "\<not> (\<not> is_base64_char f \<or> \<not> is_base64_char s)" by blast
    let ?v = "or (push_bit 18 (ucast (base64_value f))) (push_bit 12 (ucast (base64_value s))) :: u32"
    obtain q e where "base64_tail line ?v (n - 2) (cur + 2) (emit (drop_bit 16 ?v) d) = (q, e)" by fastforce
    moreover obtain st v k cur' where "q = (st, v, k, cur')" by (cases q)
    ultimately have x: "base64_tail line ?v (n - 2) (cur + 2) (emit (drop_bit 16 ?v) d) = ((st, v, k, cur'), e)" by simp
    have e: "same_source d e" by (rule base64_tail_source [OF x])
    have step: "decode_base64_groups line n cur d = (if st then ((k, cur'), e) else decode_base64_groups line k cur' e)"
      using c g ch x by (subst decode_base64_groups.simps) (simp add: Let_def)
    show ?thesis
    proof (cases st)
      case False
      then have "decode_base64_groups line k cur' e = (r, d')" using "1.prems" step by simp
      from "1.IH" [OF c refl g ch refl x [symmetric] refl refl refl _ this] False
      show ?thesis using same_source_trans [OF e] by blast
    qed (use "1.prems" step e in simp)
  qed
qed

lemma process_line_source: "process_line l d = (r, d') \<Longrightarrow> same_source d d'"
proof (cases "uu_state d")
  case FindHead
  moreover assume "process_line l d = (r, d')"
  ultimately show ?thesis
    by (auto simp: process_line_def find_header_def Let_def same_source_def split: if_splits option.splits)
next
  case ReadUu
  moreover assume "process_line l d = (r, d')"
  ultimately show ?thesis using decode_uu_groups_source [of l _ 1 d r d']
    by (auto simp: process_line_def decode_uu_line_def Let_def same_source_def split: if_splits list.splits)
next
  case UuEnd
  moreover assume "process_line l d = (r, d')"
  ultimately show ?thesis by (auto simp: process_line_def expect_end_line_def same_source_def split: if_splits)
next
  case ReadBase64
  moreover assume "process_line l d = (r, d')"
  ultimately show ?thesis using decode_base64_groups_source [of l "length l" 0 d]
    by (auto simp: process_line_def decode_base64_line_def same_source_def split: if_splits prod.splits)
qed (simp add: process_line_def)

text \<open>What a refill that returns leaves behind: it is finished, or has output, or gives up.\<close>

definition settled :: "'s uu_step \<Rightarrow> bool" where
  "settled res \<longleftrightarrow> (case res of (Inl _, _) \<Rightarrow> True
     | (Inr _, d) \<Rightarrow> uu_finished d \<or> uu_out_pos d < length (uu_out d) \<or> uu_state d = IgnoreRest)"

lemma scan_line_bounds: "scan_line k bs = LineEnd c m \<Longrightarrow> k \<le> c \<and> c < k + length bs \<and> 0 < m"
  by (induction k bs rule: scan_line.induct) (auto split: if_splits)

lemma at_end_settled: "settled (at_end_of_stream d)"
  by (auto simp: settled_def at_end_of_stream_def split: prod.splits sum.splits
      elim!: and_then_st.elims)

context total_reader
begin

lemma fill_loop_returns:
  "\<lbrakk>inv (uu_inner d); length (drop (uu_pos d) (uu_input d)) + 2 * length (rest (uu_inner d)) < fuel; uu_out_pos d = 0\<rbrakk> \<Longrightarrow>
     \<exists>res. fill_loop read fuel d = Some res \<and> settled res"
proof (induction fuel arbitrary: d)
  case (Suc fuel)
  let ?d = "compact d"
  obtain data t where r: "read READ_CHUNK (uu_inner d) = (Inr data, t)" using read_total [OF Suc.prems(1)] by blast
  note ok = read_ok [OF Suc.prems(1) r]
  show ?case
  proof (cases "uu_state ?d = IgnoreRest")
    case True
    then show ?thesis by (simp add: fill_loop.simps Let_def settled_def)
  next
    case run: False
    show ?thesis
    proof (cases "scan_line (uu_pos ?d) (drop (uu_pos ?d) (uu_input ?d))")
      case (LineEnd c m)
      have b: "c < length (uu_input ?d)" "0 < m" using scan_line_bounds [OF LineEnd] by (auto simp: compact_eq)
      let ?l = "take (c - uu_pos ?d) (drop (uu_pos ?d) (uu_input ?d))"
      obtain x e where x: "process_line ?l (?d\<lparr>uu_pos := c + m\<rparr>) = (x, e)" by fastforce
      have src: "same_source (?d\<lparr>uu_pos := c + m\<rparr>) e" by (rule process_line_source [OF x])
      have "length (drop (uu_pos e) (uu_input e)) + 2 * length (rest (uu_inner e)) < fuel"
        using src b Suc.prems(2) by (simp add: same_source_def compact_eq)
      moreover have "inv (uu_inner e)" "uu_out_pos e = 0" using src Suc.prems(1,3) by (simp_all add: same_source_def compact_eq)
      ultimately obtain res where res: "fill_loop read fuel e = Some res \<and> settled res" using Suc.IH by blast
      show ?thesis
      proof (cases "(uu_state ?d = ReadUu \<or> uu_state ?d = ReadBase64) \<and> length (uu_out ?d) + (length ?l + m) * 2 > OUT_BUFF_SIZE")
        case True
        then show ?thesis using run LineEnd Suc.prems(3) by (auto simp: fill_loop.simps Let_def settled_def) (auto simp: compact_eq)
      next
        case False
        then have "fill_loop read (Suc fuel) d = (case x of Inl er \<Rightarrow> Some (Inl er, e) | Inr _ \<Rightarrow> fill_loop read fuel e)"
          using run LineEnd x by (auto simp: fill_loop.simps Let_def)
        then show ?thesis using res by (cases x) (simp_all add: settled_def)
      qed
    next
      case BadByte
      then show ?thesis using run by (simp add: fill_loop.simps Let_def settled_def)
    next
      case NoLine
      have inner: "uu_inner ?d = uu_inner d" by (simp add: compact_eq)
      show ?thesis
      proof (cases "length (uu_input ?d) - uu_pos ?d > MAX_LINE")
        case True
        then show ?thesis using run NoLine by (simp add: fill_loop.simps Let_def settled_def)
      next
        case short: False
        show ?thesis
        proof (cases "data = []")
          case True
          then show ?thesis using run NoLine short r inner
            by (simp add: fill_loop.simps Let_def at_end_settled)
        next
          case False
          let ?e = "?d\<lparr>uu_inner := t, uu_input := uu_input ?d @ data\<rparr>"
          have "length (drop (uu_pos ?e) (uu_input ?e)) + 2 * length (rest (uu_inner ?e)) < fuel"
            using ok False Suc.prems(2) by (cases data) (simp_all add: compact_eq)
          then have "\<exists>res. fill_loop read fuel ?e = Some res \<and> settled res" using Suc.IH [of ?e] ok Suc.prems(3) by (simp add: compact_eq)
          then show ?thesis using run NoLine short r inner False by (simp add: fill_loop.simps Let_def)
        qed
      qed
    qed
  qed
qed simp

lemma uu_read_returns_or_ignores:
  assumes "inv (uu_inner d)" "length (drop (uu_pos d) (uu_input d)) + 2 * length (rest (uu_inner d)) < fuel"
  shows "(\<exists>res. uu_read read fuel 2 n d = Some res) \<or>
    (\<exists>d'. fill read fuel d = Some (Inr (), d') \<and> uu_state d' = IgnoreRest \<and> uu_out_pos d' \<ge> length (uu_out d'))"
proof (cases "uu_out_pos d < length (uu_out d) \<or> uu_finished d")
  case True
  then show ?thesis unfolding two_turns One_nat_def by (auto simp: uu_read.simps Let_def)
next
  case False
  let ?e = "d\<lparr>uu_out := [], uu_out_pos := 0, produced := 0\<rparr>"
  obtain res where res: "fill read fuel d = Some res" "settled res"
    using fill_loop_returns [of ?e fuel] assms by (auto simp: fill_def)
  obtain x e where x: "res = (x, e)" by fastforce
  show ?thesis
  proof (cases x)
    case (Inl er)
    then show ?thesis using False res x by (simp add: two_turns)
  next
    case (Inr u)
    show ?thesis
    proof (cases "uu_finished e \<or> uu_out_pos e < length (uu_out e)")
      case True
      then have "\<exists>res. uu_read read fuel 1 n e = Some res" unfolding One_nat_def by (auto simp: uu_read.simps Let_def)
      then show ?thesis using False res x Inr by (simp add: two_turns)
    next
      case stuck: False
      then show ?thesis using res x Inr by (auto simp: settled_def)
    qed
  qed
qed

end



text \<open>In the state that ignores the rest, \<open>fill\<close> returns without finishing and \<open>read\<close> calls it again.\<close>

lemma fill_ignored:
  "uu_state d = IgnoreRest \<Longrightarrow> fill rd (Suc fuel) d = Some (Inr (), (compact d)\<lparr>uu_input := [], uu_out := [], uu_out_pos := 0, produced := 0\<rparr>)"
  by (simp add: fill_def fill_loop.simps compact_eq Let_def)

text \<open>
  C35. The exception is real: once the decoder ignores the rest of its input and its output has been
  delivered, a read never returns, however often the loop is run.  Binary data after an encoded
  section therefore hangs the reader instead of ending the stream.
\<close>

theorem uu_read_hangs:
  assumes "uu_state d = IgnoreRest" "length (uu_out d) \<le> uu_out_pos d" "\<not> uu_finished d"
  shows "uu_read rd fuel turns n d = None"
  using assms
proof (induction turns arbitrary: d)
  case (Suc turns)
  show ?case
  proof (cases fuel)
    case 0
    then show ?thesis using Suc.prems by (simp add: uu_read.simps fill_def fill_loop.simps)
  next
    case (Suc k)
    let ?e = "(compact d)\<lparr>uu_input := [], uu_out := [], uu_out_pos := 0, produced := 0\<rparr>"
    have "uu_read rd fuel turns n ?e = None" by (rule Suc.IH) (use Suc.prems in \<open>simp_all add: compact_eq\<close>)
    then show ?thesis using Suc.prems \<open>fuel = Suc k\<close> by (simp add: uu_read.simps fill_ignored)
  qed
qed (simp add: uu_read.simps)

text \<open>A section with the bytes \<open>hi\<close>, then one byte \<open>0xff\<close>.\<close>

definition binary_tail :: bytes where
  "binary_tail = text_of [uu_begin [0x61], uu_line [0x68, 0x69], [0x20], [0x65, 0x6e, 0x64]] @ [0xff]"

theorem uu_read_hangs_witness:
  "case uu_read (\<lambda>n s. (Inr s, [])) 40 2 8 (uu_new binary_tail) of
     Some (Inr data, d) \<Rightarrow> data = [0x68, 0x69] \<and> uu_read (\<lambda>n s. (Inr s, [])) 1000 1000 8 d = None
   | _ \<Rightarrow> False"
proof -
  have "case uu_read (\<lambda>n s. (Inr s, [])) 40 2 8 (uu_new binary_tail) of
      Some (Inr data, d) \<Rightarrow> data = [0x68, 0x69] \<and> uu_state d = IgnoreRest \<and> length (uu_out d) \<le> uu_out_pos d \<and> \<not> uu_finished d
    | _ \<Rightarrow> False"
    by code_simp
  then show ?thesis using uu_read_hangs by (auto split: option.splits prod.splits sum.splits)
qed

section \<open>Two more deviations\<close>

text \<open>A reader that delivers given chunks.\<close>

definition chunk_reader :: "nat \<Rightarrow> bytes list \<Rightarrow> (io_error, bytes) result \<times> bytes list" where
  "chunk_reader n s = (case s of [] \<Rightarrow> (Inr [], []) | c # cs \<Rightarrow> (Inr c, cs))"

text \<open>A carriage return at the end of what has been read so far counts as a whole line end, so the
  line feed that arrives with the next read is an empty line, which the body does not allow: the
  same text decodes or fails depending on where the reads cut it.\<close>

lemma crlf_depends_on_chunks:
  "(let head = uu_begin [0x61] @ [0x0d]; tail = 0x0a # text_of [uu_line [0x68, 0x69], [0x20], [0x65, 0x6e, 0x64]]
    in uu_drain chunk_reader 20 8 3 (uu_new [head @ tail]) = Some (Inr [0x68, 0x69]) \<and>
       uu_drain chunk_reader 20 8 3 (uu_new [head, tail]) = Some (Inl insufficient))"
  by code_simp

text \<open>A body line of more than half the output buffer ends the stream, successfully and with
  everything from that line on missing.\<close>

lemma oversized_line_ends_stream:
  assumes "uu_state d = ReadUu \<or> uu_state d = ReadBase64" "uu_out d = []" "uu_pos d = 0"
    and "scan_line 0 (uu_input d) = LineEnd n m" "OUT_BUFF_SIZE < 2 * n" "n \<le> length (uu_input d)"
  shows "fill_loop rd (Suc fuel) d = Some (Inr (), d\<lparr>uu_finished := True\<rparr>)"
proof -
  have "uu_state d \<noteq> IgnoreRest" using assms(1) by auto
  moreover have "over_out (length (take n (uu_input d)) * 2 + m * 2)" using assms(5,6) by simp
  ultimately show ?thesis using assms(1-4) by (auto simp: fill_loop.simps compact_def Let_def distrib_right)
qed

end
