(* ===== verification/File_Store.thy ===== *)
theory File_Store
  imports Byte_Reader Rust_Str
begin

text \<open>
  A disk that changes: the tree of nodes by path, and the calls of \<open>std::fs\<close> that the writers
  of the code base make.  Every call consumes one tick; the fault plan says at which ticks the
  operating system refuses, with which error, and how many bytes a refused write has still put
  into the file.  A crash is the plan that refuses everything from some tick on, clean-up
  included, so a statement over all fault plans covers crashes at every point.
\<close>

datatype node = FileNode bytes | DirNode | LinkNode path

record disk =
  nodes :: "path \<Rightarrow> node option"
  tick :: nat
  faults :: "nat \<Rightarrow> (io_error \<times> nat) option"

type_synonym 'a disk_step = "(io_error, 'a) result \<times> disk"

definition io_err :: "error_kind \<Rightarrow> string \<Rightarrow> io_error" where
  "io_err k m = \<lparr>kind = k, message = m\<rparr>"

definition not_found :: io_error where "not_found = io_err NotFound ''not found''"
definition already_exists :: io_error where "already_exists = io_err AlreadyExists ''already exists''"
definition is_a_directory :: io_error where "is_a_directory = io_err IsADirectory ''is a directory''"

text \<open>A call: refused by the plan, or the operation on the disk one tick later.\<close>

definition call :: "(disk \<Rightarrow> (io_error, 'a) result \<times> (path \<Rightarrow> node option)) \<Rightarrow> disk \<Rightarrow> 'a disk_step" where
  "call f d =
     (let d' = d\<lparr>tick := Suc (tick d)\<rparr> in
      case faults d (tick d) of
        Some (e, _) \<Rightarrow> (Inl e, d')
      | None \<Rightarrow> (case f d of (r, ns) \<Rightarrow> (r, d'\<lparr>nodes := ns\<rparr>)))"

definition node_kind :: "node \<Rightarrow> file_kind" where
  "node_kind n = (case n of FileNode _ \<Rightarrow> RegularFile | DirNode \<Rightarrow> DirectoryFile | LinkNode _ \<Rightarrow> SymlinkFile)"

definition disk_symlink_metadata :: "path \<Rightarrow> disk \<Rightarrow> file_kind disk_step" where
  "disk_symlink_metadata p = call (\<lambda>d. (case nodes d p of None \<Rightarrow> Inl not_found | Some n \<Rightarrow> Inr (node_kind n), nodes d))"

definition disk_create_new :: "path \<Rightarrow> disk \<Rightarrow> unit disk_step" where
  "disk_create_new p = call (\<lambda>d.
     if nodes d p \<noteq> None then (Inl already_exists, nodes d) else (Inr (), (nodes d)(p \<mapsto> FileNode [])))"

text \<open>\<open>write_all\<close> to an open file; a refused write may have written a part.\<close>

definition disk_write_all :: "path \<Rightarrow> bytes \<Rightarrow> disk \<Rightarrow> unit disk_step" where
  "disk_write_all p bs d =
     (let old = (case nodes d p of Some (FileNode c) \<Rightarrow> c | _ \<Rightarrow> []); d' = d\<lparr>tick := Suc (tick d)\<rparr> in
      case faults d (tick d) of
        Some (e, n) \<Rightarrow> (Inl e, d'\<lparr>nodes := (nodes d)(p \<mapsto> FileNode (old @ take n bs))\<rparr>)
      | None \<Rightarrow> (Inr (), d'\<lparr>nodes := (nodes d)(p \<mapsto> FileNode (old @ bs))\<rparr>))"

definition disk_sync :: "path \<Rightarrow> disk \<Rightarrow> unit disk_step" where
  "disk_sync p = call (\<lambda>d. (Inr (), nodes d))"

text \<open>\<open>rename\<close> replaces a file or link in one step and refuses a directory as the target of a
  file.\<close>

definition disk_rename :: "path \<Rightarrow> path \<Rightarrow> disk \<Rightarrow> unit disk_step" where
  "disk_rename from to = call (\<lambda>d.
     case nodes d from of
       None \<Rightarrow> (Inl not_found, nodes d)
     | Some n \<Rightarrow>
         if nodes d to = Some DirNode \<and> n \<noteq> DirNode then (Inl is_a_directory, nodes d)
         else if from = to then (Inr (), nodes d)
         else (Inr (), (nodes d)(to \<mapsto> n, from := None)))"

definition disk_rename_noreplace :: "path \<Rightarrow> path \<Rightarrow> disk \<Rightarrow> unit disk_step" where
  "disk_rename_noreplace from to = call (\<lambda>d.
     case nodes d from of
       None \<Rightarrow> (Inl not_found, nodes d)
     | Some n \<Rightarrow>
         if nodes d to \<noteq> None then (Inl already_exists, nodes d)
         else (Inr (), (nodes d)(to \<mapsto> n, from := None)))"

definition disk_hard_link :: "path \<Rightarrow> path \<Rightarrow> disk \<Rightarrow> unit disk_step" where
  "disk_hard_link from to = call (\<lambda>d.
     case nodes d from of
       None \<Rightarrow> (Inl not_found, nodes d)
     | Some n \<Rightarrow> if nodes d to \<noteq> None then (Inl already_exists, nodes d) else (Inr (), (nodes d)(to \<mapsto> n)))"

definition disk_remove_file :: "path \<Rightarrow> disk \<Rightarrow> unit disk_step" where
  "disk_remove_file p = call (\<lambda>d.
     case nodes d p of
       None \<Rightarrow> (Inl not_found, nodes d)
     | Some DirNode \<Rightarrow> (Inl is_a_directory, nodes d)
     | Some _ \<Rightarrow> (Inr (), (nodes d)(p := None)))"

definition disk_symlink :: "path \<Rightarrow> path \<Rightarrow> disk \<Rightarrow> unit disk_step" where
  "disk_symlink target p = call (\<lambda>d.
     if nodes d p \<noteq> None then (Inl already_exists, nodes d) else (Inr (), (nodes d)(p \<mapsto> LinkNode target)))"

text \<open>\<open>create_dir_all\<close>: the missing directories on the way become directories.\<close>

definition disk_create_dir_all :: "path \<Rightarrow> disk \<Rightarrow> unit disk_step" where
  "disk_create_dir_all p = call (\<lambda>d.
     if list_ex (\<lambda>k. case nodes d (take k p) of Some (FileNode _) \<Rightarrow> True | _ \<Rightarrow> False) [1 ..< Suc (length p)]
     then (Inl already_exists, nodes d)
     else (Inr (), \<lambda>q. if nodes d q = None \<and> q \<noteq> [] \<and> take (length q) p = q then Some DirNode else nodes d q))"

section \<open>What a call can change\<close>

lemma call_cases:
  assumes "call f d = (r, d')"
  obtains (refused) e n where "faults d (tick d) = Some (e, n)" "r = Inl e" "d' = d\<lparr>tick := Suc (tick d)\<rparr>"
  | (ran) ns where "faults d (tick d) = None" "f d = (r, ns)" "d' = d\<lparr>tick := Suc (tick d), nodes := ns\<rparr>"
  using assms by (auto simp: call_def Let_def split: option.splits prod.splits)

definition same_at :: "path \<Rightarrow> disk \<Rightarrow> disk \<Rightarrow> bool" where
  "same_at p d d' \<longleftrightarrow> nodes d' p = nodes d p"

lemma same_at_refl [simp]: "same_at p d d"
  by (simp add: same_at_def)

lemma same_at_trans: "same_at p d e \<Longrightarrow> same_at p e f \<Longrightarrow> same_at p d f"
  by (simp add: same_at_def)

named_theorems disk_frame \<open>where a call leaves the disk as it is\<close>

lemma disk_symlink_metadata_frame [disk_frame]: "disk_symlink_metadata p d = (r, d') \<Longrightarrow> nodes d' = nodes d"
  by (auto simp: disk_symlink_metadata_def elim!: call_cases)

lemma disk_sync_frame [disk_frame]: "disk_sync p d = (r, d') \<Longrightarrow> nodes d' = nodes d"
  by (auto simp: disk_sync_def elim!: call_cases)

lemma disk_create_new_frame [disk_frame]: "disk_create_new p d = (r, d') \<Longrightarrow> q \<noteq> p \<Longrightarrow> nodes d' q = nodes d q"
  by (auto simp: disk_create_new_def elim!: call_cases split: if_splits)

lemma disk_write_all_frame [disk_frame]: "disk_write_all p bs d = (r, d') \<Longrightarrow> q \<noteq> p \<Longrightarrow> nodes d' q = nodes d q"
  by (auto simp: disk_write_all_def Let_def split: option.splits)

lemma disk_remove_file_frame [disk_frame]: "disk_remove_file p d = (r, d') \<Longrightarrow> q \<noteq> p \<Longrightarrow> nodes d' q = nodes d q"
  by (auto simp: disk_remove_file_def elim!: call_cases split: option.splits node.splits)

lemma disk_rename_frame [disk_frame]:
  "disk_rename from to d = (r, d') \<Longrightarrow> q \<noteq> from \<Longrightarrow> q \<noteq> to \<Longrightarrow> nodes d' q = nodes d q"
  by (auto simp: disk_rename_def elim!: call_cases split: option.splits if_splits)

lemma disk_rename_noreplace_frame [disk_frame]:
  "disk_rename_noreplace from to d = (r, d') \<Longrightarrow> q \<noteq> from \<Longrightarrow> q \<noteq> to \<Longrightarrow> nodes d' q = nodes d q"
  by (auto simp: disk_rename_noreplace_def elim!: call_cases split: option.splits if_splits)

lemma disk_hard_link_frame [disk_frame]:
  "disk_hard_link from to d = (r, d') \<Longrightarrow> q \<noteq> to \<Longrightarrow> nodes d' q = nodes d q"
  by (auto simp: disk_hard_link_def elim!: call_cases split: option.splits if_splits)

section \<open>What a call does\<close>

named_theorems disk_effect \<open>the disk after a call that succeeded or failed\<close>

lemma disk_create_new_ok [disk_effect]:
  "disk_create_new p d = (Inr u, d') \<Longrightarrow> nodes d p = None \<and> nodes d' = (nodes d)(p \<mapsto> FileNode [])"
  by (auto simp: disk_create_new_def elim!: call_cases split: if_splits)

lemma disk_create_new_err [disk_effect]: "disk_create_new p d = (Inl e, d') \<Longrightarrow> nodes d' = nodes d"
  by (auto simp: disk_create_new_def elim!: call_cases split: if_splits)

lemma disk_write_all_ok [disk_effect]:
  "disk_write_all p bs d = (Inr u, d') \<Longrightarrow>
     nodes d' = (nodes d)(p \<mapsto> FileNode ((case nodes d p of Some (FileNode c) \<Rightarrow> c | _ \<Rightarrow> []) @ bs))"
  by (auto simp: disk_write_all_def Let_def split: option.splits)

lemma disk_rename_ok [disk_effect]:
  "disk_rename from to d = (Inr u, d') \<Longrightarrow> from \<noteq> to \<Longrightarrow>
     \<exists>n. nodes d from = Some n \<and> nodes d' = (nodes d)(to \<mapsto> n, from := None)"
  by (auto simp: disk_rename_def elim!: call_cases split: option.splits if_splits)

lemma disk_rename_err [disk_effect]: "disk_rename from to d = (Inl e, d') \<Longrightarrow> nodes d' = nodes d"
  by (auto simp: disk_rename_def elim!: call_cases split: option.splits if_splits)

lemma disk_rename_noreplace_ok [disk_effect]:
  "disk_rename_noreplace from to d = (Inr u, d') \<Longrightarrow>
     \<exists>n. nodes d from = Some n \<and> nodes d to = None \<and> nodes d' = (nodes d)(to \<mapsto> n, from := None)"
  by (auto simp: disk_rename_noreplace_def elim!: call_cases split: option.splits if_splits)

lemma disk_rename_noreplace_err [disk_effect]: "disk_rename_noreplace from to d = (Inl e, d') \<Longrightarrow> nodes d' = nodes d"
  by (auto simp: disk_rename_noreplace_def elim!: call_cases split: option.splits if_splits)

lemma disk_hard_link_ok [disk_effect]:
  "disk_hard_link from to d = (Inr u, d') \<Longrightarrow>
     \<exists>n. nodes d from = Some n \<and> nodes d to = None \<and> nodes d' = (nodes d)(to \<mapsto> n)"
  by (auto simp: disk_hard_link_def elim!: call_cases split: option.splits if_splits)

lemma disk_hard_link_err [disk_effect]: "disk_hard_link from to d = (Inl e, d') \<Longrightarrow> nodes d' = nodes d"
  by (auto simp: disk_hard_link_def elim!: call_cases split: option.splits if_splits)

lemma faults_kept:
  "disk_create_new p d = (r, d') \<Longrightarrow> faults d' = faults d"
  "disk_hard_link p q d = (s, d') \<Longrightarrow> faults d' = faults d"
  "disk_rename_noreplace p q d = (t, d') \<Longrightarrow> faults d' = faults d"
  by (auto simp: disk_create_new_def disk_hard_link_def disk_rename_noreplace_def elim!: call_cases)

lemma disk_rename_noreplace_tick: "disk_rename_noreplace p q d = (r, d') \<Longrightarrow> tick d' = Suc (tick d)"
  by (auto simp: disk_rename_noreplace_def elim!: call_cases)

end
