(* ===== verification/Atomic_File.thy ===== *)
theory Atomic_File
  imports File_Store
begin

text \<open>
  Atomic output files (\<open>crates/zmanager-core/src/atomic_file.rs\<close>, the Linux build): a file is
  written under a temporary name beside its destination and renamed into place.  The disk is
  that of \<open>File_Store\<close>, with an arbitrary fault plan; the process id and the time that go into
  the temporary names are the argument \<open>stamp\<close>.  Raw error numbers are the constructor
  \<open>OtherKind\<close> with their name.
\<close>

section \<open>Temporary names\<close>

definition TEMP_PREFIX :: string where "TEMP_PREFIX = ''.zmanager''"
definition TEMP_SUFFIX :: string where "TEMP_SUFFIX = ''.tmp''"
definition MAX_TEMP_ATTEMPTS :: nat where "MAX_TEMP_ATTEMPTS = 100"

definition name_or :: "string \<Rightarrow> path \<Rightarrow> string" where
  "name_or fallback p = (case Option.bind (path_file_name p) to_str of None \<Rightarrow> fallback | Some n \<Rightarrow> n)"

definition output_temp_path :: "string \<Rightarrow> path \<Rightarrow> nat \<Rightarrow> path" where
  "output_temp_path stamp final attempt =
     (case path_parent final of None \<Rightarrow> [CurDir] | Some parent \<Rightarrow> parent)
     @ [Normal (TEMP_PREFIX @ ''-'' @ name_or ''archive'' final @ ''-'' @ stamp @ ''-'' @ decimal attempt @ TEMP_SUFFIX)]"

section \<open>Removing and renaming\<close>

definition remove_file_destination_for_replace :: "path \<Rightarrow> disk \<Rightarrow> unit disk_step" where
  "remove_file_destination_for_replace p d =
     (case disk_symlink_metadata p d of
        (Inl e, d') \<Rightarrow> if kind e = NotFound then (Inr (), d') else (Inl e, d')
      | (Inr k, d') \<Rightarrow>
          if k = DirectoryFile
          then (Inl (io_err IsADirectory (''cannot replace directory '' @ render_path p)), d')
          else disk_remove_file p d')"

text \<open>\<open>remove_dir_all\<close> as one call: it removes the tree, or is refused before it has begun.\<close>

definition disk_remove_dir_all :: "path \<Rightarrow> disk \<Rightarrow> unit disk_step" where
  "disk_remove_dir_all p = call (\<lambda>d. (Inr (), \<lambda>q. if take (length p) q = p then None else nodes d q))"

definition remove_destination_for_replace :: "path \<Rightarrow> disk \<Rightarrow> unit disk_step" where
  "remove_destination_for_replace p d =
     (case disk_symlink_metadata p d of
        (Inl e, d') \<Rightarrow> if kind e = NotFound then (Inr (), d') else (Inl e, d')
      | (Inr k, d') \<Rightarrow> if k = DirectoryFile then disk_remove_dir_all p d' else disk_remove_file p d')"

text \<open>\<open>Path::exists\<close> follows links; a call that is refused counts as absent.\<close>

fun resolves :: "nat \<Rightarrow> (path \<Rightarrow> node option) \<Rightarrow> path \<Rightarrow> bool" where
  "resolves 0 ns p = False"
| "resolves (Suc n) ns p = (case ns p of None \<Rightarrow> False | Some (LinkNode t) \<Rightarrow> resolves n ns t | Some _ \<Rightarrow> True)"

definition disk_exists :: "path \<Rightarrow> disk \<Rightarrow> bool \<times> disk" where
  "disk_exists p d =
     (case call (\<lambda>d. (Inr (resolves 40 (nodes d) p), nodes d)) d of (Inl _, d') \<Rightarrow> (False, d') | (Inr b, d') \<Rightarrow> (b, d'))"

text \<open>The kinds \<open>PermissionDenied\<close> and \<open>Unsupported\<close>, the latter by its raw error numbers.\<close>

definition link_refused :: "io_error \<Rightarrow> bool" where
  "link_refused e \<longleftrightarrow>
     kind e = PermissionDenied \<or> kind e = OtherKind ''ENOSYS'' \<or> kind e = OtherKind ''EOPNOTSUPP''"

definition fallback_hardlink_rename :: "path \<Rightarrow> path \<Rightarrow> disk \<Rightarrow> unit disk_step" where
  "fallback_hardlink_rename from to d =
     (case disk_hard_link from to d of
        (Inr _, d1) \<Rightarrow> (Inr (), snd (disk_remove_file from d1))
      | (Inl e, d1) \<Rightarrow>
          if link_refused e then
            (case disk_exists to d1 of (b, d2) \<Rightarrow> if b then (Inl e, d2) else disk_rename from to d2)
          else (Inl e, d1))"

definition rename_unsupported :: "io_error \<Rightarrow> bool" where
  "rename_unsupported e \<longleftrightarrow> kind e = OtherKind ''ENOSYS'' \<or> kind e = OtherKind ''EINVAL'' \<or> kind e = OtherKind ''EOPNOTSUPP''"

definition atomic_no_clobber_rename :: "path \<Rightarrow> path \<Rightarrow> disk \<Rightarrow> unit disk_step" where
  "atomic_no_clobber_rename from to d =
     (case disk_rename_noreplace from to d of
        (Inr _, d1) \<Rightarrow> (Inr (), d1)
      | (Inl e, d1) \<Rightarrow> if rename_unsupported e then fallback_hardlink_rename from to d1 else (Inl e, d1))"

section \<open>AtomicOutputFile\<close>

record atomic_output =
  final_path :: path
  temp_path :: path
  file_open :: bool
  committed :: bool

fun create_attempts :: "string \<Rightarrow> path \<Rightarrow> nat list \<Rightarrow> disk \<Rightarrow> atomic_output disk_step" where
  "create_attempts stamp final [] d =
     (Inl (io_err AlreadyExists (''could not allocate temporary output path for '' @ render_path final)), d)"
| "create_attempts stamp final (attempt # attempts) d =
     (let temp = output_temp_path stamp final attempt in
      case disk_create_new temp d of
        (Inr _, d') \<Rightarrow> (Inr \<lparr>final_path = final, temp_path = temp, file_open = True, committed = False\<rparr>, d')
      | (Inl e, d') \<Rightarrow> if kind e = AlreadyExists then create_attempts stamp final attempts d' else (Inl e, d'))"

definition ensure_parent :: "path \<Rightarrow> disk \<Rightarrow> unit disk_step" where
  "ensure_parent final d =
     (case path_parent final of
        Some parent \<Rightarrow> if parent \<noteq> [] then disk_create_dir_all parent d else (Inr (), d)
      | None \<Rightarrow> (Inr (), d))"

definition output_create :: "string \<Rightarrow> path \<Rightarrow> disk \<Rightarrow> atomic_output disk_step" where
  "output_create stamp final d =
     and_then_st (ensure_parent final d) (\<lambda>_. create_attempts stamp final [0 ..< MAX_TEMP_ATTEMPTS])"

text \<open>\<open>file_mut\<close>, followed by the write it is taken for.\<close>

definition output_write :: "atomic_output \<Rightarrow> bytes \<Rightarrow> disk \<Rightarrow> unit disk_step" where
  "output_write h bs d =
     (if file_open h then disk_write_all (temp_path h) bs d
      else (Inl (io_err (OtherKind ''other'') (''temporary output already finalized for '' @ render_path (final_path h))), d))"

definition output_close :: "atomic_output \<Rightarrow> atomic_output" where
  "output_close h = h\<lparr>file_open := False\<rparr>"

text \<open>\<open>Drop\<close>: an output that was not committed removes its temporary file and ignores errors.\<close>

definition drop_output :: "atomic_output \<Rightarrow> disk \<Rightarrow> disk" where
  "drop_output h d = (if committed h then d else snd (disk_remove_file (temp_path h) d))"

text \<open>The commits consume the output, so \<open>Drop\<close> runs when they return.\<close>

definition finish_commit :: "atomic_output \<Rightarrow> unit disk_step \<Rightarrow> unit disk_step" where
  "finish_commit h res =
     (case res of
        (Inr _, d) \<Rightarrow> (Inr (), drop_output (h\<lparr>file_open := False, committed := True\<rparr>) d)
      | (Inl e, d) \<Rightarrow> (Inl e, drop_output (h\<lparr>file_open := False\<rparr>) d))"

definition commit_with_file_replace :: "bool \<Rightarrow> atomic_output \<Rightarrow> disk \<Rightarrow> unit disk_step" where
  "commit_with_file_replace replace_existing h d =
     finish_commit h
       (if replace_existing
        then and_then_st (remove_file_destination_for_replace (final_path h) d) (\<lambda>_. disk_rename (temp_path h) (final_path h))
        else atomic_no_clobber_rename (temp_path h) (final_path h) d)"

definition commit_with_replace :: "bool \<Rightarrow> atomic_output \<Rightarrow> disk \<Rightarrow> unit disk_step" where
  "commit_with_replace replace_existing h d =
     finish_commit h
       (if replace_existing
        then and_then_st (remove_destination_for_replace (final_path h) d) (\<lambda>_. disk_rename (temp_path h) (final_path h))
        else atomic_no_clobber_rename (temp_path h) (final_path h) d)"

definition commit_with_atomic_replace :: "atomic_output \<Rightarrow> disk \<Rightarrow> unit disk_step" where
  "commit_with_atomic_replace h d = finish_commit h (disk_rename (temp_path h) (final_path h) d)"

section \<open>Secret files\<close>

definition secret_temp_path :: "string \<Rightarrow> path \<Rightarrow> nat \<Rightarrow> path" where
  "secret_temp_path stamp p attempt =
     (case path_parent p of None \<Rightarrow> [CurDir] | Some parent \<Rightarrow> if parent = [] then [CurDir] else parent)
     @ [Normal (name_or ''secret'' p @ ''.tmp-'' @ stamp @ ''-'' @ decimal attempt)]"

text \<open>One attempt: create, write, sync, read the permissions and set them, rename.\<close>

definition secret_attempt :: "path \<Rightarrow> path \<Rightarrow> bytes \<Rightarrow> disk \<Rightarrow> unit disk_step" where
  "secret_attempt temporary p bs d =
     and_then_st (disk_create_new temporary d) (\<lambda>_ d.
     and_then_st (disk_write_all temporary bs d) (\<lambda>_ d.
     and_then_st (disk_sync temporary d) (\<lambda>_ d.
     and_then_st (disk_symlink_metadata temporary d) (\<lambda>_ d.
     and_then_st (disk_sync temporary d) (\<lambda>_ d.
     disk_rename temporary p d)))))"

fun secret_attempts :: "string \<Rightarrow> path \<Rightarrow> bytes \<Rightarrow> nat list \<Rightarrow> disk \<Rightarrow> unit disk_step" where
  "secret_attempts stamp p bs [] d =
     (Inl (io_err AlreadyExists (''could not allocate temporary secret file for '' @ render_path p)), d)"
| "secret_attempts stamp p bs (attempt # attempts) d =
     (let temporary = secret_temp_path stamp p attempt in
      case secret_attempt temporary p bs d of
        (Inr _, d1) \<Rightarrow> (Inr (), snd (disk_sync (butlast temporary) d1))
      | (Inl e, d1) \<Rightarrow>
          let d2 = snd (disk_remove_file temporary d1)
          in if kind e = AlreadyExists then secret_attempts stamp p bs attempts d2 else (Inl e, d2))"

definition write_atomic_secret_file :: "string \<Rightarrow> path \<Rightarrow> bytes \<Rightarrow> disk \<Rightarrow> unit disk_step" where
  "write_atomic_secret_file stamp p bs d = secret_attempts stamp p bs [0 ..< MAX_TEMP_ATTEMPTS] d"

section \<open>The destination is written whole or not at all\<close>

lemma temp_differs:
  assumes "\<And>n. name_or fallback p = n \<Longrightarrow> f n \<noteq> n" "path_file_name p = None \<or> to_str (the (path_file_name p)) = None \<Longrightarrow> is_utf8 (f fallback)"
  shows "q @ [Normal (f (name_or fallback p))] \<noteq> p"
proof
  assume e: "q @ [Normal (f (name_or fallback p))] = p"
  obtain m where m: "m = f (name_or fallback p)" by simp
  have "path_file_name (q @ [Normal m]) = Some m" by (simp add: path_file_name_def)
  then have n: "path_file_name p = Some m" unfolding m using e by (rule back_subst [of "\<lambda>p. path_file_name p = _"])
  show False
  proof (cases "is_utf8 m")
    case False
    then have "name_or fallback p = fallback" by (simp add: name_or_def n to_str_def)
    then show False using assms(2) n False by (simp add: to_str_def m)
  next
    case True
    then have "name_or fallback p = m" by (simp add: name_or_def n to_str_def)
    then show False using assms(1) m by simp
  qed
qed

lemma secret_attempt_target:
  assumes "secret_attempt temporary p bs d = (r, d')" "temporary \<noteq> p"
  shows "nodes d' p = (case r of Inl _ \<Rightarrow> nodes d p | Inr _ \<Rightarrow> Some (FileNode bs))"
proof (cases r)
  case (Inl e)
  note frames = disk_create_new_frame [of temporary, where q = p] disk_write_all_frame [of temporary, where q = p]
    disk_sync_frame disk_symlink_metadata_frame disk_rename_err
  have "p \<noteq> temporary" using assms(2) by simp
  then show ?thesis using assms(1) Inl by (auto simp: secret_attempt_def result_simps dest!: frames)
next
  case (Inr u)
  then show ?thesis using assms
    by (auto simp: secret_attempt_def result_simps dest!: disk_effect disk_sync_frame disk_symlink_metadata_frame)
qed

lemma secret_temp_differs:
  assumes "list_all (\<lambda>c. byte_in c 0 0x7F) stamp"
  shows "secret_temp_path stamp p attempt \<noteq> p"
  unfolding secret_temp_path_def
proof (rule temp_differs [where f = "\<lambda>n. n @ ''.tmp-'' @ stamp @ ''-'' @ decimal attempt"])
  have "c \<in> set (decimal attempt) \<Longrightarrow> byte_in c 0 0x7F" for c
    using decimal_digits [of c attempt] by (auto simp: byte_in_def of_char_digit)
  then show "is_utf8 (''secret'' @ ''.tmp-'' @ stamp @ ''-'' @ decimal attempt)"
    using assms by (intro is_utf8_ascii) (auto simp: list_all_iff byte_in_def)
qed simp

lemma secret_attempts_target:
  assumes "list_all (\<lambda>c. byte_in c 0 0x7F) stamp"
  shows "secret_attempts stamp p bs attempts d = (r, d') \<Longrightarrow>
    nodes d' p = (case r of Inl _ \<Rightarrow> nodes d p | Inr _ \<Rightarrow> Some (FileNode bs))"
proof (induction attempts arbitrary: d)
  case (Cons a as)
  let ?t = "secret_temp_path stamp p a"
  have ne: "?t \<noteq> p" by (rule secret_temp_differs [OF assms])
  obtain x d1 where x: "secret_attempt ?t p bs d = (x, d1)" by fastforce
  note tgt = secret_attempt_target [OF x ne]
  show ?case
  proof (cases x)
    case (Inr u)
    then show ?thesis using Cons.prems x tgt disk_sync_frame [OF prod.collapse [symmetric], of "butlast ?t" d1]
      by (auto simp: Let_def)
  next
    case (Inl e)
    let ?d2 = "snd (disk_remove_file ?t d1)"
    have "nodes ?d2 p = nodes d1 p"
      using disk_remove_file_frame [OF prod.collapse [symmetric], of p ?t d1] ne by simp
    then show ?thesis using Cons Inl x tgt by (auto simp: Let_def split: if_splits sum.splits)
  qed
qed auto

text \<open>
  C7. Writing a secret file is all or nothing.  Whatever calls the operating system refuses, at
  whatever points, and however much of a refused write has reached the disk, the destination
  afterwards holds the complete new bytes when the call reports success and is exactly as it was
  when it reports an error, so a crash never leaves a truncated or missing file.
\<close>

theorem write_atomic_secret_file_all_or_nothing:
  assumes "list_all (\<lambda>c. byte_in c 0 0x7F) stamp" "write_atomic_secret_file stamp p bs d = (r, d')"
  shows "nodes d' p = (case r of Inl _ \<Rightarrow> nodes d p | Inr _ \<Rightarrow> Some (FileNode bs))"
  using secret_attempts_target [OF assms(1)] assms(2) by (simp add: write_atomic_secret_file_def)

text \<open>A disk with a faulty write: the second call fails after three bytes.\<close>

definition faulty_disk :: disk where
  "faulty_disk = \<lparr>nodes = [[Normal ''key''] \<mapsto> FileNode [1]], tick = 0,
                   faults = (\<lambda>t. if t = 1 then Some (io_err (OtherKind ''ENOSPC'') ''full'', 3) else None)\<rparr>"

theorem write_atomic_secret_file_all_or_nothing_witness:
  "case write_atomic_secret_file ''1-2'' [Normal ''key''] [7, 7, 7, 7] faulty_disk of
     (Inl e, d') \<Rightarrow> kind e = OtherKind ''ENOSPC'' \<and> nodes d' [Normal ''key''] = Some (FileNode [1])
   | (Inr _, _) \<Rightarrow> False"
proof -
  obtain r d' where w: "write_atomic_secret_file ''1-2'' [Normal ''key''] [7, 7, 7, 7] faulty_disk = (r, d')" by fastforce
  have "case fst (write_atomic_secret_file ''1-2'' [Normal ''key''] [7, 7, 7, 7] faulty_disk) of
      Inl e \<Rightarrow> kind e = OtherKind ''ENOSPC'' | Inr _ \<Rightarrow> False" by code_simp
  moreover have "list_all (\<lambda>c. byte_in c 0 0x7F) ''1-2''" by code_simp
  note write_atomic_secret_file_all_or_nothing [OF this w]
  moreover have "nodes faulty_disk [Normal ''key''] = Some (FileNode [1])" by (simp add: faulty_disk_def)
  ultimately show ?thesis unfolding w by (cases r) simp_all
qed

section \<open>Creating an output\<close>

text \<open>What creating files below \<open>dir\<close> leaves alone: everything that exists, and the entries of \<open>dir\<close>
  except those in \<open>new\<close>.\<close>

definition grows :: "path \<Rightarrow> path set \<Rightarrow> disk \<Rightarrow> disk \<Rightarrow> bool" where
  "grows dir new d d' \<longleftrightarrow>
     (\<forall>q. nodes d q \<noteq> None \<longrightarrow> nodes d' q = nodes d q) \<and>
     (\<forall>c. dir @ [c] \<notin> new \<longrightarrow> nodes d' (dir @ [c]) = nodes d (dir @ [c]))"

lemma create_attempts_ok:
  assumes "create_attempts st final ks d = (Inr h, d')"
  shows "final_path h = final \<and> \<not> committed h \<and> file_open h \<and> (\<exists>k. temp_path h = output_temp_path st final k) \<and>
    nodes d (temp_path h) = None \<and> nodes d' = (nodes d)(temp_path h \<mapsto> FileNode [])"
  using assms
proof (induction ks arbitrary: d)
  case (Cons k ks)
  obtain r d1 where r: "disk_create_new (output_temp_path st final k) d = (r, d1)" by fastforce
  show ?case
  proof (cases r)
    case (Inl e)
    then have "create_attempts st final ks d1 = (Inr h, d')" "nodes d1 = nodes d"
      using Cons.prems r disk_create_new_err [of "output_temp_path st final k" d e d1] by (auto simp: Let_def split: if_splits)
    then show ?thesis using Cons.IH [of d1] by simp
  next
    case (Inr u)
    then show ?thesis using Cons.prems r disk_create_new_ok [of "output_temp_path st final k" d u d1] by (auto simp: Let_def)
  qed
qed simp

lemma create_dir_all_grows:
  assumes "disk_create_dir_all dir d = (Inr u, d')"
  shows "grows dir {} d d'"
  using assms by (auto simp: disk_create_dir_all_def grows_def elim!: call_cases split: if_splits)

lemma output_create_ok:
  assumes "output_create st (dir @ [Normal n]) d = (Inr h, d')"
  shows "final_path h = dir @ [Normal n]" "\<not> committed h" "file_open h"
    and "\<exists>k. temp_path h = output_temp_path st (dir @ [Normal n]) k"
    and "nodes d (temp_path h) = None" "nodes d' (temp_path h) = Some (FileNode [])" "grows dir {temp_path h} d d'"
proof -
  obtain u d1 where d1: "ensure_parent (dir @ [Normal n]) d = (Inr u, d1)"
      "create_attempts st (dir @ [Normal n]) [0 ..< MAX_TEMP_ATTEMPTS] d1 = (Inr h, d')"
    using assms by (auto simp: output_create_def result_simps)
  have g: "grows dir {} d d1"
    using d1(1) by (auto simp: ensure_parent_def grows_def path_parent_def dest!: create_dir_all_grows split: if_splits)
  note c = create_attempts_ok [OF d1(2)]
  then show "final_path h = dir @ [Normal n]" "\<not> committed h" "file_open h"
      "\<exists>k. temp_path h = output_temp_path st (dir @ [Normal n]) k" "nodes d' (temp_path h) = Some (FileNode [])"
    by simp_all
  show t: "nodes d (temp_path h) = None" using c g by (metis grows_def option.simps(3))
  show "grows dir {temp_path h} d d'" using c g t by (auto simp: grows_def)
qed

lemma output_temp_differs:
  assumes "list_all (\<lambda>c. byte_in c 0 0x7F) stamp"
  shows "output_temp_path stamp p attempt \<noteq> p"
  unfolding output_temp_path_def
proof (rule temp_differs [where f = "\<lambda>n. TEMP_PREFIX @ ''-'' @ n @ ''-'' @ stamp @ ''-'' @ decimal attempt @ TEMP_SUFFIX"])
  show "TEMP_PREFIX @ ''-'' @ n @ ''-'' @ stamp @ ''-'' @ decimal attempt @ TEMP_SUFFIX \<noteq> n" for n
  proof
    assume "TEMP_PREFIX @ ''-'' @ n @ ''-'' @ stamp @ ''-'' @ decimal attempt @ TEMP_SUFFIX = n"
    from arg_cong [OF this, of length] show False by simp
  qed
  have "c \<in> set (decimal attempt) \<Longrightarrow> byte_in c 0 0x7F" for c
    using decimal_digits [of c attempt] by (auto simp: byte_in_def of_char_digit)
  then show "is_utf8 (TEMP_PREFIX @ ''-'' @ ''archive'' @ ''-'' @ stamp @ ''-'' @ decimal attempt @ TEMP_SUFFIX)"
    using assms by (intro is_utf8_ascii) (auto simp: list_all_iff byte_in_def TEMP_PREFIX_def TEMP_SUFFIX_def)
qed

lemma output_create_err:
  assumes "output_create stamp (dir @ [Normal n]) d = (Inl e, d')"
  shows "nodes d' (dir @ [Normal n]) = nodes d (dir @ [Normal n])"
proof -
  let ?p = "dir @ [Normal n]"
  have attempts: "create_attempts stamp ?p ks d = (Inl e, d') \<Longrightarrow> nodes d' = nodes d" for ks d d'
  proof (induction ks arbitrary: d)
    case (Cons k ks)
    obtain x d1 where x: "disk_create_new (output_temp_path stamp ?p k) d = (x, d1)" by fastforce
    then obtain f where f: "x = Inl f" using Cons.prems by (cases x) (auto simp: Let_def)
    then have "nodes d1 = nodes d" using x disk_create_new_err by blast
    then show ?case using Cons x f by (auto simp: Let_def split: if_splits)
  qed simp
  have parent: "ensure_parent ?p d = (r, d1) \<Longrightarrow> nodes d1 ?p = nodes d ?p" for r d1
    by (auto simp: ensure_parent_def path_parent_def disk_create_dir_all_def elim!: call_cases split: if_splits)
  show ?thesis using assms parent attempts by (auto simp: output_create_def result_simps)
qed

section \<open>Committing an output\<close>

lemma finish_commit_at:
  assumes "\<not> committed h" "p \<noteq> temp_path h" "finish_commit h (x, d) = (r, d')"
  shows "nodes d' p = nodes d p \<and> (\<exists>e. r = Inl e) = (\<exists>e. x = Inl e)"
  using assms disk_remove_file_frame [OF prod.collapse [symmetric], of p "temp_path h" d]
  by (cases x) (auto simp: finish_commit_def drop_output_def)

text \<open>The call of the fall-back that makes the hard link, one tick after the exclusive rename, is not
  refused for lack of hard links.\<close>

definition links_work :: "disk \<Rightarrow> bool" where
  "links_work d \<longleftrightarrow> (case faults d (Suc (tick d)) of None \<Rightarrow> True | Some (e, _) \<Rightarrow> \<not> link_refused e)"

lemma hard_link_error:
  assumes "disk_hard_link from to d = (Inl e, d')" "case faults d (tick d) of None \<Rightarrow> True | Some (f, _) \<Rightarrow> \<not> link_refused f"
  shows "\<not> link_refused e"
  using assms
  by (auto simp: disk_hard_link_def link_refused_def not_found_def already_exists_def io_err_def
      elim!: call_cases split: option.splits if_splits)

text \<open>A rename that must not clobber, seen at its target.\<close>

definition no_clobber :: "path \<Rightarrow> path \<Rightarrow> disk \<Rightarrow> unit disk_step \<Rightarrow> bool" where
  "no_clobber from to d res \<longleftrightarrow>
     (case res of (Inl _, d') \<Rightarrow> nodes d' to = nodes d to
      | (Inr _, d') \<Rightarrow> nodes d to = None \<and> nodes d' to = nodes d from \<and> nodes d from \<noteq> None)"

lemma atomic_no_clobber_rename_ok:
  assumes "links_work d" "from \<noteq> to"
  shows "no_clobber from to d (atomic_no_clobber_rename from to d)"
proof -
  obtain x d1 where x: "disk_rename_noreplace from to d = (x, d1)" by fastforce
  show ?thesis
  proof (cases x)
    case (Inr u)
    then show ?thesis using x assms(2) disk_rename_noreplace_ok [of "from" to d u d1]
      by (auto simp: atomic_no_clobber_rename_def no_clobber_def)
  next
    case (Inl e)
    have d1: "nodes d1 = nodes d" "case faults d1 (tick d1) of None \<Rightarrow> True | Some (f, _) \<Rightarrow> \<not> link_refused f"
      using x Inl assms(1) disk_rename_noreplace_err [of "from" to d e d1] faults_kept(3) [OF x]
        disk_rename_noreplace_tick [OF x]
      by (simp_all add: links_work_def)
    obtain y d2 where y: "disk_hard_link from to d1 = (y, d2)" by fastforce
    show ?thesis
    proof (cases y)
      case (Inr v)
      then obtain n where n: "nodes d from = Some n" "nodes d to = None" "nodes d2 = (nodes d)(to \<mapsto> n)"
        using disk_hard_link_ok [of "from" to d1 v d2] y d1 by auto
      have "nodes (snd (disk_remove_file from d2)) to = nodes d2 to"
        using disk_remove_file_frame [OF prod.collapse [symmetric], of to "from" d2] assms(2) by simp
      then show ?thesis using x y Inl Inr n d1
        by (simp add: atomic_no_clobber_rename_def fallback_hardlink_rename_def no_clobber_def)
    next
      case (Inl e')
      then have "\<not> link_refused e'" "nodes d2 = nodes d"
        using hard_link_error [of "from" to d1 e' d2] disk_hard_link_err [of "from" to d1 e' d2] y d1 by auto
      then show ?thesis using x y \<open>x = Inl e\<close> Inl d1
        by (simp add: atomic_no_clobber_rename_def fallback_hardlink_rename_def no_clobber_def)
    qed
  qed
qed

lemma finish_no_clobber:
  assumes "\<not> committed h" "temp_path h \<noteq> final_path h" "no_clobber (temp_path h) (final_path h) d res"
  shows "no_clobber (temp_path h) (final_path h) d (finish_commit h res)"
proof -
  obtain x e where x: "res = (x, e)" by fastforce
  obtain r d' where r: "finish_commit h (x, e) = (r, d')" by fastforce
  show ?thesis
    using r finish_commit_at [OF assms(1) _ r, of "final_path h"] assms(2,3)
    by (cases x; cases r) (auto simp: x no_clobber_def)
qed

lemma output_commit_no_clobber:
  assumes "links_work d" "\<not> committed h" "temp_path h \<noteq> final_path h"
  shows "no_clobber (temp_path h) (final_path h) d (commit_with_replace False h d)"
  using finish_no_clobber [OF assms(2,3) atomic_no_clobber_rename_ok [OF assms(1,3)]]
  by (simp add: commit_with_replace_def)


text \<open>Replacing by removing first: a failing commit leaves the destination as it was or absent.\<close>

lemma remove_destination_at:
  assumes "remove_destination_for_replace p d = (r, d')" "length t = length p" "t \<noteq> p"
  shows "nodes d' t = nodes d t" "nodes d' p = nodes d p \<or> nodes d' p = None"
proof -
  obtain k d1 where k: "disk_symlink_metadata p d = (k, d1)" by fastforce
  have d1: "nodes d1 = nodes d" by (rule disk_symlink_metadata_frame [OF k])
  have dir: "disk_remove_dir_all p d1 = (r, d') \<Longrightarrow> nodes d' = nodes d1 \<or> nodes d' = (\<lambda>q. if take (length p) q = p then None else nodes d1 q)"
    by (auto simp: disk_remove_dir_all_def elim!: call_cases)
  have rm_file: "disk_remove_file p d1 = (r, d') \<Longrightarrow> nodes d' = nodes d1 \<or> nodes d' = (nodes d1)(p := None)"
    by (auto simp: disk_remove_file_def elim!: call_cases split: option.splits node.splits)
  have "take (length p) t \<noteq> p" using assms(2,3) by simp
  then show "nodes d' t = nodes d t" "nodes d' p = nodes d p \<or> nodes d' p = None"
    using assms(1,3) k d1 dir rm_file by (auto simp: remove_destination_for_replace_def split: sum.splits if_splits)
qed

lemma commit_with_replace_at:
  assumes "\<not> committed h" "temp_path h \<noteq> final_path h" "length (temp_path h) = length (final_path h)"
  shows "case commit_with_replace True h d of
           (Inl _, d') \<Rightarrow> nodes d' (final_path h) = nodes d (final_path h) \<or> nodes d' (final_path h) = None
         | (Inr _, d') \<Rightarrow> nodes d' (final_path h) = nodes d (temp_path h)"
proof -
  obtain r d1 where r: "remove_destination_for_replace (final_path h) d = (r, d1)" by fastforce
  note rm = remove_destination_at [OF r assms(3,2)]
  obtain x e where x: "and_then_st (r, d1) (\<lambda>_. disk_rename (temp_path h) (final_path h)) = (x, e)" by fastforce
  obtain y d' where y: "finish_commit h (x, e) = (y, d')" by fastforce
  have "nodes e (final_path h) = nodes d (final_path h) \<or> nodes e (final_path h) = None" if "x = Inl f" for f
    using x that rm(2) disk_rename_err [of "temp_path h" "final_path h" d1 f e] by (cases r) auto
  moreover have "nodes e (final_path h) = nodes d (temp_path h)" if "x = Inr u" for u
    using x that rm(1) assms(2) disk_rename_ok [of "temp_path h" "final_path h" d1 u e] by (cases r) auto
  ultimately show ?thesis
    using y finish_commit_at [OF assms(1) _ y, of "final_path h"] assms(2)
    by (cases x; cases y) (auto simp: commit_with_replace_def r x)
qed

definition sample_output :: atomic_output where
  "sample_output = \<lparr>final_path = [Normal ''a''], temp_path = [Normal ''t''], file_open = False, committed = False\<rparr>"

definition quiet_disk :: "(path \<Rightarrow> node option) \<Rightarrow> disk" where
  "quiet_disk ns = \<lparr>nodes = ns, tick = 0, faults = (\<lambda>_. None)\<rparr>"


section \<open>Where the promises end\<close>

text \<open>On a file system that refuses hard links, the test \<open>to.exists()\<close> of the fall-back follows a
  link, so a destination that is a dangling link counts as absent and is replaced, although
  replacing was not allowed.\<close>

definition linkless_disk :: disk where
  "linkless_disk = \<lparr>nodes = [[Normal ''t''] \<mapsto> FileNode [2], [Normal ''a''] \<mapsto> LinkNode [Normal ''gone'']], tick = 0,
     faults = (\<lambda>t. if t = 0 then Some (io_err (OtherKind ''ENOSYS'') '''', 0)
                   else if t = 1 then Some (io_err PermissionDenied '''', 0) else None)\<rparr>"

lemma dangling_link_is_clobbered:
  "(case commit_with_file_replace False sample_output linkless_disk of
      (Inr _, d') \<Rightarrow> nodes linkless_disk [Normal ''a''] = Some (LinkNode [Normal ''gone'']) \<and> nodes d' [Normal ''a''] = Some (FileNode [2])
    | (Inl _, _) \<Rightarrow> False)"
  by code_simp

text \<open>When the temporary name of a secret file is taken, the failing attempt still removes the file
  of that name, which belongs to another writer.\<close>

lemma secret_attempt_removes_foreign_file:
  "(let t = secret_temp_path ''1-2'' [Normal ''key''] 0;
        d = quiet_disk [t \<mapsto> FileNode [9]]
    in case write_atomic_secret_file ''1-2'' [Normal ''key''] [7] d of
         (Inr _, d') \<Rightarrow> nodes d t = Some (FileNode [9]) \<and> nodes d' t = None
       | (Inl _, _) \<Rightarrow> False)"
  by code_simp

end
