(* ===== verification/Volume_Names.thy ===== *)
theory Volume_Names
  imports Archive_Path Rust_Str Host_FS
begin

text \<open>
  Names of multi-volume archives and how the parts of a set are found from the path of one of
  them: numbered 7z volumes (\<open>crates/zmanager-core/src/sevenz_volume.rs\<close>), split ZIP sets
  (\<open>crates/zmanager-core/src/engine/source.rs\<close>) and the shared directory scan of
  \<open>crates/zmanager-core/src/archive_split.rs\<close>.  \<open>fs::read_dir\<close> is the argument \<open>read_dir\<close>: for a
  directory it gives an error or the entries in the order of the operating system, each itself
  an error or a name.  A \<open>BTreeMap\<close> is its list of entries in key order.
\<close>

section \<open>Text and ordered maps\<close>

definition to_ascii_lowercase :: "string \<Rightarrow> string" where
  "to_ascii_lowercase = map ascii_lower"

lemma lower_append [simp]: "to_ascii_lowercase (a @ b) = to_ascii_lowercase a @ to_ascii_lowercase b"
  by (simp add: to_ascii_lowercase_def)

definition eq_ignore_ascii_case :: "string \<Rightarrow> string \<Rightarrow> bool" where
  "eq_ignore_ascii_case a b \<longleftrightarrow> to_ascii_lowercase a = to_ascii_lowercase b"

definition is_ascii_digit :: "char \<Rightarrow> bool" where
  "is_ascii_digit c \<longleftrightarrow> 48 \<le> byte_val c \<and> byte_val c \<le> 57"

definition digits_value :: "string \<Rightarrow> nat" where
  "digits_value s = foldl (\<lambda>n c. 10 * n + (byte_val c - 48)) 0 s"

text \<open>\<open>str::parse::<u32>\<close> on a text of digits.\<close>

definition parse_u32 :: "string \<Rightarrow> nat option" where
  "parse_u32 s = (if s \<noteq> [] \<and> list_all is_ascii_digit s \<and> digits_value s < 2 ^ 32 then Some (digits_value s) else None)"

lemma parse_u32_code [code]:
  "parse_u32 s = (if s \<noteq> [] \<and> list_all is_ascii_digit s \<and> int (digits_value s) < 4294967296 then Some (digits_value s) else None)"
  by (auto simp: parse_u32_def)

definition rsplit_once :: "'a \<Rightarrow> 'a list \<Rightarrow> ('a list \<times> 'a list) option" where
  "rsplit_once c s =
     (if c \<in> set s
      then let tail = rev (takeWhile (\<lambda>d. d \<noteq> c) (rev s)) in Some (take (length s - length tail - 1) s, tail)
      else None)"

lemma rsplit_once_Some: "rsplit_once c s = Some (a, b) \<longleftrightarrow> s = a @ c # b \<and> c \<notin> set b"
proof
  assume r: "rsplit_once c s = Some (a, b)"
  then have "c \<in> set s" by (auto simp: rsplit_once_def split: if_splits)
  then obtain x y where s: "s = x @ c # y" "c \<notin> set y" using split_list_last by metis
  have "takeWhile (\<lambda>d. d \<noteq> c) (rev s) = rev y" using s(2) by (auto simp: s(1) takeWhile_tail)
  then show "s = a @ c # b \<and> c \<notin> set b" using r s by (auto simp: rsplit_once_def Let_def)
next
  assume s: "s = a @ c # b \<and> c \<notin> set b"
  then have "takeWhile (\<lambda>d. d \<noteq> c) (rev s) = rev b" by (auto simp: takeWhile_tail)
  then show "rsplit_once c s = Some (a, b)" using s by (simp add: rsplit_once_def Let_def)
qed

fun btree_insert :: "'k::linorder \<Rightarrow> 'v \<Rightarrow> ('k \<times> 'v) list \<Rightarrow> ('k \<times> 'v) list" where
  "btree_insert k v [] = [(k, v)]"
| "btree_insert k v ((k', v') # m) =
     (if k < k' then (k, v) # (k', v') # m else if k = k' then (k, v) # m else (k', v') # btree_insert k v m)"

lemma map_of_btree_insert [simp]: "map_of (btree_insert k v m) = (map_of m)(k \<mapsto> v)"
  by (induction k v m rule: btree_insert.induct) auto

lemma btree_insert_keys [simp]: "fst ` set (btree_insert k v m) = insert k (fst ` set m)"
  by (induction k v m rule: btree_insert.induct) auto

lemma btree_insert_sorted: "sorted_wrt (<) (map fst m) \<Longrightarrow> sorted_wrt (<) (map fst (btree_insert k v m))"
proof (induction k v m rule: btree_insert.induct)
  case (2 k v k' v' m)
  then show ?case using btree_insert_keys [of k v m] by fastforce
qed simp

section \<open>Directory scans\<close>

type_synonym dir_entries = "(io_error, string) result list"

text \<open>\<open>entries.flatten()\<close>: the entries that could be read.\<close>

definition flatten_entries :: "dir_entries \<Rightarrow> string list" where
  "flatten_entries es = concat (map (\<lambda>e. case e of Inl _ \<Rightarrow> [] | Inr n \<Rightarrow> [n]) es)"

definition insert_part ::
  "(string \<Rightarrow> nat option) \<Rightarrow> path \<Rightarrow> (nat \<times> path) list \<Rightarrow> string \<Rightarrow> (nat \<times> path) list" where
  "insert_part matcher directory parts candidate_name =
     (case Option.bind (to_str candidate_name) matcher of
        None \<Rightarrow> parts
      | Some part \<Rightarrow> btree_insert part (directory @ [Normal candidate_name]) parts)"

definition volume_parts :: "(string \<Rightarrow> nat option) \<Rightarrow> path \<Rightarrow> dir_entries \<Rightarrow> (nat \<times> path) list" where
  "volume_parts matcher directory entries = foldl (insert_part matcher directory) [] (flatten_entries entries)"

definition existing_volume_paths ::
  "(path \<Rightarrow> (io_error, dir_entries) result) \<Rightarrow> path \<Rightarrow> (string \<Rightarrow> nat option) \<Rightarrow> (io_error, path list) result" where
  "existing_volume_paths read_dir directory matcher =
     (case read_dir directory of
        Inl source \<Rightarrow> if kind source = NotFound then Inr [] else Inl source
      | Inr entries \<Rightarrow> Inr (map snd (volume_parts matcher directory entries)))"

text \<open>The scan \<open>for expected in 1..=max\<close> for a part that is missing.\<close>

definition missing_part :: "(nat \<times> 'v) list \<Rightarrow> nat option" where
  "missing_part parts = find (\<lambda>expected. map_of parts expected = None) [1 ..< Suc (fst (last parts))]"

section \<open>Numbered 7z volumes\<close>

text \<open>The errors of \<open>SevenZError\<close> that the volume code returns.\<close>

datatype sevenz_error = SevenZIo path io_error | VolumeSizeTooSmall nat nat

definition sevenz_io_error :: "path \<Rightarrow> error_kind \<Rightarrow> string \<Rightarrow> sevenz_error" where
  "sevenz_io_error p k m = SevenZIo p \<lparr>kind = k, message = m\<rparr>"

definition SEVENZ_VOLUME_EXTENSION_WIDTH :: nat where "SEVENZ_VOLUME_EXTENSION_WIDTH = 3"

text \<open>\<open>format!("{n:03}")\<close>\<close>

definition pad3 :: "nat \<Rightarrow> string" where
  "pad3 n = replicate (SEVENZ_VOLUME_EXTENSION_WIDTH - length (decimal n)) (CHR ''0'') @ decimal n"

text \<open>The suffix is pushed onto the text of the path, so it extends the last component.\<close>

definition sevenz_volume_path :: "path \<Rightarrow> nat \<Rightarrow> path" where
  "sevenz_volume_path destination one_based_index =
     (case path_file_name destination of
        Some n \<Rightarrow> butlast destination @ [Normal (n @ ''.'' @ pad3 one_based_index)]
      | None \<Rightarrow> path_of_string (render_path destination @ ''.'' @ pad3 one_based_index))"

definition sevenz_volume_paths :: "path \<Rightarrow> nat \<Rightarrow> path list" where
  "sevenz_volume_paths destination count = map (sevenz_volume_path destination) [1 ..< Suc count]"

definition parse_7z_volume_file_name :: "string \<Rightarrow> (string \<times> nat) option" where
  "parse_7z_volume_file_name name =
     Option.bind (rsplit_once (CHR ''.'') name) (\<lambda>(base, number).
       if length number \<noteq> SEVENZ_VOLUME_EXTENSION_WIDTH \<or> \<not> list_all is_ascii_digit number then None
       else Option.bind (parse_u32 number) (\<lambda>part. if 0 < part then Some (base, part) else None))"

definition has_7z_extension :: "string \<Rightarrow> bool" where
  "has_7z_extension value =
     (case path_extension (path_of_string value) of None \<Rightarrow> False | Some e \<Rightarrow> eq_ignore_ascii_case e ''7z'')"

definition is_7z_volume_path :: "path \<Rightarrow> bool" where
  "is_7z_volume_path p =
     (case Option.bind (path_file_name p) to_str of
        None \<Rightarrow> False
      | Some name \<Rightarrow>
          (case parse_7z_volume_file_name (to_ascii_lowercase name) of None \<Rightarrow> False | Some (base, _) \<Rightarrow> has_7z_extension base))"

definition part_of_base :: "string \<Rightarrow> (string \<times> nat) option \<Rightarrow> nat option" where
  "part_of_base base r = (case r of None \<Rightarrow> None | Some (b, part) \<Rightarrow> if b = base then Some part else None)"

definition existing_7z_volume_paths ::
  "(path \<Rightarrow> (io_error, dir_entries) result) \<Rightarrow> path \<Rightarrow> (sevenz_error, path list) result" where
  "existing_7z_volume_paths read_dir destination =
     (case Option.bind (path_file_name destination) to_str of
        None \<Rightarrow> Inr []
      | Some destination_name \<Rightarrow>
          let directory = (case path_parent destination of None \<Rightarrow> [CurDir] | Some p \<Rightarrow> p) in
          map_err (SevenZIo directory)
            (existing_volume_paths read_dir directory
               (\<lambda>candidate_name. part_of_base destination_name (parse_7z_volume_file_name candidate_name))))"

text \<open>The name whose volumes are looked for, if the file name is one of a 7z archive.\<close>

definition volume_base_7z :: "string \<Rightarrow> string option" where
  "volume_base_7z lower_name =
     (case parse_7z_volume_file_name lower_name of
        Some (base, _) \<Rightarrow> if has_7z_extension base then Some base else None
      | None \<Rightarrow> if has_7z_extension lower_name then Some lower_name else None)"

definition sevenz_matcher :: "string \<Rightarrow> string \<Rightarrow> nat option" where
  "sevenz_matcher volume_base candidate_name =
     part_of_base volume_base (parse_7z_volume_file_name (to_ascii_lowercase candidate_name))"

definition discover_7z_read_volume_paths ::
  "(path \<Rightarrow> (io_error, dir_entries) result) \<Rightarrow> path \<Rightarrow> (sevenz_error, path list) result" where
  "discover_7z_read_volume_paths read_dir path =
     (case Option.bind (path_file_name path) to_str of
        None \<Rightarrow> Inr [path]
      | Some file_name \<Rightarrow>
          (case volume_base_7z (to_ascii_lowercase file_name) of
             None \<Rightarrow> Inr [path]
           | Some volume_base \<Rightarrow>
               let directory = (case path_parent path of None \<Rightarrow> [CurDir] | Some p \<Rightarrow> p) in
               case read_dir directory of
                 Inl source \<Rightarrow> if kind source = NotFound then Inr [path] else Inl (SevenZIo directory source)
               | Inr entries \<Rightarrow>
                   let parts = volume_parts (sevenz_matcher volume_base) directory entries in
                   if parts = [] then Inr [path]
                   else case missing_part parts of
                          Some expected \<Rightarrow>
                            Inl (sevenz_io_error path NotFound (''missing 7z volume part '' @ pad3 expected))
                        | None \<Rightarrow> Inr (map snd parts)))"

section \<open>Split ZIP sets\<close>

definition is_split_zip_sidecar_extension :: "string \<Rightarrow> bool" where
  "is_split_zip_sidecar_extension filename =
     (case rsplit_once (CHR ''.'') filename of
        None \<Rightarrow> False
      | Some (base, extension) \<Rightarrow>
          base \<noteq> [] \<and> 3 \<le> length extension \<and> (starts_with extension ''z'' \<or> starts_with extension ''Z'')
          \<and> list_all is_ascii_digit (drop 1 extension))"

definition is_numbered_zip_volume_name :: "string \<Rightarrow> bool" where
  "is_numbered_zip_volume_name filename =
     (case rsplit_once (CHR ''.'') filename of
        None \<Rightarrow> False
      | Some (base, number) \<Rightarrow>
          ends_with (to_ascii_lowercase base) ''.zip'' \<and> length number = 3 \<and> list_all is_ascii_digit number)"

text \<open>\<open>str::to_lowercase\<close> and \<open>Path::is_file\<close> are arguments.\<close>

definition is_split_zip_archive_path :: "(string \<Rightarrow> string) \<Rightarrow> (path \<Rightarrow> bool) \<Rightarrow> path \<Rightarrow> bool" where
  "is_split_zip_archive_path to_lowercase is_file path =
     (case Option.bind (path_file_name path) to_str of
        None \<Rightarrow> False
      | Some n \<Rightarrow>
          let filename = to_lowercase n in
          is_split_zip_sidecar_extension filename \<or> is_numbered_zip_volume_name filename \<or>
          (case path_extension path of None \<Rightarrow> False | Some ext \<Rightarrow> eq_ignore_ascii_case ext ''zip'') \<and>
          is_file ((case path_parent path of None \<Rightarrow> [] | Some p \<Rightarrow> p)
                   @ [Normal ((case Option.bind (path_file_stem path) to_str of None \<Rightarrow> '''' | Some s \<Rightarrow> s) @ ''.z01'')]))"

datatype split_zip_part = Sidecar nat | Numbered nat | Final

definition parse_split_zip_part :: "string \<Rightarrow> (string \<times> split_zip_part) option" where
  "parse_split_zip_part name =
     Option.bind (rsplit_once (CHR ''.'') name) (\<lambda>(base, extension).
       if extension = ''zip'' then Some (base, Final)
       else if is_split_zip_sidecar_extension name then
         Option.bind (parse_u32 (drop 1 extension)) (\<lambda>index. if 0 < index then Some (base, Sidecar index) else None)
       else if length extension = 3 \<and> list_all is_ascii_digit extension \<and> ends_with (to_ascii_lowercase base) ''.zip'' then
         Option.bind (parse_u32 extension) (\<lambda>index. if 0 < index then Some (base, Numbered index) else None)
       else None)"

record split_zip_set =
  sidecars :: "(nat \<times> path) list"
  numbered :: "(nat \<times> path) list"
  final_zip :: "path option"

definition split_zip_entry :: "string \<Rightarrow> path \<Rightarrow> split_zip_set \<Rightarrow> string \<Rightarrow> split_zip_set" where
  "split_zip_entry base directory s candidate_name =
     (case Option.bind (to_str candidate_name) (\<lambda>c. parse_split_zip_part (to_ascii_lowercase c)) of
        None \<Rightarrow> s
      | Some (candidate_base, part) \<Rightarrow>
          if candidate_base \<noteq> base then s
          else let p = directory @ [Normal candidate_name] in
               case part of
                 Sidecar index \<Rightarrow> s\<lparr>sidecars := btree_insert index p (sidecars s)\<rparr>
               | Numbered index \<Rightarrow> s\<lparr>numbered := btree_insert index p (numbered s)\<rparr>
               | Final \<Rightarrow> s\<lparr>final_zip := Some p\<rparr>)"

definition discover_split_zip_volumes ::
  "(path \<Rightarrow> (io_error, dir_entries) result) \<Rightarrow> path \<Rightarrow> path list option" where
  "discover_split_zip_volumes read_dir path =
     Option.bind (Option.bind (path_file_name path) to_str) (\<lambda>file_name.
     Option.bind (parse_split_zip_part (to_ascii_lowercase file_name)) (\<lambda>(base, _).
       let directory = (case path_parent path of None \<Rightarrow> [CurDir] | Some p \<Rightarrow> if p = [] then [CurDir] else p) in
       case read_dir directory of
         Inl _ \<Rightarrow> None
       | Inr entries \<Rightarrow>
           let s = foldl (split_zip_entry base directory) \<lparr>sidecars = [], numbered = [], final_zip = None\<rparr> (flatten_entries entries) in
           if numbered s \<noteq> [] then
             (case missing_part (numbered s) of Some _ \<Rightarrow> None | None \<Rightarrow> Some (map snd (numbered s)))
           else if sidecars s \<noteq> [] then
             (case missing_part (sidecars s) of
                Some _ \<Rightarrow> None
              | None \<Rightarrow> Option.bind (final_zip s) (\<lambda>f. Some (map snd (sidecars s) @ [f])))
           else None))"

section \<open>Complete sets of parts\<close>

text \<open>The names of a directory that a matcher takes for a part, and the numbers they stand for.\<close>

definition part_name :: "(string \<Rightarrow> nat option) \<Rightarrow> dir_entries \<Rightarrow> string \<Rightarrow> nat \<Rightarrow> bool" where
  "part_name matcher entries n k \<longleftrightarrow> Inr n \<in> set entries \<and> is_utf8 n \<and> matcher n = Some k"

definition part_numbers :: "(string \<Rightarrow> nat option) \<Rightarrow> dir_entries \<Rightarrow> nat set" where
  "part_numbers matcher entries = {k. \<exists>n. part_name matcher entries n k}"

text \<open>A complete set: \<open>paths\<close> are the parts 1, 2, ... up to the highest, each a file of the
  directory with that number.\<close>

definition complete_set :: "(string \<Rightarrow> nat option) \<Rightarrow> path \<Rightarrow> dir_entries \<Rightarrow> path list \<Rightarrow> bool" where
  "complete_set matcher directory entries paths \<longleftrightarrow>
     paths \<noteq> [] \<and> part_numbers matcher entries = {1 .. length paths} \<and>
     (\<forall>i < length paths. \<exists>n. part_name matcher entries n (Suc i) \<and> paths ! i = directory @ [Normal n])"

text \<open>A gap: the lowest part number that is missing below the highest one.\<close>

definition first_gap :: "nat set \<Rightarrow> nat \<Rightarrow> bool" where
  "first_gap ks k \<longleftrightarrow> 0 < k \<and> k \<notin> ks \<and> {1 ..< k} \<subseteq> ks \<and> (\<exists>m \<in> ks. k < m)"

lemma flatten_entries_set [simp]: "n \<in> set (flatten_entries es) \<longleftrightarrow> Inr n \<in> set es"
  unfolding flatten_entries_def by (induction es) (auto split: sum.splits)

definition parts_ok :: "(string \<Rightarrow> nat option) \<Rightarrow> path \<Rightarrow> string list \<Rightarrow> (nat \<times> path) list \<Rightarrow> bool" where
  "parts_ok matcher directory names m \<longleftrightarrow>
     sorted_wrt (<) (map fst m) \<and>
     fst ` set m = {k. \<exists>n \<in> set names. is_utf8 n \<and> matcher n = Some k} \<and>
     (\<forall>k p. map_of m k = Some p \<longrightarrow>
        (\<exists>n \<in> set names. is_utf8 n \<and> matcher n = Some k \<and> p = directory @ [Normal n]))"

lemma parts_ok_insert:
  assumes "parts_ok matcher directory names m"
  shows "parts_ok matcher directory (names @ [n]) (insert_part matcher directory m n)"
proof (cases "Option.bind (to_str n) matcher")
  case None
  then have "\<not> (is_utf8 n \<and> matcher n = Some k)" for k by (auto simp: to_str_def)
  then show ?thesis using assms None by (force simp: parts_ok_def insert_part_def)
next
  case (Some k)
  then have n: "is_utf8 n" "matcher n = Some k" by (auto simp: to_str_def split: if_splits)
  show ?thesis using assms n
    by (auto simp: parts_ok_def insert_part_def to_str_def btree_insert_sorted)
qed

lemma volume_parts_ok: "parts_ok matcher directory (flatten_entries entries) (volume_parts matcher directory entries)"
proof -
  have "parts_ok matcher directory names (foldl (insert_part matcher directory) [] names)" for names
    by (induction names rule: rev_induct) (auto simp: parts_ok_insert, simp add: parts_ok_def)
  then show ?thesis by (simp add: volume_parts_def)
qed

lemma sorted_keys_interval:
  assumes "sorted_wrt (<) ks" "set ks = {1 .. m}"
  shows "ks = [1 ..< Suc m]"
proof -
  have "set ks = set [1 ..< Suc m]" using assms(2) by (simp only: set_upt atLeastLessThanSuc_atLeastAtMost)
  then show ?thesis using assms(1) strict_sorted_iff by (intro sorted_distinct_set_unique) (auto simp del: upt_Suc)
qed

lemma le_last_sorted: "sorted xs \<Longrightarrow> x \<in> set xs \<Longrightarrow> x \<le> last xs"
proof (induction xs)
  case (Cons a xs)
  then show ?case by (cases "xs = []") (auto intro: order_trans [of _ "hd xs"] last_in_set)
qed simp

locale volume_matcher =
  fixes matcher :: "string \<Rightarrow> nat option"
  assumes positive: "matcher n = Some k \<Longrightarrow> 0 < k"
begin

lemma numbers_positive: "k \<in> part_numbers matcher entries \<Longrightarrow> 0 < k"
  by (auto simp: part_numbers_def part_name_def dest: positive)

lemma keys: "fst ` set (volume_parts matcher directory entries) = part_numbers matcher entries"
  using volume_parts_ok [of matcher directory entries] by (auto simp: parts_ok_def part_numbers_def part_name_def)

lemma empty_iff: "volume_parts matcher directory entries = [] \<longleftrightarrow> part_numbers matcher entries = {}"
  using keys [of directory entries] by (metis image_is_empty set_empty)

lemma last_key:
  assumes "volume_parts matcher directory entries \<noteq> []"
  shows "fst (last (volume_parts matcher directory entries)) = Max (part_numbers matcher entries)"
proof -
  let ?ks = "map fst (volume_parts matcher directory entries)"
  have "sorted ?ks" "?ks \<noteq> []" using volume_parts_ok [of matcher directory entries] assms
    by (auto simp: parts_ok_def strict_sorted_imp_sorted)
  then have "Max (set ?ks) = last ?ks" by (intro Max_eqI) (auto simp: le_last_sorted simp del: set_map)
  then show ?thesis using assms keys [of directory entries] by (simp add: last_map)
qed

lemma missing:
  assumes "volume_parts matcher directory entries \<noteq> []" "missing_part (volume_parts matcher directory entries) = Some k"
  shows "first_gap (part_numbers matcher entries) k"
proof -
  let ?m = "volume_parts matcher directory entries"
  have none: "map_of ?m j = None \<longleftrightarrow> j \<notin> part_numbers matcher entries" for j
    by (simp add: map_of_eq_None_iff keys)
  obtain i where i: "i < length [1 ..< Suc (fst (last ?m))]" "map_of ?m ([1 ..< Suc (fst (last ?m))] ! i) = None"
      "k = [1 ..< Suc (fst (last ?m))] ! i" "\<forall>j < i. map_of ?m ([1 ..< Suc (fst (last ?m))] ! j) \<noteq> None"
    using assms(2) by (auto simp: missing_part_def find_Some_iff)
  have k: "k = Suc i" using i(1,3) by (simp del: upt_Suc)
  have below: "map_of ?m j \<noteq> None" if "1 \<le> j" "j < k" for j
  proof -
    have "[1 ..< Suc (fst (last ?m))] ! (j - 1) = j" using that i(1) k by (simp del: upt_Suc)
    moreover have "j - 1 < i" using that k by simp
    ultimately show ?thesis using i(4) by metis
  qed
  have fin: "finite (part_numbers matcher entries)" "part_numbers matcher entries \<noteq> {}"
    using keys [of directory entries] empty_iff [of directory entries] assms(1) by (metis finite_imageI finite_set)+
  have max: "Max (part_numbers matcher entries) \<in> part_numbers matcher entries" using fin by (rule Max_in)
  have "k \<le> Max (part_numbers matcher entries)" using i(1) k last_key [OF assms(1)] by (simp del: upt_Suc)
  moreover have "k \<notin> part_numbers matcher entries" using i(2,3) none by simp
  ultimately have "k < Max (part_numbers matcher entries)" using max by (metis le_neq_implies_less)
  then show ?thesis using k i(2,3) none below max by (auto simp: first_gap_def)
qed

lemma complete:
  assumes "volume_parts matcher directory entries \<noteq> []" "missing_part (volume_parts matcher directory entries) = None"
  shows "complete_set matcher directory entries (map snd (volume_parts matcher directory entries))"
proof -
  let ?m = "volume_parts matcher directory entries"
  let ?K = "part_numbers matcher entries"
  have ok: "sorted_wrt (<) (map fst ?m)" using volume_parts_ok [of matcher directory entries] by (simp add: parts_ok_def)
  have fin: "finite ?K" using keys [of directory entries] by (metis finite_imageI finite_set)
  have "\<forall>j \<in> {1 .. Max ?K}. j \<in> ?K"
    using assms(2) last_key [OF assms(1)]
    by (auto simp: missing_part_def find_None_iff map_of_eq_None_iff keys simp del: upt_Suc)
  moreover have "?K \<subseteq> {1 .. Max ?K}" using fin by (auto simp: Suc_le_eq dest: numbers_positive)
  ultimately have K: "?K = {1 .. Max ?K}" by blast
  then have ks: "map fst ?m = [1 ..< Suc (Max ?K)]"
    using sorted_keys_interval [OF ok] keys [of directory entries] by (metis list.set_map)
  then have len: "length ?m = Max ?K" by (metis diff_Suc_1 length_map length_upt)
  have nth: "\<exists>n. part_name matcher entries n (Suc i) \<and> snd (?m ! i) = directory @ [Normal n]" if "i < length ?m" for i
  proof -
    have "fst (?m ! i) = Suc i" using ks that len by (metis One_nat_def add.commute nth_map nth_upt plus_1_eq_Suc less_Suc_eq_le Suc_leI)
    moreover have "map_of ?m (fst (?m ! i)) = Some (snd (?m ! i))"
      using ok that by (intro map_of_is_SomeI) (auto simp: strict_sorted_iff)
    ultimately have "map_of ?m (Suc i) = Some (snd (?m ! i))" by simp
    then obtain n where "n \<in> set (flatten_entries entries)" "is_utf8 n" "matcher n = Some (Suc i)"
        "snd (?m ! i) = directory @ [Normal n]"
      using volume_parts_ok [of matcher directory entries] unfolding parts_ok_def by blast
    then show ?thesis by (auto simp: part_name_def)
  qed
  show ?thesis using assms(1) K len nth by (auto simp: complete_set_def)
qed

end

section \<open>Finding 7z volumes\<close>

lemma part_of_base_Some: "part_of_base base r = Some k \<longleftrightarrow> r = Some (base, k)"
  by (auto simp: part_of_base_def split: option.splits if_splits)

lemma parse_7z_positive: "parse_7z_volume_file_name n = Some (b, k) \<Longrightarrow> 0 < k"
  by (auto simp: parse_7z_volume_file_name_def bind_eq_Some_conv split: if_splits)

interpretation sevenz: volume_matcher "sevenz_matcher base" for base
  by unfold_locales (auto simp: sevenz_matcher_def part_of_base_Some dest: parse_7z_positive)

lemma discover_7z_by_parts:
  assumes "path_file_name path = Some name" "is_utf8 name" "volume_base_7z (to_ascii_lowercase name) = Some base"
    and "path_parent path = Some directory" "read_dir directory = Inr entries"
    and "m = volume_parts (sevenz_matcher base) directory entries"
  shows "discover_7z_read_volume_paths read_dir path =
      (if m = [] then Inr [path]
       else case missing_part m of
              Some expected \<Rightarrow> Inl (sevenz_io_error path NotFound (''missing 7z volume part '' @ pad3 expected))
            | None \<Rightarrow> Inr (map snd m))"
  unfolding assms(6) using assms(1-5) by (simp add: discover_7z_read_volume_paths_def to_str_def Let_def)

text \<open>
  C18. Finding the volumes of a 7z archive.  From the path of any volume, or of the archive itself,
  the code returns the whole set in order: parts 1 up to the highest in the directory, each under
  its own number whatever the order of the directory.  If a part below the highest is missing it
  reports the first such part and never a shortened set, and only if the directory holds no
  volume at all is the path taken as it is.
\<close>

theorem discover_7z_read_volume_paths_outcome:
  assumes "path_file_name path = Some name" "is_utf8 name" "volume_base_7z (to_ascii_lowercase name) = Some base"
    and "path_parent path = Some directory" "read_dir directory = Inr entries"
  shows "case discover_7z_read_volume_paths read_dir path of
      Inr paths \<Rightarrow> complete_set (sevenz_matcher base) directory entries paths \<or>
                   part_numbers (sevenz_matcher base) entries = {} \<and> paths = [path]
    | Inl e \<Rightarrow> \<exists>k. first_gap (part_numbers (sevenz_matcher base) entries) k \<and>
                    e = sevenz_io_error path NotFound (''missing 7z volume part '' @ pad3 k)"
proof -
  let ?m = "volume_parts (sevenz_matcher base) directory entries"
  note d = discover_7z_by_parts [OF assms(1-4), where read_dir = read_dir, OF assms(5) refl]
  show ?thesis unfolding d
    using sevenz.empty_iff [of base directory entries] sevenz.complete [of base directory entries]
      sevenz.missing [of base directory entries]
    by (auto split: option.splits)
qed

definition sample_entries :: dir_entries where
  "sample_entries = [Inr ''a.7z.002'', Inl absent_error, Inr ''b.txt'', Inr ''A.7Z.001'']"

definition sample_dir :: "path \<Rightarrow> (io_error, dir_entries) result" where
  "sample_dir p = (if p = [RootDir, Normal ''d''] then Inr sample_entries else Inl absent_error)"

theorem discover_7z_read_volume_paths_outcome_witness:
  "complete_set (sevenz_matcher ''a.7z'') [RootDir, Normal ''d''] sample_entries
     [[RootDir, Normal ''d'', Normal ''A.7Z.001''], [RootDir, Normal ''d'', Normal ''a.7z.002'']]"
proof -
  have "is_utf8 ''a.7z.002''" "volume_base_7z (to_ascii_lowercase ''a.7z.002'') = Some ''a.7z''" by code_simp+
  moreover have "discover_7z_read_volume_paths sample_dir [RootDir, Normal ''d'', Normal ''a.7z.002''] =
      Inr [[RootDir, Normal ''d'', Normal ''A.7Z.001''], [RootDir, Normal ''d'', Normal ''a.7z.002'']]" by code_simp
  ultimately show ?thesis
    using discover_7z_read_volume_paths_outcome
      [of "[RootDir, Normal ''d'', Normal ''a.7z.002'']" "''a.7z.002''" "''a.7z''" "[RootDir, Normal ''d'']" sample_dir sample_entries]
    by (simp add: path_file_name_def path_parent_def sample_dir_def)
qed

section \<open>Finding split ZIP volumes\<close>

definition zip_part :: "(split_zip_part \<Rightarrow> nat option) \<Rightarrow> string \<Rightarrow> string \<Rightarrow> nat option" where
  "zip_part select base candidate_name =
     (case parse_split_zip_part (to_ascii_lowercase candidate_name) of
        None \<Rightarrow> None | Some (b, part) \<Rightarrow> if b = base then select part else None)"

definition sidecar_matcher :: "string \<Rightarrow> string \<Rightarrow> nat option" where
  "sidecar_matcher = zip_part (\<lambda>part. case part of Sidecar i \<Rightarrow> Some i | _ \<Rightarrow> None)"

definition numbered_matcher :: "string \<Rightarrow> string \<Rightarrow> nat option" where
  "numbered_matcher = zip_part (\<lambda>part. case part of Numbered i \<Rightarrow> Some i | _ \<Rightarrow> None)"

lemma parse_split_zip_positive:
  "parse_split_zip_part n = Some (b, Sidecar k) \<Longrightarrow> 0 < k"
  "parse_split_zip_part n = Some (b, Numbered k) \<Longrightarrow> 0 < k"
  by (auto simp: parse_split_zip_part_def bind_eq_Some_conv split: if_splits)

interpretation zip_sidecars: volume_matcher "sidecar_matcher base" for base
  by unfold_locales
    (auto simp: sidecar_matcher_def zip_part_def dest: parse_split_zip_positive split: option.splits if_splits split_zip_part.splits)

interpretation zip_numbered: volume_matcher "numbered_matcher base" for base
  by unfold_locales
    (auto simp: numbered_matcher_def zip_part_def dest: parse_split_zip_positive split: option.splits if_splits split_zip_part.splits)

text \<open>The one pass over the directory keeps three scans apart.\<close>

definition is_final :: "string \<Rightarrow> string \<Rightarrow> bool" where
  "is_final base n \<longleftrightarrow> is_utf8 n \<and> parse_split_zip_part (to_ascii_lowercase n) = Some (base, Final)"

lemma split_zip_pass:
  "foldl (split_zip_entry base directory) s names =
     s\<lparr>sidecars := foldl (insert_part (sidecar_matcher base) directory) (sidecars s) names,
       numbered := foldl (insert_part (numbered_matcher base) directory) (numbered s) names,
       final_zip := (if filter (is_final base) names = [] then final_zip s
                    else Some (directory @ [Normal (last (filter (is_final base) names))]))\<rparr>"
proof (induction names arbitrary: s)
  case (Cons n names)
  show ?case
    by (simp add: Cons)
      (auto simp: split_zip_entry_def insert_part_def sidecar_matcher_def numbered_matcher_def zip_part_def is_final_def to_str_def
        split: option.splits split_zip_part.splits)
qed simp

text \<open>
  C19. Finding the volumes of a split ZIP.  A numbered set takes precedence and must be complete; a
  set of sidecars must be complete and is followed by the final \<open>.zip\<close> file of the same name.
  Otherwise nothing is returned, never a shortened set.
\<close>

theorem discover_split_zip_volumes_outcome:
  assumes "path_file_name path = Some name" "is_utf8 name"
    and "parse_split_zip_part (to_ascii_lowercase name) = Some (base, part)"
    and "path_parent path = Some p" "directory = (if p = [] then [CurDir] else p)" "read_dir directory = Inr entries"
  shows "case discover_split_zip_volumes read_dir path of
      Some paths \<Rightarrow>
        complete_set (numbered_matcher base) directory entries paths \<or>
        part_numbers (numbered_matcher base) entries = {} \<and>
        (\<exists>n. is_final base n \<and> Inr n \<in> set entries \<and> paths \<noteq> [] \<and> last paths = directory @ [Normal n]) \<and>
        complete_set (sidecar_matcher base) directory entries (butlast paths)
    | None \<Rightarrow>
        (\<exists>k. first_gap (part_numbers (numbered_matcher base) entries) k) \<or>
        part_numbers (numbered_matcher base) entries = {} \<and>
        (part_numbers (sidecar_matcher base) entries = {} \<or>
         (\<exists>k. first_gap (part_numbers (sidecar_matcher base) entries) k) \<or>
         (\<forall>n. Inr n \<in> set entries \<longrightarrow> \<not> is_final base n))"
proof -
  let ?ns = "volume_parts (numbered_matcher base) directory entries"
  let ?ss = "volume_parts (sidecar_matcher base) directory entries"
  let ?fs = "filter (is_final base) (flatten_entries entries)"
  have d: "discover_split_zip_volumes read_dir path =
      (if ?ns \<noteq> [] then (case missing_part ?ns of Some _ \<Rightarrow> None | None \<Rightarrow> Some (map snd ?ns))
       else if ?ss \<noteq> [] then
         (case missing_part ?ss of Some _ \<Rightarrow> None
          | None \<Rightarrow> Option.bind (if ?fs = [] then None else Some (directory @ [Normal (last ?fs)])) (\<lambda>f. Some (map snd ?ss @ [f])))
       else None)"
  proof -
    have dir: "(if p = [] then [CurDir] else p) = directory" using assms(5) by simp
    have pass: "foldl (split_zip_entry base directory) \<lparr>sidecars = [], numbered = [], final_zip = None\<rparr> (flatten_entries entries) =
        \<lparr>sidecars = ?ss, numbered = ?ns, final_zip = (if ?fs = [] then None else Some (directory @ [Normal (last ?fs)]))\<rparr>"
      by (simp add: split_zip_pass volume_parts_def)
    show ?thesis using assms(1-4,6)
      by (simp add: discover_split_zip_volumes_def to_str_def Let_def dir pass split: option.splits)
  qed
  have f: "is_final base (last ?fs) \<and> Inr (last ?fs) \<in> set entries" if "?fs \<noteq> []"
    using last_in_set [OF that] by simp
  have nf: "?fs = [] \<longleftrightarrow> (\<forall>n. Inr n \<in> set entries \<longrightarrow> \<not> is_final base n)" by (auto simp: filter_empty_conv)
  show ?thesis
  proof (cases "?ns = []")
    case False
    then show ?thesis unfolding d
      using zip_numbered.complete [of base directory entries] zip_numbered.missing [of base directory entries]
      by (auto split: option.splits)
  next
    case True
    then have "part_numbers (numbered_matcher base) entries = {}" using zip_numbered.empty_iff by metis
    then show ?thesis unfolding d using True f nf zip_sidecars.empty_iff [of base directory entries]
        zip_sidecars.complete [of base directory entries] zip_sidecars.missing [of base directory entries]
      by (auto split: option.splits)
  qed
qed

definition zip_entries :: dir_entries where
  "zip_entries = [Inr ''a.zip'', Inr ''a.z02'', Inr ''a.z01'']"

theorem discover_split_zip_volumes_outcome_witness:
  "discover_split_zip_volumes (\<lambda>_. Inr zip_entries) [Normal ''a.z01''] =
     Some [[CurDir, Normal ''a.z01''], [CurDir, Normal ''a.z02''], [CurDir, Normal ''a.zip'']] \<and>
   (complete_set (numbered_matcher ''a'') [CurDir] zip_entries [[CurDir, Normal ''a.z01''], [CurDir, Normal ''a.z02''], [CurDir, Normal ''a.zip'']] \<or>
    complete_set (sidecar_matcher ''a'') [CurDir] zip_entries [[CurDir, Normal ''a.z01''], [CurDir, Normal ''a.z02'']])"
proof -
  have "is_utf8 ''a.z01''" "parse_split_zip_part (to_ascii_lowercase ''a.z01'') = Some (''a'', Sidecar 1)" by code_simp+
  moreover have d: "discover_split_zip_volumes (\<lambda>_. Inr zip_entries) [Normal ''a.z01''] =
     Some [[CurDir, Normal ''a.z01''], [CurDir, Normal ''a.z02''], [CurDir, Normal ''a.zip'']]" by code_simp
  ultimately show ?thesis
    using discover_split_zip_volumes_outcome
      [of "[Normal ''a.z01'']" "''a.z01''" "''a''" "Sidecar 1" "[]" "[CurDir]" "\<lambda>_. Inr zip_entries" zip_entries]
    by (auto simp: path_file_name_def path_parent_def)
qed

end
