(* ===== verification/Sevenz_Volume.thy ===== *)
theory Sevenz_Volume
  imports Atomic_File Volume_Names Segmented_Reader
begin

text \<open>
  Writing a finished 7z archive as numbered volumes (\<open>crates/zmanager-core/src/sevenz_volume.rs\<close>)
  with the destination checks shared by the split writers
  (\<open>crates/zmanager-core/src/archive_split.rs\<close>), on the disk of \<open>File_Store\<close>.  The names a directory
  may hold, in the order in which the operating system lists them, are the argument \<open>ls\<close>; \<open>stamp\<close>
  gives the process id and time used for the temporary name of each volume.  \<open>u64\<close> quantities are
  naturals with the checked operations written out, and \<open>io::copy\<close> is one read and one write.
\<close>

section \<open>More calls\<close>

fun follow_links :: "nat \<Rightarrow> (path \<Rightarrow> node option) \<Rightarrow> path \<Rightarrow> node option" where
  "follow_links 0 ns p = None"
| "follow_links (Suc n) ns p = (case ns p of Some (LinkNode t) \<Rightarrow> follow_links n ns t | r \<Rightarrow> r)"

definition disk_read_dir :: "(path \<Rightarrow> string list) \<Rightarrow> path \<Rightarrow> disk \<Rightarrow> dir_entries disk_step" where
  "disk_read_dir ls p = call (\<lambda>d.
     (case nodes d p of
        Some DirNode \<Rightarrow> Inr (map Inr (filter (\<lambda>n. nodes d (p @ [Normal n]) \<noteq> None) (ls p)))
      | None \<Rightarrow> Inl not_found
      | Some _ \<Rightarrow> Inl (io_err NotADirectory ''not a directory''), nodes d))"

text \<open>The contents of the file a path leads to, for \<open>fs::metadata(..).len()\<close> and for reading.\<close>

definition disk_contents :: "path \<Rightarrow> disk \<Rightarrow> bytes disk_step" where
  "disk_contents p = call (\<lambda>d.
     (case follow_links 40 (nodes d) p of
        Some (FileNode c) \<Rightarrow> Inr c
      | None \<Rightarrow> Inl not_found
      | Some _ \<Rightarrow> Inl is_a_directory, nodes d))"

definition io_at :: "path \<Rightarrow> 'a disk_step \<Rightarrow> (sevenz_error, 'a) result \<times> disk" where
  "io_at p r = (map_err (SevenZIo p) (fst r), snd r)"

section \<open>Destinations of a split archive\<close>

text \<open>The division is by the volume size, which \<open>validate_volume_size\<close> has checked to be positive.\<close>

definition split_volume_count :: "nat \<Rightarrow> nat \<Rightarrow> nat option" where
  "split_volume_count archive_size volume_size =
     (let count = (max archive_size 1 + (volume_size - 1)) div volume_size
      in if count < 2 ^ 64 then Some count else None)"

lemma split_volume_count_code [code]:
  "split_volume_count archive_size volume_size =
     (let count = (max archive_size 1 + (volume_size - 1)) div volume_size
      in if int count < 18446744073709551616 then Some count else None)"
proof -
  have "int count < 18446744073709551616 \<longleftrightarrow> count < 2 ^ 64" for count by simp
  then show ?thesis by (simp add: split_volume_count_def Let_def)
qed

definition unique_paths :: "path list \<Rightarrow> path list \<Rightarrow> path list" where
  "unique_paths left right = foldl (\<lambda>seen p. if p \<in> set seen then seen else seen @ [p]) [] (left @ right)"

definition ensure_file_destination_available :: "bool \<Rightarrow> path \<Rightarrow> disk \<Rightarrow> unit disk_step" where
  "ensure_file_destination_available replace_existing p d =
     (case disk_symlink_metadata p d of
        (Inr k, d') \<Rightarrow>
          if k = DirectoryFile then (Inl (io_err IsADirectory (''cannot replace directory '' @ render_path p)), d')
          else if \<not> replace_existing then (Inl (io_err AlreadyExists (''destination already exists: '' @ render_path p)), d')
          else (Inr (), d')
      | (Inl e, d') \<Rightarrow> if kind e = NotFound then (Inr (), d') else (Inl e, d'))"

definition split_remove_file_destination :: "path \<Rightarrow> disk \<Rightarrow> unit disk_step" where
  "split_remove_file_destination p d =
     (case disk_symlink_metadata p d of
        (Inr k, d') \<Rightarrow>
          if k = DirectoryFile then (Inl (io_err IsADirectory (''cannot replace directory '' @ render_path p)), d')
          else disk_remove_file p d'
      | (Inl e, d') \<Rightarrow> if kind e = NotFound then (Inr (), d') else (Inl e, d'))"

fun each_path :: "(path \<Rightarrow> disk \<Rightarrow> ('e, unit) result \<times> disk) \<Rightarrow> path list \<Rightarrow> disk \<Rightarrow> ('e, unit) result \<times> disk" where
  "each_path f [] d = (Inr (), d)"
| "each_path f (p # ps) d = and_then_st (f p d) (\<lambda>_. each_path f ps)"

definition remove_split_destinations_for_replace :: "path \<Rightarrow> path list \<Rightarrow> bool \<Rightarrow> disk \<Rightarrow> unit disk_step" where
  "remove_split_destinations_for_replace destination existing replace_existing d =
     (if \<not> replace_existing then (Inr (), d)
      else and_then_st (each_path split_remove_file_destination existing d) (\<lambda>_. split_remove_file_destination destination))"

definition ensure_split_destinations_available ::
  "path \<Rightarrow> path list \<Rightarrow> path list \<Rightarrow> bool \<Rightarrow> disk \<Rightarrow> (sevenz_error, unit) result \<times> disk" where
  "ensure_split_destinations_available destination volume_paths existing replace_existing d =
     (let available = (\<lambda>p d. io_at p (ensure_file_destination_available replace_existing p d))
      in and_then_st (available destination d) (\<lambda>_. each_path available (unique_paths volume_paths existing)))"

definition disk_existing_7z_volume_paths ::
  "(path \<Rightarrow> string list) \<Rightarrow> path \<Rightarrow> disk \<Rightarrow> (sevenz_error, path list) result \<times> disk" where
  "disk_existing_7z_volume_paths ls destination d =
     (case Option.bind (path_file_name destination) to_str of
        None \<Rightarrow> (existing_7z_volume_paths (\<lambda>_. Inr []) destination, d)
      | Some _ \<Rightarrow>
          (case disk_read_dir ls (case path_parent destination of None \<Rightarrow> [CurDir] | Some p \<Rightarrow> p) d of
             (r, d') \<Rightarrow> (existing_7z_volume_paths (\<lambda>_. r) destination, d')))"

section \<open>Splitting\<close>

definition MIN_VOLUME_SIZE_BYTES :: nat where "MIN_VOLUME_SIZE_BYTES = 1048576"

definition validate_volume_size :: "nat option \<Rightarrow> (sevenz_error, unit) result" where
  "validate_volume_size volume_size =
     (case volume_size of
        Some n \<Rightarrow> if n < MIN_VOLUME_SIZE_BYTES then Inl (VolumeSizeTooSmall n MIN_VOLUME_SIZE_BYTES) else Inr ()
      | None \<Rightarrow> Inr ())"

definition copy_exact_volume_bytes ::
  "bytes \<Rightarrow> atomic_output \<Rightarrow> nat \<Rightarrow> path \<Rightarrow> disk \<Rightarrow> (sevenz_error, bytes) result \<times> disk" where
  "copy_exact_volume_bytes archive output bytes_to_copy volume_path d =
     and_then_st (io_at volume_path (call (\<lambda>d. (Inr (take bytes_to_copy archive), nodes d)) d)) (\<lambda>limited d.
     and_then_st (io_at volume_path (output_write output limited d)) (\<lambda>_ d.
     if length limited \<noteq> bytes_to_copy
     then (Inl (sevenz_io_error volume_path UnexpectedEof ''7z temp archive ended before volume was filled''), d)
     else (Inr (drop bytes_to_copy archive), d)))"

definition checked_mul_u64 :: "nat \<Rightarrow> nat \<Rightarrow> nat option" where
  "checked_mul_u64 a b = (if a * b < 2 ^ 64 then Some (a * b) else None)"

lemma checked_mul_u64_code [code]:
  "checked_mul_u64 a b = (if int a * int b < 18446744073709551616 then Some (a * b) else None)"
proof -
  have "int a * int b < 18446744073709551616 \<longleftrightarrow> a * b < 2 ^ 64" by (simp flip: of_nat_mult)
  then show ?thesis by (simp add: checked_mul_u64_def)
qed

definition drop_outputs :: "atomic_output list \<Rightarrow> disk \<Rightarrow> disk" where
  "drop_outputs hs d = foldl (\<lambda>d h. drop_output h d) d hs"

text \<open>The first loop: every volume under its temporary name.  The outputs so far are dropped when
  a step fails.\<close>

fun write_volumes ::
  "(nat \<Rightarrow> string) \<Rightarrow> nat \<Rightarrow> nat \<Rightarrow> (nat \<times> path) list \<Rightarrow> bytes \<Rightarrow> atomic_output list \<Rightarrow> disk
     \<Rightarrow> (sevenz_error, atomic_output list) result \<times> disk" where
  "write_volumes stamp archive_size volume_size [] archive outputs d = (Inr outputs, d)"
| "write_volumes stamp archive_size volume_size ((index, volume_path) # vs) archive outputs d =
     (case io_at volume_path (output_create (stamp index) volume_path d) of
        (Inl e, d1) \<Rightarrow> (Inl e, drop_outputs outputs d1)
      | (Inr output, d1) \<Rightarrow>
          case checked_mul_u64 index volume_size of
            None \<Rightarrow> (Inl (sevenz_io_error volume_path InvalidInput ''7z volume offset overflow''), drop_outputs (output # outputs) d1)
          | Some offset \<Rightarrow>
              case copy_exact_volume_bytes archive output (min (archive_size - offset) volume_size) volume_path d1 of
                 (Inl e, d2) \<Rightarrow> (Inl e, drop_outputs (output # outputs) d2)
               | (Inr archive', d2) \<Rightarrow>
                   write_volumes stamp archive_size volume_size vs archive' (outputs @ [output_close output]) d2)"

fun commit_volumes ::
  "bool \<Rightarrow> (atomic_output \<times> path) list \<Rightarrow> disk \<Rightarrow> (sevenz_error, unit) result \<times> disk" where
  "commit_volumes replace_existing [] d = (Inr (), d)"
| "commit_volumes replace_existing ((output, volume_path) # vs) d =
     (case io_at volume_path (commit_with_file_replace replace_existing output d) of
        (Inl e, d1) \<Rightarrow> (Inl e, drop_outputs (map fst vs) d1)
      | (Inr _, d1) \<Rightarrow> commit_volumes replace_existing vs d1)"

definition split_7z_temp_archive ::
  "(path \<Rightarrow> string list) \<Rightarrow> (nat \<Rightarrow> string) \<Rightarrow> path \<Rightarrow> path \<Rightarrow> nat \<Rightarrow> bool \<Rightarrow> disk \<Rightarrow> (sevenz_error, nat) result \<times> disk" where
  "split_7z_temp_archive ls stamp archive_path destination volume_size replace_existing d =
     and_then_st (io_at archive_path (disk_contents archive_path d)) (\<lambda>c d.
     let archive_size = length c in
     case split_volume_count archive_size volume_size of
       None \<Rightarrow> (Inl (sevenz_io_error destination InvalidInput ''too many 7z volumes''), d)
     | Some volume_count \<Rightarrow>
         let volume_paths = sevenz_volume_paths destination volume_count in
         and_then_st (disk_existing_7z_volume_paths ls destination d) (\<lambda>existing d.
         and_then_st (ensure_split_destinations_available destination volume_paths existing replace_existing d) (\<lambda>_ d.
         and_then_st (io_at archive_path (disk_contents archive_path d)) (\<lambda>archive d.
         and_then_st (write_volumes stamp archive_size volume_size (enumerate 0 volume_paths) archive [] d) (\<lambda>outputs d.
         case io_at destination (remove_split_destinations_for_replace destination existing replace_existing d) of
           (Inl e, d1) \<Rightarrow> (Inl e, drop_outputs outputs d1)
         | (Inr _, d1) \<Rightarrow>
             and_then_st (commit_volumes replace_existing (zip outputs volume_paths) d1) (\<lambda>_ d.
             (Inr (length volume_paths), d)))))))"

section \<open>Reading\<close>

datatype sevenz_read_source = SourceFile file_handle | SourceMulti segmented_reader

text \<open>\<open>File::open\<close>, with the length of the file, is the argument \<open>open_file\<close>.\<close>

definition open_7z_reader ::
  "(path \<Rightarrow> (io_error, dir_entries) result) \<Rightarrow> (path \<Rightarrow> (io_error, file_handle \<times> nat) result) \<Rightarrow> path
     \<Rightarrow> (sevenz_error, sevenz_read_source) result" where
  "open_7z_reader read_dir open_file path =
     and_then (discover_7z_read_volume_paths read_dir path) (\<lambda>volume_paths.
       if 1 < length volume_paths
       then map_err (SevenZIo (case volume_paths of [] \<Rightarrow> path | p # _ \<Rightarrow> p))
              (and_then (seg_open open_file volume_paths) (\<lambda>reader. Inr (SourceMulti reader)))
       else let read_path = (case volume_paths of [] \<Rightarrow> path | p # _ \<Rightarrow> p) in
            map_err (SevenZIo read_path) (and_then (open_file read_path) (\<lambda>(f, _). Inr (SourceFile f))))"

fun sevenz_read :: "nat \<Rightarrow> sevenz_read_source \<Rightarrow> (io_error, bytes) result \<times> sevenz_read_source" where
  "sevenz_read n (SourceFile f) = (case file_read n f of (r, g) \<Rightarrow> (r, SourceFile g))"
| "sevenz_read n (SourceMulti s) = (case seg_read n s of (r, t) \<Rightarrow> (r, SourceMulti t))"

fun source_ok :: "sevenz_read_source \<Rightarrow> bool" where
  "source_ok (SourceFile f) = always_reads f"
| "source_ok (SourceMulti s) = (seg_inv s \<and> all_reliable s)"

fun source_rest :: "sevenz_read_source \<Rightarrow> bytes" where
  "source_rest (SourceFile f) = drop (cursor f) (contents f)"
| "source_rest (SourceMulti s) = drop (position s) (stream s)"

interpretation sevenz_source: total_reader sevenz_read source_ok source_rest
proof
  fix s n bs t assume s: "source_ok s" "sevenz_read n s = (Inr bs, t)"
  show "source_ok t \<and> source_rest s = bs @ source_rest t \<and> length bs \<le> n \<and> (bs = [] \<longrightarrow> n = 0 \<or> source_rest s = [])"
  proof (cases s)
    case (SourceFile f)
    then obtain g where "file_read n f = (Inr bs, g)" "t = SourceFile g" using s(2) by (auto split: prod.splits)
    then show ?thesis using reliable_files.read_ok [of f n bs g] s(1) SourceFile by auto
  next
    case (SourceMulti f)
    then obtain g where "seg_read n f = (Inr bs, g)" "t = SourceMulti g" using s(2) by (auto split: prod.splits)
    then show ?thesis using reliable_volumes.read_ok [of f n bs g] s(1) SourceMulti by auto
  qed
next
  fix s n e t assume s: "source_ok s" "sevenz_read n s = (Inl e, t)"
  show "source_ok t"
  proof (cases s)
    case (SourceFile f)
    then obtain g where "file_read n f = (Inl e, g)" "t = SourceFile g" using s(2) by (auto split: prod.splits)
    then show ?thesis using reliable_files.read_err [of f n e g] s(1) SourceFile by simp
  next
    case (SourceMulti f)
    then obtain g where "seg_read n f = (Inl e, g)" "t = SourceMulti g" using s(2) by (auto split: prod.splits)
    then show ?thesis using reliable_volumes.read_err [of f n e g] s(1) SourceMulti by simp
  qed
next
  fix s n assume s: "source_ok s"
  show "\<exists>bs t. sevenz_read n s = (Inr bs, t)"
  proof (cases s)
    case (SourceFile f)
    then show ?thesis using reliable_files.read_total [of f n] s by auto
  next
    case (SourceMulti f)
    then show ?thesis using reliable_volumes.read_total [of f n] s by auto
  qed
qed

section \<open>One volume\<close>

lemma io_at_eq [simp]: "io_at p (r, d) = (map_err (SevenZIo p) r, d)"
  by (simp add: io_at_def)

lemma io_at_Inr [result_simps]: "io_at p x = (Inr y, d) \<longleftrightarrow> x = (Inr y, d)"
  by (cases x) (auto simp: result_simps)

lemma copy_exact_ok:
  assumes "copy_exact_volume_bytes archive h n p d = (Inr rest, d')" "file_open h" "nodes d (temp_path h) = Some (FileNode [])"
  shows "n \<le> length archive \<and> rest = drop n archive \<and> nodes d' = (nodes d)(temp_path h \<mapsto> FileNode (take n archive))"
proof -
  obtain limited d1 d2 where 1: "call (\<lambda>d. (Inr (take n archive), nodes d)) d = (Inr limited, d1)"
      "disk_write_all (temp_path h) limited d1 = (Inr (), d2)" "length limited = n" "rest = drop n archive" "d' = d2"
    using assms(1,2) by (auto simp: copy_exact_volume_bytes_def output_write_def result_simps split: if_splits)
  have "limited = take n archive" "nodes d1 = nodes d" using 1(1) by (auto elim!: call_cases)
  then show ?thesis using 1 disk_write_all_ok [OF 1(2)] assms(3) by auto
qed

section \<open>All volumes\<close>

fun chunks :: "nat list \<Rightarrow> 'a list \<Rightarrow> 'a list list" where
  "chunks [] xs = []"
| "chunks (n # ns) xs = take n xs # chunks ns (drop n xs)"

lemma concat_chunks: "concat (chunks ns xs) = take (sum_list ns) xs"
proof (induction ns arbitrary: xs)
  case (Cons n ns)
  then show ?case by (simp add: take_add)
qed simp

lemma length_chunks [simp]: "length (chunks ns xs) = length ns"
  by (induction ns arbitrary: xs) auto

lemma chunk_nth:
  assumes "i < length ns" "sum_list ns \<le> length xs"
  shows "length (chunks ns xs ! i) = ns ! i"
  using assms
proof (induction ns arbitrary: xs i)
  case (Cons n ns)
  then show ?case by (cases i) auto
qed simp

text \<open>The outputs of the first loop: their files hold the chunks, under temporary names.\<close>

definition is_temp :: "path \<Rightarrow> path \<Rightarrow> bool" where
  "is_temp dir t \<longleftrightarrow> (\<exists>st n k. t = output_temp_path st (dir @ [Normal n]) k)"

definition written :: "path \<Rightarrow> atomic_output list \<Rightarrow> bytes list \<Rightarrow> disk \<Rightarrow> bool" where
  "written dir hs cs d \<longleftrightarrow>
     distinct (map temp_path hs) \<and> (\<forall>h \<in> set hs. \<not> committed h \<and> is_temp dir (temp_path h)) \<and>
     map (\<lambda>h. nodes d (temp_path h)) hs = map (Some \<circ> FileNode) cs"

lemma grows_trans:
  assumes "grows dir A d e" "grows dir B e f" "A \<subseteq> C" "B \<subseteq> C"
  shows "grows dir C d f"
  using assms unfolding grows_def by (metis subsetD)

lemma written_grows:
  assumes "written dir hs cs d" "grows dir A d e"
  shows "written dir hs cs e"
proof -
  have "nodes e (temp_path h) = nodes d (temp_path h)" if "h \<in> set hs" for h
  proof -
    have "nodes d (temp_path h) \<in> set (map (\<lambda>h. nodes d (temp_path h)) hs)" using that by simp
    also have "\<dots> = set (map (Some \<circ> FileNode) cs)" using assms(1) unfolding written_def by argo
    finally show ?thesis using assms(2) by (auto simp: grows_def)
  qed
  then show ?thesis using assms(1) unfolding written_def by (metis (no_types, lifting) map_cong)
qed

lemma write_volumes_ok:
  assumes "write_volumes stamp len v vs archive hs d = (Inr hs', d')" "written dir hs cs d"
    and "\<forall>x \<in> set vs. \<exists>n. snd x = dir @ [Normal n]"
  shows "\<exists>new. hs' = hs @ new \<and> map final_path new = map snd vs \<and>
    written dir hs' (cs @ chunks (map (\<lambda>x. min (len - fst x * v) v) vs) archive) d' \<and>
    sum_list (map (\<lambda>x. min (len - fst x * v) v) vs) \<le> length archive \<and>
    grows dir (temp_path ` set new) d d'"
  using assms
proof (induction vs arbitrary: archive hs d cs)
  case Nil
  then show ?case by (auto simp: grows_def)
next
  case (Cons x vs)
  obtain i p where x: "x = (i, p)" by fastforce
  obtain n where n: "p = dir @ [Normal n]" using Cons.prems(3) x by auto
  let ?k = "min (len - i * v) v"
  obtain h d1 d2 where h: "output_create (stamp i) p d = (Inr h, d1)"
      "copy_exact_volume_bytes archive h ?k p d1 = (Inr (drop ?k archive), d2)"
      "write_volumes stamp len v vs (drop ?k archive) (hs @ [output_close h]) d2 = (Inr hs', d')"
  proof -
    obtain r d1 where r: "output_create (stamp i) p d = (r, d1)" by fastforce
    with Cons.prems(1) obtain h where h: "r = Inr h" by (cases r) (auto simp: x)
    obtain y d2 where y: "copy_exact_volume_bytes archive h ?k p d1 = (y, d2)" by fastforce
    with Cons.prems(1) r h obtain rest where rest: "y = Inr rest" by (cases y) (auto simp: x checked_mul_u64_def split: if_splits)
    note oc = output_create_ok [OF r [unfolded h n]]
    have "rest = drop ?k archive" using copy_exact_ok [OF y [unfolded rest] oc(3,6)] by simp
    then show ?thesis using that Cons.prems(1) r h y rest by (auto simp: x checked_mul_u64_def split: if_splits)
  qed
  note oc = output_create_ok [OF h(1) [unfolded n]]
  note ce = copy_exact_ok [OF h(2) oc(3,6)]
  have g: "grows dir {temp_path h} d d2" using oc(5,7) ce by (auto simp: grows_def)
  have fresh: "temp_path h \<notin> temp_path ` set hs"
  proof
    assume "temp_path h \<in> temp_path ` set hs"
    then have "nodes d (temp_path h) \<in> set (map (\<lambda>h. nodes d (temp_path h)) hs)" by auto
    also have "\<dots> = set (map (Some \<circ> FileNode) cs)" using Cons.prems(2) unfolding written_def by argo
    finally show False using oc(5) by auto
  qed
  have "written dir (hs @ [output_close h]) (cs @ [take ?k archive]) d2"
    using written_grows [OF Cons.prems(2) g] fresh oc(2,4) ce by (auto simp: written_def output_close_def is_temp_def)
  from Cons.IH [OF h(3) this] Cons.prems(3) obtain new where new: "hs' = hs @ [output_close h] @ new"
      "map final_path new = map snd vs"
      "written dir hs' (cs @ [take ?k archive] @ chunks (map (\<lambda>x. min (len - fst x * v) v) vs) (drop ?k archive)) d'"
      "sum_list (map (\<lambda>x. min (len - fst x * v) v) vs) \<le> length archive - ?k"
      "grows dir (temp_path ` set new) d2 d'" by auto
  have "grows dir (temp_path ` set (output_close h # new)) d d'"
    using grows_trans [OF g new(5)] by (auto simp: output_close_def)
  then show ?case using new oc(1) ce n by (intro exI [of _ "output_close h # new"]) (auto simp: x output_close_def)
qed

section \<open>Replacing and committing\<close>

text \<open>A step that may remove the nodes in \<open>A\<close> and leaves the others alone.\<close>

definition removes :: "path set \<Rightarrow> disk \<Rightarrow> disk \<Rightarrow> bool" where
  "removes A d d' \<longleftrightarrow> (\<forall>q. nodes d' q = nodes d q \<or> q \<in> A \<and> nodes d' q = None)"

lemma removes_refl [simp]: "removes A d d"
  by (simp add: removes_def)

lemma removes_trans: "removes A d e \<Longrightarrow> removes B e f \<Longrightarrow> A \<subseteq> C \<Longrightarrow> B \<subseteq> C \<Longrightarrow> removes C d f"
  unfolding removes_def by (metis subsetD)

lemma disk_remove_file_removes: "disk_remove_file p d = (r, d') \<Longrightarrow> removes {p} d d'"
  by (auto simp: disk_remove_file_def removes_def elim!: call_cases split: option.splits node.splits if_splits)

lemma split_remove_is_remove: "split_remove_file_destination = remove_file_destination_for_replace"
  by (auto simp: split_remove_file_destination_def remove_file_destination_for_replace_def fun_eq_iff
      split: prod.splits sum.splits)

lemma remove_file_destination_removes:
  assumes "remove_file_destination_for_replace p d = (r, d')"
  shows "removes {p} d d'"
proof -
  obtain k d1 where k: "disk_symlink_metadata p d = (k, d1)" by fastforce
  then have d1: "nodes d1 = nodes d" by (rule disk_symlink_metadata_frame)
  show ?thesis
  proof (cases "\<exists>f. k = Inr f \<and> f \<noteq> DirectoryFile")
    case True
    then have "disk_remove_file p d1 = (r, d')" using assms k by (auto simp: remove_file_destination_for_replace_def)
    then show ?thesis using disk_remove_file_removes d1 by (fastforce simp: removes_def)
  next
    case False
    then have "d' = d1" using assms k by (auto simp: remove_file_destination_for_replace_def split: sum.splits if_splits)
    then show ?thesis using d1 by (simp add: removes_def)
  qed
qed

lemma each_path_removes:
  assumes "\<And>p d r d'. f p d = (r, d') \<Longrightarrow> removes {p} d d'"
  shows "each_path f ps d = (r, d') \<Longrightarrow> removes (set ps) d d'"
proof (induction ps arbitrary: d)
  case (Cons p ps)
  obtain x d1 where x: "f p d = (x, d1)" by fastforce
  note g = assms [OF x]
  show ?case
  proof (cases x)
    case (Inl e)
    then show ?thesis using Cons.prems x removes_trans [OF g removes_refl, of "set (p # ps)"] by auto
  next
    case (Inr u)
    then show ?thesis using Cons.prems x removes_trans [OF g Cons.IH, of "set (p # ps)"] by auto
  qed
qed simp

lemma remove_split_destinations_removes:
  assumes "remove_split_destinations_for_replace dest existing replace d = (r, d')"
  shows "removes (insert dest (set existing)) d d'"
proof (cases replace)
  case False
  then show ?thesis using assms by (simp add: remove_split_destinations_for_replace_def)
next
  case True
  obtain x d1 where x: "each_path split_remove_file_destination existing d = (x, d1)" by fastforce
  have g: "removes (set existing) d d1"
    using each_path_removes [OF _ x] remove_file_destination_removes by (simp add: split_remove_is_remove)
  show ?thesis
  proof (cases x)
    case (Inl e)
    then show ?thesis using assms True x removes_trans [OF g removes_refl, of "insert dest (set existing)"]
      by (auto simp: remove_split_destinations_for_replace_def)
  next
    case (Inr u)
    then have "remove_file_destination_for_replace dest d1 = (r, d')"
      using assms True x by (simp add: remove_split_destinations_for_replace_def split_remove_is_remove)
    then show ?thesis using removes_trans [OF g remove_file_destination_removes, of dest r d' "insert dest (set existing)"] by auto
  qed
qed

lemma each_path_frame:
  assumes "\<And>p d r d'. f p d = (r, d') \<Longrightarrow> nodes d' = nodes d"
  shows "each_path f ps d = (r, d') \<Longrightarrow> nodes d' = nodes d"
proof (induction ps arbitrary: d)
  case (Cons p ps)
  obtain x d1 where x: "f p d = (x, d1)" by fastforce
  then show ?case using assms [OF x] Cons by (cases x) auto
qed simp

lemma ensure_available_frame: "ensure_file_destination_available b p d = (r, d') \<Longrightarrow> nodes d' = nodes d"
  by (auto simp: ensure_file_destination_available_def dest!: disk_symlink_metadata_frame split: prod.splits sum.splits if_splits)

lemma ensure_split_frame:
  assumes "ensure_split_destinations_available dest ps existing b d = (r, d')"
  shows "nodes d' = nodes d"
proof -
  let ?f = "\<lambda>p d. io_at p (ensure_file_destination_available b p d)"
  have f: "?f p d = (r, d') \<Longrightarrow> nodes d' = nodes d" for p d r d'
    using ensure_available_frame [OF prod.collapse [symmetric], of b p d] by (auto simp: io_at_def)
  obtain x d1 where x: "?f dest d = (x, d1)" by fastforce
  show ?thesis
  proof (cases x)
    case (Inl e)
    then show ?thesis using assms x f [OF x] by (simp add: ensure_split_destinations_available_def)
  next
    case (Inr u)
    then have "each_path ?f (unique_paths ps existing) d1 = (r, d')"
      using assms x by (simp add: ensure_split_destinations_available_def)
    then have "nodes d' = nodes d1" by (rule each_path_frame [rotated]) (rule f)
    then show ?thesis using f [OF x] by simp
  qed
qed

lemma no_clobber_rename_moves:
  assumes "atomic_no_clobber_rename from to d = (Inr u, d')" "from \<noteq> to"
  shows "nodes d' to = nodes d from \<and> (\<forall>q. q \<noteq> from \<longrightarrow> q \<noteq> to \<longrightarrow> nodes d' q = nodes d q)"
proof -
  obtain x d1 where x: "disk_rename_noreplace from to d = (x, d1)" by fastforce
  show ?thesis
  proof (cases x)
    case (Inr v)
    then show ?thesis using x assms disk_rename_noreplace_ok [of "from" to d v d1]
      by (auto simp: atomic_no_clobber_rename_def)
  next
    case (Inl e)
    then have d1: "nodes d1 = nodes d" "fallback_hardlink_rename from to d1 = (Inr u, d')"
      using x assms disk_rename_noreplace_err [of "from" to d e d1] by (auto simp: atomic_no_clobber_rename_def split: if_splits)
    obtain y d2 where y: "disk_hard_link from to d1 = (y, d2)" by fastforce
    show ?thesis
    proof (cases y)
      case (Inr v)
      then have d': "d' = snd (disk_remove_file from d2)" using d1(2) y by (simp add: fallback_hardlink_rename_def)
      show ?thesis using disk_hard_link_ok [of "from" to d1 v d2] y Inr d1 assms(2)
          disk_remove_file_frame [OF prod.collapse [symmetric], of _ "from" d2] by (auto simp: d')
    next
      case (Inl e')
      then obtain b d3 where b: "disk_exists to d2 = (b, d3)" "disk_rename from to d3 = (Inr u, d')"
        using d1(2) y by (auto simp: fallback_hardlink_rename_def split: if_splits prod.splits)
      have "nodes d3 = nodes d2" using b(1) by (auto simp: disk_exists_def elim!: call_cases split: prod.splits sum.splits)
      moreover have "nodes d2 = nodes d1" using disk_hard_link_err [of "from" to d1 e' d2] y Inl by simp
      ultimately show ?thesis using disk_rename_ok [OF b(2) assms(2)] d1(1) assms(2) by auto
    qed
  qed
qed

lemma commit_moves:
  assumes "commit_with_file_replace b h d = (Inr u, d')" "temp_path h \<noteq> final_path h"
  shows "nodes d' (final_path h) = nodes d (temp_path h) \<and>
    (\<forall>q. q \<noteq> temp_path h \<longrightarrow> q \<noteq> final_path h \<longrightarrow> nodes d' q = nodes d q)"
proof (cases b)
  case False
  then have "atomic_no_clobber_rename (temp_path h) (final_path h) d = (Inr (), d')"
    using assms(1) by (auto simp: commit_with_file_replace_def finish_commit_def drop_output_def split: prod.splits sum.splits)
  then show ?thesis using no_clobber_rename_moves assms(2) by blast
next
  case True
  then obtain d1 where d1: "remove_file_destination_for_replace (final_path h) d = (Inr (), d1)"
      "disk_rename (temp_path h) (final_path h) d1 = (Inr (), d')"
    using assms(1)
    by (auto simp: commit_with_file_replace_def finish_commit_def drop_output_def result_simps split: prod.splits sum.splits)
  have g: "q \<noteq> final_path h \<Longrightarrow> nodes d1 q = nodes d q" for q
    using remove_file_destination_removes [OF d1(1)] unfolding removes_def by blast
  show ?thesis using disk_rename_ok [OF d1(2) assms(2)] g assms(2) by auto
qed

lemma commit_volumes_ok:
  assumes "commit_volumes b (zip hs ps) d = (Inr u, d')" "map final_path hs = ps" "distinct ps"
    and "distinct (map temp_path hs)" "temp_path ` set hs \<inter> set ps = {}"
  shows "map (nodes d') ps = map (\<lambda>h. nodes d (temp_path h)) hs \<and>
    (\<forall>q. q \<notin> set ps \<longrightarrow> q \<notin> temp_path ` set hs \<longrightarrow> nodes d' q = nodes d q)"
  using assms
proof (induction hs arbitrary: ps d)
  case (Cons h hs)
  then obtain p ps' where ps: "ps = p # ps'" "final_path h = p" "map final_path hs = ps'" by auto
  obtain x d1 where x: "commit_with_file_replace b h d = (x, d1)" by fastforce
  with Cons.prems(1) obtain v where v: "x = Inr v" "commit_volumes b (zip hs ps') d1 = (Inr u, d')"
    by (cases x) (auto simp: ps)
  have ne: "temp_path h \<noteq> final_path h" using Cons.prems(5) ps by auto
  note c = commit_moves [OF x [unfolded v(1)] ne]
  have ih: "map (nodes d') ps' = map (\<lambda>h. nodes d1 (temp_path h)) hs"
      "\<forall>q. q \<notin> set ps' \<longrightarrow> q \<notin> temp_path ` set hs \<longrightarrow> nodes d' q = nodes d1 q"
    using Cons.IH [OF v(2) ps(3)] Cons.prems ps by auto
  have "nodes d1 (temp_path k) = nodes d (temp_path k)" if "k \<in> set hs" for k
    using c Cons.prems(4,5) that ps by (metis disjoint_iff distinct.simps(2) image_eqI list.set_intros list.set_map list.simps(9))
  moreover have "nodes d' p = nodes d (temp_path h)"
  proof -
    have "p \<notin> set ps'" "p \<notin> temp_path ` set hs" using Cons.prems(3,5) ps by auto
    then show ?thesis using ih(2) c ps(2) by simp
  qed
  ultimately show ?case using ih c ps by (auto intro!: map_cong)
qed simp

section \<open>Names\<close>

lemma decimal_is_digit: "c \<in> set (decimal k) \<Longrightarrow> is_ascii_digit c"
  using decimal_digits [of c k] by (auto simp: is_ascii_digit_def byte_val_def of_char_digit)

lemma pad3_digits: "list_all is_ascii_digit (pad3 k)"
proof -
  have "is_ascii_digit (CHR ''0'')" by code_simp
  then show ?thesis by (auto simp: pad3_def list_all_iff decimal_is_digit)
qed

lemma digits_value_snoc: "digits_value (s @ [c]) = 10 * digits_value s + (byte_val c - 48)"
  by (simp add: digits_value_def)

lemma digits_value_decimal: "digits_value (decimal k) = k"
proof (induction k rule: decimal.induct)
  case (1 k)
  show ?case
  proof (cases "k < 10")
    case True
    then show ?thesis by (subst decimal.simps) (simp add: digits_value_def byte_val_def of_char_digit)
  next
    case False
    then have "decimal k = decimal (k div 10) @ [digit (k mod 10)]" by (subst decimal.simps) simp
    then show ?thesis using 1 [OF False] by (simp add: digits_value_snoc byte_val_def of_char_digit)
  qed
qed

lemma digits_value_zeros: "digits_value (replicate n (CHR ''0'') @ s) = digits_value s"
proof -
  have "foldl (\<lambda>n c. 10 * n + (byte_val c - 48)) 0 (replicate n (CHR ''0'')) = 0"
    by (induction n) (simp_all add: byte_val_def)
  then show ?thesis by (simp add: digits_value_def)
qed

lemma digits_value_pad3: "digits_value (pad3 k) = k"
  by (simp add: pad3_def digits_value_zeros digits_value_decimal)

lemma pad3_inj: "pad3 j = pad3 k \<Longrightarrow> j = k"
  by (metis digits_value_pad3)

lemma length_decimal: "k < 10 ^ n \<Longrightarrow> 0 < n \<Longrightarrow> length (decimal k) \<le> n"
proof (induction n arbitrary: k)
  case (Suc n)
  show ?case
  proof (cases "k < 10")
    case False
    then have k: "decimal k = decimal (k div 10) @ [digit (k mod 10)]" by (subst decimal.simps) simp
    have "k div 10 < 10 ^ n" using Suc.prems by (simp add: less_mult_imp_div_less mult.commute)
    moreover have "0 < n" using Suc.prems False by (cases n) auto
    ultimately show ?thesis using Suc.IH [of "k div 10"] k by simp
  qed (subst decimal.simps, simp)
qed simp

lemma length_pad3: "k \<le> 999 \<Longrightarrow> length (pad3 k) = 3"
  using length_decimal [of k 3] by (simp add: pad3_def SEVENZ_VOLUME_EXTENSION_WIDTH_def)

lemma digits_no_dot: "list_all is_ascii_digit s \<Longrightarrow> CHR ''.'' \<notin> set s"
  by (auto simp: list_all_iff is_ascii_digit_def byte_val_def)

lemma parse_volume_name:
  assumes "0 < k" "k \<le> 999"
  shows "parse_7z_volume_file_name (n @ ''.'' @ pad3 k) = Some (n, k)"
proof -
  have "rsplit_once (CHR ''.'') (n @ ''.'' @ pad3 k) = Some (n, pad3 k)"
    using digits_no_dot [OF pad3_digits] by (simp add: rsplit_once_Some)
  moreover have "parse_u32 (pad3 k) = Some k"
    using assms length_pad3 [OF assms(2)] pad3_digits [of k] by (auto simp: parse_u32_def digits_value_pad3)
  ultimately show ?thesis
    using assms length_pad3 [OF assms(2)] pad3_digits [of k]
    by (simp add: parse_7z_volume_file_name_def SEVENZ_VOLUME_EXTENSION_WIDTH_def)
qed

lemma parse_tmp: "parse_7z_volume_file_name (n @ ''.tmp'') = None"
proof -
  have "rsplit_once (CHR ''.'') (n @ ''.tmp'') = Some (n, ''tmp'')" by (simp add: rsplit_once_Some)
  then show ?thesis by (simp add: parse_7z_volume_file_name_def is_ascii_digit_def byte_val_def)
qed

lemma lower_digits: "list_all is_ascii_digit s \<Longrightarrow> to_ascii_lowercase s = s"
  by (auto simp: to_ascii_lowercase_def list_all_iff ascii_lower_def is_ascii_digit_def intro!: map_idI)

lemma lower_volume_name: "to_ascii_lowercase (n @ ''.'' @ pad3 k) = to_ascii_lowercase n @ ''.'' @ pad3 k"
proof -
  have "to_ascii_lowercase ''.'' = ''.''" by code_simp
  then show ?thesis by (simp add: lower_digits [OF pad3_digits] del: append.simps)
qed

lemma lower_tmp: "to_ascii_lowercase (n @ ''.tmp'') = to_ascii_lowercase n @ ''.tmp''"
proof -
  have "to_ascii_lowercase ''.tmp'' = ''.tmp''" by code_simp
  then show ?thesis by simp
qed

lemma sevenz_matcher_tmp: "sevenz_matcher base (n @ ''.tmp'') = None"
  by (simp add: sevenz_matcher_def lower_tmp parse_tmp part_of_base_def del: lower_append)

lemma volume_name_not_tmp: "n @ ''.'' @ pad3 k \<noteq> m @ ''.tmp''"
proof
  assume e: "n @ ''.'' @ pad3 k = m @ ''.tmp''"
  have "pad3 k \<noteq> []" by (simp add: pad3_def)
  then have "last (pad3 k) = last (n @ ''.'' @ pad3 k)" by simp
  also have "\<dots> = CHR ''p''" unfolding e by simp
  finally have "is_ascii_digit (CHR ''p'')" using pad3_digits [of k] \<open>pad3 k \<noteq> []\<close> by (metis last_in_set list_all_iff)
  then show False by (simp add: is_ascii_digit_def byte_val_def)
qed

lemma sevenz_volume_path_eq: "sevenz_volume_path (dir @ [Normal n]) k = dir @ [Normal (n @ ''.'' @ pad3 k)]"
  by (simp add: sevenz_volume_path_def)

lemma temp_name: "is_temp dir t \<Longrightarrow> \<exists>m. t = dir @ [Normal (m @ ''.tmp'')]"
proof -
  have "output_temp_path st (dir @ [Normal n]) k =
      dir @ [Normal ((TEMP_PREFIX @ ''-'' @ name_or ''archive'' (dir @ [Normal n]) @ ''-'' @ st @ ''-'' @ decimal k) @ ''.tmp'')]" for st n k
    by (simp add: output_temp_path_def TEMP_SUFFIX_def)
  then show "is_temp dir t \<Longrightarrow> ?thesis" unfolding is_temp_def by blast
qed

text \<open>A name with the extension \<open>7z\<close> is no temporary name and no volume name.\<close>

lemma lower_plain:
  assumes "plain_name n"
  shows "plain_name (to_ascii_lowercase n)"
proof -
  have v: "byte_val (ascii_lower c) = (if 65 \<le> byte_val c \<and> byte_val c \<le> 90 then byte_val c + 32 else byte_val c)" for c
    by (simp add: ascii_lower_def byte_val_def)
  have eq: "x = y \<longleftrightarrow> byte_val x = byte_val y" for x y by (simp add: byte_val_def)
  have slash: "ascii_lower c = CHR ''/'' \<Longrightarrow> c = CHR ''/''" for c
    unfolding eq [of "ascii_lower c"] eq [of c] v by (simp add: byte_val_def split: if_splits)
  have dot: "ascii_lower c = CHR ''.'' \<Longrightarrow> c = CHR ''.''" for c
    unfolding eq [of "ascii_lower c"] eq [of c] v by (simp add: byte_val_def split: if_splits)
  have "map ascii_lower n = ''.'' \<longrightarrow> n = ''.''" "map ascii_lower n = ''..'' \<longrightarrow> n = ''..''"
    using dot unfolding map_eq_Cons_conv by blast+
  moreover have "CHR ''/'' \<notin> ascii_lower ` set n"
  proof
    assume "CHR ''/'' \<in> ascii_lower ` set n"
    then obtain c where c: "CHR ''/'' = ascii_lower c" "c \<in> set n" by (rule imageE)
    then show False using slash [OF c(1) [symmetric]] assms unfolding plain_name_def by blast
  qed
  ultimately show ?thesis using assms unfolding plain_name_def to_ascii_lowercase_def set_map map_is_Nil_conv by argo
qed

lemma has_7z_extensionE:
  assumes "has_7z_extension n" "plain_name n"
  obtains b e where "n = b @ ''.'' @ e" "to_ascii_lowercase e = ''7z''"
proof -
  have n: "path_of_string n = [Normal n]" using path_of_string_plain [of "[n]"] assms(2) by simp
  obtain e where e: "snd (rsplit_file_at_dot n) = Some e" "fst (rsplit_file_at_dot n) \<noteq> None" "eq_ignore_ascii_case e ''7z''"
    using assms(1) by (auto simp: has_7z_extension_def n path_extension_def path_file_name_def split: option.splits prod.splits)
  have "to_ascii_lowercase ''7z'' = ''7z''" by code_simp
  then have "to_ascii_lowercase e = ''7z''" using e(3) by (simp add: eq_ignore_ascii_case_def)
  moreover obtain b where "n = b @ ''.'' @ e"
    using rsplit_stem_cases [OF prod.collapse [symmetric], of n] e(1,2) by auto
  ultimately show ?thesis using that by blast
qed

lemma has_7z_not_tmp:
  assumes "has_7z_extension (to_ascii_lowercase n)" "plain_name n"
  shows "n \<noteq> m @ ''.tmp''"
proof
  assume n: "n = m @ ''.tmp''"
  obtain b e where e: "to_ascii_lowercase n = b @ ''.'' @ e" "to_ascii_lowercase e = ''7z''"
    using has_7z_extensionE [OF assms(1) lower_plain [OF assms(2)]] by metis
  have ne: "e \<noteq> []" using e(2) by (auto simp: to_ascii_lowercase_def)
  have "last (to_ascii_lowercase n) = CHR ''p''" unfolding n lower_tmp by simp
  then have "last e = CHR ''p''" using e(1) ne by simp
  then have "last (to_ascii_lowercase e) = ascii_lower (CHR ''p'')" using ne by (simp add: to_ascii_lowercase_def last_map)
  moreover have "ascii_lower (CHR ''p'') = CHR ''p''" by code_simp
  ultimately show False unfolding e(2) by simp
qed

lemma volume_base_of_archive:
  assumes "has_7z_extension (to_ascii_lowercase n)" "plain_name n"
  shows "volume_base_7z (to_ascii_lowercase n) = Some (to_ascii_lowercase n)"
proof -
  obtain b e where e: "to_ascii_lowercase n = b @ ''.'' @ e" "to_ascii_lowercase e = ''7z''"
    using has_7z_extensionE [OF assms(1) lower_plain [OF assms(2)]] by metis
  have "ascii_lower (CHR ''.'') \<notin> set ''7z''" by code_simp
  then have "CHR ''.'' \<notin> set e" unfolding e(2) [symmetric] by (auto simp: to_ascii_lowercase_def)
  then have "rsplit_once (CHR ''.'') (to_ascii_lowercase n) = Some (b, e)" unfolding rsplit_once_Some using e(1) by simp
  moreover have "length e = 2" using e(2) by (metis length_map to_ascii_lowercase_def list.size(3,4) One_nat_def Suc_1 add.right_neutral add_Suc_right)
  ultimately have "parse_7z_volume_file_name (to_ascii_lowercase n) = None"
    by (simp add: parse_7z_volume_file_name_def SEVENZ_VOLUME_EXTENSION_WIDTH_def)
  then show ?thesis using assms(1) by (simp add: volume_base_7z_def)
qed

lemma volume_base_of_volume:
  assumes "has_7z_extension (to_ascii_lowercase n)" "0 < k" "k \<le> 999"
  shows "volume_base_7z (to_ascii_lowercase (n @ ''.'' @ pad3 k)) = Some (to_ascii_lowercase n)"
  unfolding lower_volume_name volume_base_7z_def parse_volume_name [OF assms(2,3)] using assms(1) by simp

lemma good_tail_append: "good_tail k c cs = k \<Longrightarrow> good_tail k c (cs @ ds) = k"
proof (cases cs)
  case Nil
  then show "good_tail k c cs = k \<Longrightarrow> ?thesis" by (cases ds) auto
next
  case (Cons a as)
  assume k: "good_tail k c cs = k"
  show ?thesis
  proof (cases "k = 0 \<or> \<not> second_byte_ok c a")
    case True
    then show ?thesis using k Cons by (auto split: if_splits)
  next
    case False
    then have l: "length (takeWhile (\<lambda>d. byte_in d 0x80 0xBF) (take (k - 1) as)) = k - 1" using k Cons by simp
    then have "k - 1 \<le> length as" using length_takeWhile_le [of "\<lambda>d. byte_in d 0x80 0xBF" "take (k - 1) as"] by simp
    then show ?thesis using l False Cons by simp
  qed
qed

lemma is_utf8_append: "is_utf8 a \<Longrightarrow> is_utf8 b \<Longrightarrow> is_utf8 (a @ b)"
proof (induction a rule: is_utf8.induct)
  case (2 c cs)
  let ?k = "utf8_width c - 1"
  have u: "utf8_width c \<noteq> 0" "good_tail ?k c cs = ?k" "is_utf8 (drop ?k cs)" using "2.prems"(1) by (auto simp: Let_def)
  have "is_utf8 (drop ?k cs @ b)" using "2.IH" [OF refl refl] u "2.prems"(2) by simp
  moreover have "?k \<le> length cs" using good_tail_le [of ?k c cs] u(2) by simp
  ultimately show ?case using u(1) good_tail_append [OF u(2)] by (simp add: Let_def)
qed simp

lemma is_utf8_volume: "is_utf8 n \<Longrightarrow> is_utf8 (n @ ''.'' @ pad3 k)"
proof -
  have "byte_in c 0 0x7F" if "is_ascii_digit c" for c using that by (simp add: is_ascii_digit_def byte_in_def byte_val_def)
  moreover have "byte_in (CHR ''.'') 0 0x7F" by code_simp
  ultimately have "is_utf8 (''.'' @ pad3 k)" using pad3_digits [of k] by (intro is_utf8_ascii) (auto simp: list_all_iff)
  then show "is_utf8 n \<Longrightarrow> ?thesis" by (rule is_utf8_append [rotated])
qed

section \<open>The split archive\<close>

lemma sum_sizes: "sum_list (map (\<lambda>i. min (s - i * v) v) [0 ..< n]) = min s (n * v)"
  by (induction n) (auto simp: min_def)

lemma count_bounds:
  assumes "split_volume_count s v = Some n" "0 < v" "0 < s"
  shows "s \<le> n * v" "i < n \<Longrightarrow> i * v < s" "0 < n"
proof -
  have "max s 1 = s" using assms(3) by simp
  then have n: "n = (s + (v - 1)) div v" using assms(1) by (simp add: split_volume_count_def Let_def split: if_splits)
  have lo: "s + (v - 1) < (n + 1) * v" unfolding n using assms(2) by (metis Suc_eq_plus1 dividend_less_div_times mult.commute mult_Suc add.commute)
  have hi: "n * v \<le> s + (v - 1)" unfolding n by (simp add: div_times_less_eq_dividend)
  show le: "s \<le> n * v" using lo assms(2) by simp
  show "0 < n" using le assms(3) by (cases n) auto
  show "i * v < s" if "i < n"
  proof -
    have "(i + 1) * v \<le> n * v" using that by (intro mult_le_mono1) simp
    then show ?thesis using hi assms(2) by simp
  qed
qed

lemma existing_in_directory:
  assumes "disk_existing_7z_volume_paths ls (dir @ [Normal name]) d = (Inr existing, d')"
  shows "nodes d' = nodes d" "p \<in> set existing \<Longrightarrow> \<exists>m. p = dir @ [Normal m] \<and> parse_7z_volume_file_name m \<noteq> None"
proof -
  show "nodes d' = nodes d"
    using assms by (auto simp: disk_existing_7z_volume_paths_def disk_read_dir_def split: option.splits prod.splits elim!: call_cases)
  assume p: "p \<in> set existing"
  show "\<exists>m. p = dir @ [Normal m] \<and> parse_7z_volume_file_name m \<noteq> None"
  proof (cases "is_utf8 name")
    case False
    then show ?thesis using assms p by (simp add: disk_existing_7z_volume_paths_def existing_7z_volume_paths_def to_str_def)
  next
    case True
    let ?f = "\<lambda>c. part_of_base name (parse_7z_volume_file_name c)"
    obtain r where "existing_volume_paths (\<lambda>_. r) dir ?f = Inr existing"
      using assms True by (auto simp: disk_existing_7z_volume_paths_def existing_7z_volume_paths_def to_str_def result_simps Let_def split: prod.splits)
    then obtain entries where ex: "existing = map snd (volume_parts ?f dir entries)"
      using p by (auto simp: existing_volume_paths_def split: sum.splits if_splits)
    note ok = volume_parts_ok [of ?f dir entries]
    obtain k where "(k, p) \<in> set (volume_parts ?f dir entries)" using p ex by auto
    then have "map_of (volume_parts ?f dir entries) k = Some p"
      using ok by (intro map_of_is_SomeI) (auto simp: parts_ok_def strict_sorted_iff)
    then obtain m where "?f m = Some k" "p = dir @ [Normal m]" using ok unfolding parts_ok_def by blast
    then show ?thesis by (auto simp: part_of_base_Some)
  qed
qed

lemma disk_contents_ok:
  assumes "disk_contents p d = (Inr c, d')" "nodes d p = Some (FileNode x)"
  shows "c = x" "nodes d' = nodes d"
proof -
  have "follow_links k (nodes d) p = Some (FileNode x)" if "0 < k" for k using that assms(2) by (cases k) auto
  then have "follow_links 40 (nodes d) p = Some (FileNode x)" by simp
  then show "c = x" "nodes d' = nodes d" using assms(1) by (auto simp: disk_contents_def elim!: call_cases)
qed

lemma split_steps:
  assumes "split_7z_temp_archive ls stamp ap dest v b d = (Inr n, d')" "nodes d ap = Some (FileNode content)"
  obtains existing d1 d2 d3 d4 hs d5 where "split_volume_count (length content) v = Some n"
    "nodes d1 = nodes d" "disk_existing_7z_volume_paths ls dest d1 = (Inr existing, d2)"
    "nodes d3 = nodes d2"
    "write_volumes stamp (length content) v (enumerate 0 (sevenz_volume_paths dest n)) content [] d3 = (Inr hs, d4)"
    "remove_split_destinations_for_replace dest existing b d4 = (Inr (), d5)"
    "commit_volumes b (zip hs (sevenz_volume_paths dest n)) d5 = (Inr (), d')"
proof -
  obtain c d1 where c: "disk_contents ap d = (Inr c, d1)" using assms(1)
    by (auto simp: split_7z_temp_archive_def result_simps)
  note c' = disk_contents_ok [OF c assms(2)]
  obtain k where k: "split_volume_count (length content) v = Some k"
    using assms(1) c c' by (auto simp: split_7z_temp_archive_def result_simps Let_def split: option.splits)
  let ?ps = "sevenz_volume_paths dest k"
  obtain existing d2 e3 archive d3 hs d4 where s: "disk_existing_7z_volume_paths ls dest d1 = (Inr existing, d2)"
      "ensure_split_destinations_available dest ?ps existing b d2 = (Inr (), e3)"
      "disk_contents ap e3 = (Inr archive, d3)"
      "write_volumes stamp (length content) v (enumerate 0 ?ps) archive [] d3 = (Inr hs, d4)"
      "(case io_at dest (remove_split_destinations_for_replace dest existing b d4) of
          (Inl e, d5) \<Rightarrow> (Inl e, drop_outputs hs d5)
        | (Inr _, d5) \<Rightarrow> and_then_st (commit_volumes b (zip hs ?ps) d5) (\<lambda>_ d. (Inr (length ?ps), d))) = (Inr n, d')"
    using assms(1) c c' k by (auto simp: split_7z_temp_archive_def result_simps Let_def)
  obtain d5 where r: "remove_split_destinations_for_replace dest existing b d4 = (Inr (), d5)"
      "commit_volumes b (zip hs ?ps) d5 = (Inr (), d')" "n = length ?ps"
    using s(5) by (cases "remove_split_destinations_for_replace dest existing b d4")
      (auto simp: io_at_def result_simps split: sum.splits)
  have n: "n = k" using r(3) by (simp add: sevenz_volume_paths_def)
  have d2: "nodes d2 = nodes d1"
    using s(1) by (auto simp: disk_existing_7z_volume_paths_def disk_read_dir_def split: option.splits prod.splits elim!: call_cases)
  then have "nodes e3 ap = Some (FileNode content)" using ensure_split_frame [OF s(2)] c' assms(2) by simp
  note a = disk_contents_ok [OF s(3) this]
  show ?thesis using that [of d1 existing d2 d3 hs d4 d5] k n c' s(1,4) a r(1,2) ensure_split_frame [OF s(2)] by simp
qed

lemma split_ok:
  assumes run: "split_7z_temp_archive ls stamp ap (dir @ [Normal name]) v b d = (Inr n, d')"
    and archive: "nodes d ap = Some (FileNode content)" "content \<noteq> []" "0 < v"
    and name: "has_7z_extension (to_ascii_lowercase name)" "plain_name name"
  obtains cs where "length cs = n" "concat cs = content" "\<forall>c \<in> set cs. c \<noteq> [] \<and> length c \<le> v" "0 < n"
    "map (nodes d') (sevenz_volume_paths (dir @ [Normal name]) n) = map (Some \<circ> FileNode) cs"
    "\<And>m. nodes d' (dir @ [Normal m]) \<noteq> None \<Longrightarrow> dir @ [Normal m] \<in> set (sevenz_volume_paths (dir @ [Normal name]) n) \<or>
       nodes d (dir @ [Normal m]) \<noteq> None \<or> (\<exists>x. m = x @ ''.tmp'')"
    "nodes d dir = Some DirNode \<Longrightarrow> nodes d' dir = Some DirNode"
proof -
  let ?dest = "dir @ [Normal name]" and ?ps = "sevenz_volume_paths (dir @ [Normal name]) n"
  let ?sizes = "map (\<lambda>i. min (length content - i * v) v) [0 ..< n]"
  from split_steps [OF run archive(1)] obtain existing d1 d2 d3 d4 hs d5 where
    count: "split_volume_count (length content) v = Some n" and d1: "nodes d1 = nodes d"
    and ex: "disk_existing_7z_volume_paths ls ?dest d1 = (Inr existing, d2)" and d3: "nodes d3 = nodes d2"
    and w: "write_volumes stamp (length content) v (enumerate 0 ?ps) content [] d3 = (Inr hs, d4)"
    and rm: "remove_split_destinations_for_replace ?dest existing b d4 = (Inr (), d5)"
    and cm: "commit_volumes b (zip hs ?ps) d5 = (Inr (), d')" by metis
  note cb = count_bounds [OF count archive(3)]
  have len: "length ?ps = n" by (simp add: sevenz_volume_paths_def)
  have ps: "p \<in> set ?ps \<longleftrightarrow> (\<exists>k. 0 < k \<and> k \<le> n \<and> p = dir @ [Normal (name @ ''.'' @ pad3 k)])" for p
    by (auto simp: sevenz_volume_paths_def sevenz_volume_path_eq image_iff Suc_le_eq simp del: upt_Suc)
  have d03: "nodes d3 = nodes d" using existing_in_directory(1) [OF ex] d1 d3 by simp
  have sizes: "map (\<lambda>x. min (length content - fst x * v) v) (enumerate 0 ?ps) = ?sizes"
    using map_fst_enumerate [of 0 ?ps] by (metis (no_types, lifting) add.left_neutral comp_apply len map_eq_conv map_map)
  have "\<forall>x \<in> set (enumerate 0 ?ps). \<exists>m. snd x = dir @ [Normal m]"
    using ps by (auto simp: in_set_enumerate_eq) (metis len nth_mem)
  from write_volumes_ok [OF w _ this, of "[]"] have wv: "map final_path hs = ?ps"
      "written dir hs (chunks ?sizes content) d4" "grows dir (temp_path ` set hs) d3 d4"
    by (auto simp: sizes written_def map_snd_enumerate)
  have temps: "\<exists>m. t = dir @ [Normal (m @ ''.tmp'')]" if "t \<in> temp_path ` set hs" for t
    using wv(2) that by (auto simp: written_def intro: temp_name)
  have safe: "t \<notin> insert ?dest (set existing)" if "t \<in> temp_path ` set hs" for t
    using temps [OF that] has_7z_not_tmp [OF name] existing_in_directory(2) [OF ex, of t] parse_tmp by auto
  have rem: "removes (insert ?dest (set existing)) d4 d5" by (rule remove_split_destinations_removes [OF rm])
  have keep: "nodes d5 t = nodes d4 t" if "t \<in> temp_path ` set hs" for t
    using rem safe [OF that] by (auto simp: removes_def)
  have disj: "temp_path ` set hs \<inter> set ?ps = {}" 
  proof (rule ccontr)
    assume "\<not> ?thesis"
    then obtain t where t: "t \<in> temp_path ` set hs" "t \<in> set ?ps" by blast
    obtain m where "t = dir @ [Normal (m @ ''.tmp'')]" using temps [OF t(1)] by blast
    moreover obtain k where "t = dir @ [Normal (name @ ''.'' @ pad3 k)]" using t(2) ps by blast
    ultimately show False using volume_name_not_tmp [of name k m] by simp
  qed
  have dist: "distinct ?ps"
    by (auto simp: sevenz_volume_paths_def sevenz_volume_path_eq distinct_map inj_on_def dest: pad3_inj simp del: upt_Suc)
  have "distinct (map temp_path hs)" using wv(2) by (simp add: written_def)
  note cv = commit_volumes_ok [OF cm wv(1) dist this disj]
  show thesis
  proof (rule that [of "chunks ?sizes content"])
    show "length (chunks ?sizes content) = n" by simp
    show "concat (chunks ?sizes content) = content"
      using cb(1) archive(2) by (simp add: concat_chunks sum_sizes min_absorb1 del: upt_Suc)
    show "\<forall>c \<in> set (chunks ?sizes content). c \<noteq> [] \<and> length c \<le> v"
    proof
      fix c assume "c \<in> set (chunks ?sizes content)"
      then obtain i where i: "i < n" "c = chunks ?sizes content ! i" by (auto simp: in_set_conv_nth)
      have "sum_list ?sizes \<le> length content" by (simp add: sum_sizes)
      then have "length c = min (length content - i * v) v" using chunk_nth [of i ?sizes content] i by simp
      moreover have "i * v < length content" using cb(2) [OF _ i(1)] archive(2) by simp
      ultimately show "c \<noteq> [] \<and> length c \<le> v" using archive(3) by auto
    qed
    show "0 < n" using cb(3) archive(2) by simp
    have "map (\<lambda>h. nodes d5 (temp_path h)) hs = map (\<lambda>h. nodes d4 (temp_path h)) hs" using keep by simp
    also have "\<dots> = map (Some \<circ> FileNode) (chunks ?sizes content)" using wv(2) unfolding written_def by argo
    finally show "map (nodes d') ?ps = map (Some \<circ> FileNode) (chunks ?sizes content)" using cv by simp
    show "dir @ [Normal m] \<in> set ?ps \<or> nodes d (dir @ [Normal m]) \<noteq> None \<or> (\<exists>x. m = x @ ''.tmp'')"
      if "nodes d' (dir @ [Normal m]) \<noteq> None" for m
    proof (rule ccontr)
      assume no: "\<not> ?thesis"
      then have t: "dir @ [Normal m] \<notin> temp_path ` set hs" using temps by auto
      then have "nodes d5 (dir @ [Normal m]) \<noteq> None" using cv no that by metis
      then have "nodes d4 (dir @ [Normal m]) \<noteq> None" using rem unfolding removes_def by metis
      then have "nodes d3 (dir @ [Normal m]) \<noteq> None" using wv(3) t unfolding grows_def by metis
      then show False using no d03 by simp
    qed
    show "nodes d' dir = Some DirNode" if "nodes d dir = Some DirNode"
    proof -
      have child: "dir \<noteq> dir @ [c]" for c :: component by simp
      have "nodes d4 dir = Some DirNode" using wv(3) that d03 by (simp add: grows_def)
      moreover have "dir \<notin> insert ?dest (set existing)" using existing_in_directory(2) [OF ex, of dir] child by auto
      ultimately have "nodes d5 dir = Some DirNode" using rem by (metis removes_def)
      moreover have "dir \<notin> set ?ps" "dir \<notin> temp_path ` set hs" using ps [of dir] temps [of dir] child by auto
      ultimately show ?thesis using cv by metis
    qed
  qed
qed

section \<open>Splitting and reading back\<close>

definition disk_files :: "disk \<Rightarrow> path \<Rightarrow> (io_error, file_handle \<times> nat) result" where
  "disk_files d p = (case nodes d p of Some (FileNode c) \<Rightarrow> Inr (plain_file c, length c) | _ \<Rightarrow> Inl not_found)"

lemma disk_files_honest: "honest (disk_files d)"
  by (auto simp: honest_def disk_files_def plain_file_def split: option.splits node.splits)

lemma plain_file_reliable: "reliable (plain_file c)"
  by (simp add: reliable_def plain_file_def)

lemma open_parts_files:
  assumes "map (nodes d) paths = map (Some \<circ> FileNode) cs" "\<forall>c \<in> set cs. c \<noteq> []" "acc + length (concat cs) < 2 ^ 64"
    and "\<forall>p \<in> set ps. reliable (seg_file p)"
  shows "\<exists>qs len. open_parts (disk_files d) paths ps acc = Inr (qs, len) \<and> (\<forall>p \<in> set qs. reliable (seg_file p))"
  using assms
proof (induction paths arbitrary: cs ps acc)
  case (Cons p paths)
  then obtain c cs' where cs: "cs = c # cs'" "nodes d p = Some (FileNode c)" "map (nodes d) paths = map (Some \<circ> FileNode) cs'"
    by (cases cs) auto
  have c: "c \<noteq> []" "acc + length c < 2 ^ 64" using Cons.prems(2,3) cs(1) by auto
  show ?case
    using Cons.IH [OF cs(3), of "acc + length c" "ps @ [\<lparr>seg_path = p, seg_file = plain_file c, seg_start = acc, seg_len = length c, file_position = 0\<rparr>]"]
      Cons.prems cs c by (simp add: disk_files_def checked_add_u64_def plain_file_reliable add.assoc)
qed simp

lemma seg_open_files:
  assumes "map (nodes d) paths = map (Some \<circ> FileNode) cs" "\<forall>c \<in> set cs. c \<noteq> []" "length (concat cs) < 2 ^ 64" "paths \<noteq> []"
  shows "\<exists>s. seg_open (disk_files d) paths = Inr s \<and> source_ok (SourceMulti s) \<and> source_rest (SourceMulti s) = concat cs"
proof -
  obtain qs len where q: "open_parts (disk_files d) paths [] 0 = Inr (qs, len)" "\<forall>p \<in> set qs. reliable (seg_file p)"
    using open_parts_files [OF assms(1,2), of 0 "[]"] assms(3) by auto
  let ?s = "\<lparr>parts = qs, total_len = len, position = 0\<rparr>"
  have s: "seg_open (disk_files d) paths = Inr ?s" using q(1) assms(4) by (simp add: seg_open_def)
  have "seg_seek (SeekStart 0) ?s = (Inr 0, ?s)" by (simp add: seg_seek_def)
  note o = opened_reader [OF disk_files_honest s this]
  have "map (\<lambda>p. contents (fst (projr (disk_files d p)))) paths = cs"
    using assms(1) by (induction paths arbitrary: cs) (auto simp: disk_files_def plain_file_def)
  then show ?thesis using s o q(2) by (auto simp: all_reliable_def)
qed

lemma read_back:
  assumes "discover_7z_read_volume_paths read_dir path = Inr paths" "map (nodes d) paths = map (Some \<circ> FileNode) cs"
    and "\<forall>c \<in> set cs. c \<noteq> []" "length (concat cs) < 2 ^ 64" "paths \<noteq> []"
  shows "\<exists>s. open_7z_reader read_dir (disk_files d) path = Inr s \<and> source_ok s \<and> source_rest s = concat cs"
proof (cases "1 < length paths")
  case True
  obtain s where "seg_open (disk_files d) paths = Inr s" "source_ok (SourceMulti s)" "source_rest (SourceMulti s) = concat cs"
    using seg_open_files [OF assms(2-5)] by blast
  then show ?thesis using True assms(1) by (simp add: open_7z_reader_def)
next
  case False
  then obtain p where p: "paths = [p]" using assms(5) by (cases paths) auto
  then obtain c where "cs = [c]" "nodes d p = Some (FileNode c)" using assms(2) by auto
  then show ?thesis using p assms(1)
    by (auto simp: open_7z_reader_def disk_files_def plain_file_always_reads) (simp add: plain_file_def)
qed

lemma discover_split:
  assumes numbers: "\<And>m k. part_name (sevenz_matcher (to_ascii_lowercase name)) entries m k \<longleftrightarrow>
      0 < k \<and> k \<le> n \<and> m = name @ ''.'' @ pad3 k"
    and read_dir: "read_dir dir = Inr entries"
    and name: "has_7z_extension (to_ascii_lowercase name)" "plain_name name" "is_utf8 name" "0 < n" "n \<le> 999"
    and path: "path \<in> set ((dir @ [Normal name]) # sevenz_volume_paths (dir @ [Normal name]) n)"
  shows "discover_7z_read_volume_paths read_dir path = Inr (sevenz_volume_paths (dir @ [Normal name]) n)"
proof -
  let ?f = "sevenz_matcher (to_ascii_lowercase name)" and ?ps = "sevenz_volume_paths (dir @ [Normal name]) n"
  let ?m = "volume_parts (sevenz_matcher (to_ascii_lowercase name)) dir entries"
  have K: "part_numbers ?f entries = {1 .. n}" by (auto simp: part_numbers_def numbers Suc_le_eq)
  then have ne: "?m \<noteq> []" using sevenz.empty_iff [of "to_ascii_lowercase name" dir entries] name(4) by simp
  have "missing_part ?m = None"
    using sevenz.missing [OF ne] K by (cases "missing_part ?m") (auto simp: first_gap_def)
  note c = this sevenz.complete [OF ne this]
  have "{1 .. length ?m} = {1 .. n}" using c(2) unfolding complete_set_def K length_map by blast
  then have len: "length ?m = n" using name(4) by simp
  have "map snd ?m = ?ps"
  proof (rule nth_equalityI)
    show "length (map snd ?m) = length ?ps" by (simp add: len sevenz_volume_paths_def)
    fix i assume "i < length (map snd ?m)"
    then show "map snd ?m ! i = ?ps ! i"
      using c(2) len by (auto simp: complete_set_def numbers sevenz_volume_paths_def sevenz_volume_path_eq simp del: upt_Suc)
  qed
  moreover obtain x where x: "path = dir @ [Normal x]" "is_utf8 x" "volume_base_7z (to_ascii_lowercase x) = Some (to_ascii_lowercase name)"
  proof (cases "path = dir @ [Normal name]")
    case True
    then show ?thesis using that name volume_base_of_archive by blast
  next
    case False
    then have "path \<in> sevenz_volume_path (dir @ [Normal name]) ` {1 ..< Suc n}"
      using path by (simp add: sevenz_volume_paths_def del: upt_Suc)
    then obtain k where k: "path = sevenz_volume_path (dir @ [Normal name]) k" "k \<in> {1 ..< Suc n}" by (rule imageE)
    then have "0 < k" "k \<le> n" "path = dir @ [Normal (name @ ''.'' @ pad3 k)]" by (simp_all add: sevenz_volume_path_eq)
    then show ?thesis using that volume_base_of_volume [OF name(1), of k] is_utf8_volume [OF name(3)] name(5) by auto
  qed
  ultimately show ?thesis
    using discover_7z_by_parts [of path x "to_ascii_lowercase name" dir read_dir entries, OF _ x(2,3) _ read_dir refl] ne c(1) by simp
qed


definition split_disk :: disk where
  "split_disk = quiet_disk [[RootDir, Normal ''d''] \<mapsto> DirNode, [RootDir, Normal ''t''] \<mapsto> FileNode [1, 2, 3]]"

definition split_run :: "(sevenz_error, nat) result \<times> disk" where
  "split_run = split_7z_temp_archive (\<lambda>_. [''a.7z.002'', ''b'', ''a.7z.001'']) (\<lambda>_. ''1-2'') [RootDir, Normal ''t'']
     ([RootDir, Normal ''d''] @ [Normal ''a.7z'']) 2 False split_disk"

lemma split_run_ok: "fst split_run = Inr 2" "faults (snd split_run) (tick (snd split_run)) = None"
  by code_simp+

lemma split_disk_no_volumes:
  assumes "nodes split_disk ([RootDir, Normal ''d''] @ [Normal m]) \<noteq> None"
  shows "sevenz_matcher (to_ascii_lowercase ''a.7z'') m \<noteq> Some k"
  using assms by (simp add: split_disk_def quiet_disk_def)


section \<open>More than 999 volumes\<close>

text \<open>The thousandth volume is written with a number of four digits, which the reader does not
  take for a volume: a set of a thousand volumes or more is read as its first 999.\<close>

lemma thousandth_volume_is_not_found: "parse_7z_volume_file_name (name @ ''.'' @ pad3 1000) = None"
proof -
  have p: "pad3 1000 = ''1000''" by code_simp
  have "rsplit_once (CHR ''.'') (name @ ''.'' @ ''1000'') = Some (name, ''1000'')" by (simp add: rsplit_once_Some)
  then show ?thesis unfolding p by (simp add: parse_7z_volume_file_name_def SEVENZ_VOLUME_EXTENSION_WIDTH_def)
qed

text \<open>A path without a directory has the empty path for its parent, not none, so the scan asks for
  the directory with the empty name, which does not exist: no volume beside it is found.\<close>

lemma bare_name_finds_no_volumes:
  assumes "read_dir [] = Inl not_found"
  shows "discover_7z_read_volume_paths read_dir [Normal name] = Inr [[Normal name]]"
  using assms by (simp add: discover_7z_read_volume_paths_def path_parent_def not_found_def io_err_def split: option.splits)

end
