(* ===== verification/Raw_Stream.thy ===== *)
theory Raw_Stream
  imports Volume_Names Byte_Reader
begin

text \<open>
  Raw single-file compression streams (\<open>crates/zmanager-core/src/raw_stream_backend.rs\<close>) and the
  case-insensitive suffix helpers of \<open>crates/zmanager-core/src/strings.rs\<close>: recognising a stream by
  its name, the name of its output, the size gzip announces, and the copy of the decoded bytes into
  a writer that enforces the expanded-size limit.
\<close>

section \<open>Suffixes\<close>

definition strip_suffix_ignore_ascii_case :: "string \<Rightarrow> string \<Rightarrow> string option" where
  "strip_suffix_ignore_ascii_case value suf =
     (if length suf \<le> length value \<and> eq_ignore_ascii_case (drop (length value - length suf) value) suf
      then Some (take (length value - length suf) value) else None)"

definition ends_with_ignore_ascii_case :: "string \<Rightarrow> string \<Rightarrow> bool" where
  "ends_with_ignore_ascii_case value suf \<longleftrightarrow> strip_suffix_ignore_ascii_case value suf \<noteq> None"

lemma ends_with_ignore_iff:
  "ends_with_ignore_ascii_case value suf \<longleftrightarrow> (\<exists>r. to_ascii_lowercase value = r @ to_ascii_lowercase suf)"
proof
  assume "ends_with_ignore_ascii_case value suf"
  then have "to_ascii_lowercase (drop (length value - length suf) value) = to_ascii_lowercase suf"
    by (auto simp: ends_with_ignore_ascii_case_def strip_suffix_ignore_ascii_case_def eq_ignore_ascii_case_def split: if_splits)
  then have "to_ascii_lowercase value = to_ascii_lowercase (take (length value - length suf) value) @ to_ascii_lowercase suf"
    unfolding to_ascii_lowercase_def by (metis append_take_drop_id map_append)
  then show "\<exists>r. to_ascii_lowercase value = r @ to_ascii_lowercase suf" by blast
next
  assume "\<exists>r. to_ascii_lowercase value = r @ to_ascii_lowercase suf"
  then obtain r where r: "map ascii_lower value = r @ map ascii_lower suf" by (auto simp: to_ascii_lowercase_def)
  have len: "length value = length r + length suf" using arg_cong [OF r, of length] by simp
  have "map ascii_lower (drop (length r) value) = map ascii_lower suf"
    using r by (simp add: drop_map [symmetric])
  then show "ends_with_ignore_ascii_case value suf"
    using len by (simp add: ends_with_ignore_ascii_case_def strip_suffix_ignore_ascii_case_def eq_ignore_ascii_case_def to_ascii_lowercase_def)
qed

section \<open>Formats\<close>

datatype raw_stream_format = Zstd | Gzip | Bzip2 | Xz | Lzma | Lzip | Brotli | Lz4 | Lzo | UnixCompress | Uu

fun raw_stream_name :: "raw_stream_format \<Rightarrow> string" where
  "raw_stream_name Zstd = ''zstd''"
| "raw_stream_name Gzip = ''gzip''"
| "raw_stream_name Bzip2 = ''bzip2''"
| "raw_stream_name Xz = ''xz''"
| "raw_stream_name Lzma = ''lzma''"
| "raw_stream_name Lzip = ''lzip''"
| "raw_stream_name Brotli = ''brotli''"
| "raw_stream_name Lz4 = ''lz4''"
| "raw_stream_name Lzo = ''lzop''"
| "raw_stream_name UnixCompress = ''compress''"
| "raw_stream_name Uu = ''uuencode''"

fun raw_suffixes :: "raw_stream_format \<Rightarrow> string list" where
  "raw_suffixes Zstd = [''.zst'']"
| "raw_suffixes Gzip = [''.gz'']"
| "raw_suffixes Bzip2 = [''.bz2'']"
| "raw_suffixes Xz = [''.xz'']"
| "raw_suffixes Lzma = [''.lzma'']"
| "raw_suffixes Lzip = [''.lz'']"
| "raw_suffixes Brotli = [''.br'']"
| "raw_suffixes Lz4 = [''.lz4'']"
| "raw_suffixes Lzo = [''.lzo'']"
| "raw_suffixes UnixCompress = [''.Z'']"
| "raw_suffixes Uu = [''.uu'', ''.b64'']"

definition RAW_STREAM_FORMATS :: "raw_stream_format list" where
  "RAW_STREAM_FORMATS = [Zstd, Gzip, Bzip2, Xz, Lzma, Lzip, Brotli, Lz4, Lzo, UnixCompress, Uu]"

definition RAW_STREAM_SUFFIXES :: "string list" where
  "RAW_STREAM_SUFFIXES =
     [raw_suffixes Zstd ! 0, raw_suffixes Gzip ! 0, raw_suffixes Bzip2 ! 0, raw_suffixes Xz ! 0, raw_suffixes Lzma ! 0,
      raw_suffixes Lzip ! 0, raw_suffixes Brotli ! 0, raw_suffixes Lz4 ! 0, raw_suffixes Lzo ! 0,
      raw_suffixes UnixCompress ! 0, raw_suffixes Uu ! 0, raw_suffixes Uu ! 1]"

definition CONTAINER_SUFFIXES :: "string list" where
  "CONTAINER_SUFFIXES =
     [''.tar.zst'', ''.tzst'', ''.tar.gz'', ''.tgz'', ''.taz'', ''.tar.bz2'', ''.tbz'', ''.tbz2'', ''.tar.xz'', ''.txz'',
      ''.tar.lzma'', ''.tlzma'', ''.tar.lz'', ''.tlz'', ''.tar.lzo'', ''.tlzo'', ''.tar.z'', ''.tz'', ''.tar.lz4'', ''.tlz4'',
      ''.tar.uu'', ''.tar.b64'', ''.tar.br'', ''.tbr'', ''.cpio.gz'', ''.cpgz'', ''.cpio.bz2'', ''.cpio.xz'', ''.cpio.lzma'',
      ''.cpio.zst'', ''.cpio.lz'', ''.cpio.lzo'', ''.cpio.z'', ''.cpio.lz4'', ''.cpio.br'']"

definition is_compressed_archive_container :: "string \<Rightarrow> bool" where
  "is_compressed_archive_container name = list_ex (ends_with_ignore_ascii_case name) CONTAINER_SUFFIXES"

definition detect_raw_stream_format :: "path \<Rightarrow> raw_stream_format option" where
  "detect_raw_stream_format p =
     Option.bind (Option.bind (path_file_name p) to_str) (\<lambda>name.
       if is_compressed_archive_container name then None
       else find (\<lambda>format. list_ex (ends_with_ignore_ascii_case name) (raw_suffixes format)) RAW_STREAM_FORMATS)"

fun find_map :: "('a \<Rightarrow> 'b option) \<Rightarrow> 'a list \<Rightarrow> 'b option" where
  "find_map f [] = None"
| "find_map f (x # xs) = (case f x of None \<Rightarrow> find_map f xs | Some y \<Rightarrow> Some y)"

definition output_name_for_raw_stream :: "path \<Rightarrow> raw_stream_format \<Rightarrow> string option" where
  "output_name_for_raw_stream p format =
     Option.bind (Option.bind (path_file_name p) to_str) (\<lambda>name.
     Option.bind (find_map (strip_suffix_ignore_ascii_case name) (raw_suffixes format)) (\<lambda>stem.
       if stem \<noteq> [] then Some stem else None))"

section \<open>The size gzip announces\<close>

definition u32_le :: "u8 list \<Rightarrow> nat" where
  "u32_le bs = foldr (\<lambda>b n. unat b + 256 * n) bs 0"

text \<open>On the contents of the file, every read of which succeeds.\<close>

definition estimate_gzip_uncompressed_size :: "bytes \<Rightarrow> nat option" where
  "estimate_gzip_uncompressed_size archive =
     (if length archive < 2 \<or> take 2 archive \<noteq> [0x1f, 0x8b] then None
      else if length archive < 3 \<or> archive ! 2 \<noteq> 8 then None
      else if length archive < 18 then None
      else Some (u32_le (drop (length archive - 4) archive)))"

definition estimate_raw_stream_uncompressed_size :: "bytes \<Rightarrow> raw_stream_format \<Rightarrow> nat option" where
  "estimate_raw_stream_uncompressed_size archive format =
     (case format of Gzip \<Rightarrow> estimate_gzip_uncompressed_size archive | _ \<Rightarrow> None)"

section \<open>Writers\<close>

text \<open>
  A writer takes a prefix of the bytes it is offered and says how many, or fails and takes none.
  \<open>taken\<close> is what it has taken so far.
\<close>

locale byte_writer =
  fixes wr :: "bytes \<Rightarrow> 'w \<Rightarrow> (io_error, nat) result \<times> 'w"
    and taken :: "'w \<Rightarrow> bytes"
  assumes write_ok: "wr bs s = (Inr n, t) \<Longrightarrow> n \<le> length bs \<and> taken t = taken s @ take n bs"
    and write_err: "wr bs s = (Inl e, t) \<Longrightarrow> taken t = taken s"
begin

lemma write_extends: "wr bs s = (r, t) \<Longrightarrow> \<exists>n \<le> length bs. taken t = taken s @ take n bs"
  by (cases r) (use write_ok write_err in \<open>fastforce\<close>)+

end

text \<open>A file open for writing: what has been written, and how the operating system answers a write
  of \<open>n\<close> bytes at an offset.\<close>

record file_sink =
  stored :: bytes
  os_write :: "nat \<Rightarrow> nat \<Rightarrow> (io_error, nat) result"

definition sink_write :: "bytes \<Rightarrow> file_sink \<Rightarrow> (io_error, nat) result \<times> file_sink" where
  "sink_write bs f =
     (case os_write f (length (stored f)) (length bs) of
        Inl e \<Rightarrow> (Inl e, f)
      | Inr k \<Rightarrow> let n = min k (length bs) in (Inr n, f\<lparr>stored := stored f @ take n bs\<rparr>))"

interpretation file_sinks: byte_writer sink_write stored
  by unfold_locales (auto simp: sink_write_def Let_def min_def split: sum.splits)

text \<open>\<open>Write::write_all\<close>, with fuel for the retries after an interrupted write.\<close>

fun write_all :: "(bytes \<Rightarrow> 'w \<Rightarrow> (io_error, nat) result \<times> 'w) \<Rightarrow> nat \<Rightarrow> bytes \<Rightarrow> 'w \<Rightarrow> ((io_error, unit) result \<times> 'w) option" where
  "write_all wr fuel [] w = Some (Inr (), w)"
| "write_all wr 0 (b # bs) w = None"
| "write_all wr (Suc fuel) (b # bs) w =
     (case wr (b # bs) w of
        (Inr 0, w') \<Rightarrow> Some (Inl \<lparr>kind = OtherKind ''WriteZero'', message = ''failed to write whole buffer''\<rparr>, w')
      | (Inr n, w') \<Rightarrow> write_all wr fuel (drop n (b # bs)) w'
      | (Inl e, w') \<Rightarrow> if kind e = Interrupted then write_all wr fuel (b # bs) w' else Some (Inl e, w'))"

section \<open>The size limit\<close>

record 'w size_limit_writer =
  limit_inner :: 'w
  max_bytes :: "nat option"
  written_bytes :: nat

definition limit_new :: "'w \<Rightarrow> nat option \<Rightarrow> 'w size_limit_writer" where
  "limit_new w m = \<lparr>limit_inner = w, max_bytes = m, written_bytes = 0\<rparr>"

definition expanded_size_limit_error :: "nat \<Rightarrow> nat \<Rightarrow> io_error" where
  "expanded_size_limit_error m n =
     \<lparr>kind = OtherKind ''other'', message = ''expanded stream reached '' @ decimal n @ '' bytes, exceeding the '' @ decimal m @ '' byte limit''\<rparr>"

definition limit_write ::
  "(bytes \<Rightarrow> 'w \<Rightarrow> (io_error, nat) result \<times> 'w) \<Rightarrow> bytes \<Rightarrow> 'w size_limit_writer \<Rightarrow> (io_error, nat) result \<times> 'w size_limit_writer" where
  "limit_write wr buffer self =
     (case max_bytes self of
        None \<Rightarrow> (case wr buffer (limit_inner self) of (r, w) \<Rightarrow> (r, self\<lparr>limit_inner := w\<rparr>))
      | Some m \<Rightarrow>
          if m \<le> written_bytes self then (Inl (expanded_size_limit_error m (written_bytes self)), self)
          else let allowed = min (m - written_bytes self) (length buffer) in
               case wr (take allowed buffer) (limit_inner self) of
                 (Inl e, w) \<Rightarrow> (Inl e, self\<lparr>limit_inner := w\<rparr>)
               | (Inr n, w) \<Rightarrow> (Inr n, self\<lparr>limit_inner := w, written_bytes := written_bytes self + n\<rparr>))"

text \<open>\<open>copy_bytes_with_progress\<close>: read a buffer, write all of it, until a read returns nothing.  The
  total is a saturating \<open>u64\<close>; the calls of the progress function are returned as the list of its
  arguments.\<close>

definition DEFAULT_IO_BUFFER_BYTES :: nat where "DEFAULT_IO_BUFFER_BYTES = 131072"

fun copy_bytes_with_progress ::
  "(nat \<Rightarrow> 's \<Rightarrow> (io_error, bytes) result \<times> 's) \<Rightarrow> (bytes \<Rightarrow> 'w \<Rightarrow> (io_error, nat) result \<times> 'w) \<Rightarrow> nat \<Rightarrow> nat
     \<Rightarrow> nat \<Rightarrow> nat list \<Rightarrow> 's \<Rightarrow> 'w \<Rightarrow> ((io_error, nat \<times> nat list) result \<times> 's \<times> 'w) option" where
  "copy_bytes_with_progress rd wr chunk 0 total_written progress r w = None"
| "copy_bytes_with_progress rd wr chunk (Suc fuel) total_written progress r w =
     (case rd chunk r of
        (Inl e, r') \<Rightarrow> Some (Inl e, r', w)
      | (Inr [], r') \<Rightarrow> Some (Inr (total_written, progress), r', w)
      | (Inr bs, r') \<Rightarrow>
          (case write_all wr (length bs) bs w of
             None \<Rightarrow> None
           | Some (Inl e, w') \<Rightarrow> Some (Inl e, r', w')
           | Some (Inr _, w') \<Rightarrow>
               copy_bytes_with_progress rd wr chunk fuel (min (total_written + length bs) (2 ^ 64 - 1)) (progress @ [length bs]) r' w'))"

section \<open>The limit holds\<close>

context byte_writer
begin

lemma limit_write_ok:
  assumes "limit_write wr buffer self = (Inr n, t)"
  shows "n \<le> length buffer \<and> taken (limit_inner t) = taken (limit_inner self) @ take n buffer"
proof (cases "max_bytes self")
  case None
  then show ?thesis using assms write_ok [of buffer "limit_inner self" n] by (auto simp: limit_write_def split: prod.splits)
next
  case (Some m)
  define k where "k = min (m - written_bytes self) (length buffer)"
  then obtain w where "wr (take k buffer) (limit_inner self) = (Inr n, w)" "limit_inner t = w"
    using assms Some by (auto simp: limit_write_def Let_def split: prod.splits sum.splits if_splits)
  then have "n \<le> length (take k buffer)" "taken (limit_inner t) = taken (limit_inner self) @ take n (take k buffer)"
    using write_ok [of "take k buffer" "limit_inner self" n w] by auto
  then show ?thesis by (simp add: min_absorb1)
qed

lemma limit_write_err: "limit_write wr buffer self = (Inl e, t) \<Longrightarrow> taken (limit_inner t) = taken (limit_inner self)"
  by (auto simp: limit_write_def Let_def dest: write_err split: option.splits prod.splits sum.splits if_splits)

end

interpretation limited_sinks: byte_writer "limit_write sink_write" "\<lambda>s. stored (limit_inner s)"
  using file_sinks.limit_write_ok file_sinks.limit_write_err by unfold_locales

definition reliable_sink :: "file_sink \<Rightarrow> bool" where
  "reliable_sink f \<longleftrightarrow> (\<forall>offset n. 0 < n \<longrightarrow> (\<exists>k > 0. os_write f offset n = Inr k))"

lemma reliable_limit_write:
  assumes "reliable_sink (limit_inner self)" "max_bytes self = Some m" "written_bytes self < m" "bs \<noteq> []"
  obtains n where "0 < n" "n \<le> length bs" "n \<le> m - written_bytes self"
    "limit_write sink_write bs self = (Inr n, self\<lparr>limit_inner := (limit_inner self)\<lparr>stored := stored (limit_inner self) @ take n bs\<rparr>,
       written_bytes := written_bytes self + n\<rparr>)"
proof -
  let ?a = "min (m - written_bytes self) (length bs)"
  have a: "0 < ?a" using assms(3,4) by simp
  then obtain k where k: "0 < k" "os_write (limit_inner self) (length (stored (limit_inner self))) ?a = Inr k"
    using assms(1) unfolding reliable_sink_def by blast
  have "limit_write sink_write bs self = (Inr (min k ?a), self\<lparr>limit_inner := (limit_inner self)\<lparr>stored := stored (limit_inner self) @ take (min k ?a) bs\<rparr>,
       written_bytes := written_bytes self + min k ?a\<rparr>)"
    using assms(2,3) k(2) by (simp add: limit_write_def sink_write_def Let_def min.commute min.left_commute min_absorb2)
  then show ?thesis using that [of "min k ?a"] a k(1) by simp
qed

lemma write_all_limited:
  assumes "reliable_sink (limit_inner self)" "max_bytes self = Some m" "written_bytes self \<le> m" "length bs \<le> fuel"
  shows "\<exists>t. write_all (limit_write sink_write) fuel bs self =
      Some (if written_bytes self + length bs \<le> m then Inr () else Inl (expanded_size_limit_error m m), t) \<and>
    stored (limit_inner t) = stored (limit_inner self) @ take (m - written_bytes self) bs \<and>
    written_bytes t = min m (written_bytes self + length bs) \<and> max_bytes t = Some m \<and> reliable_sink (limit_inner t)"
  using assms
proof (induction fuel arbitrary: bs self)
  case 0
  then show ?case by simp
next
  case (Suc fuel)
  show ?case
  proof (cases bs)
    case Nil
    then show ?thesis using Suc.prems by simp
  next
    case (Cons b cs)
    show ?thesis
    proof (cases "written_bytes self = m")
      case True
      then have "limit_write sink_write bs self = (Inl (expanded_size_limit_error m m), self)" using Suc.prems(2) by (simp add: limit_write_def)
      then show ?thesis using Cons True Suc.prems by (simp add: expanded_size_limit_error_def)
    next
      case False
      then have lt: "written_bytes self < m" using Suc.prems(3) by simp
      obtain n where n: "0 < n" "n \<le> length bs" "n \<le> m - written_bytes self" "limit_write sink_write bs self =
          (Inr n, self\<lparr>limit_inner := (limit_inner self)\<lparr>stored := stored (limit_inner self) @ take n bs\<rparr>, written_bytes := written_bytes self + n\<rparr>)"
        using reliable_limit_write [OF Suc.prems(1,2) lt] Cons by blast
      let ?t = "self\<lparr>limit_inner := (limit_inner self)\<lparr>stored := stored (limit_inner self) @ take n bs\<rparr>, written_bytes := written_bytes self + n\<rparr>"
      have s: "write_all (limit_write sink_write) (Suc fuel) bs self = write_all (limit_write sink_write) fuel (drop n bs) ?t"
        using n(1,4) Cons by (cases n) auto
      have pre: "reliable_sink (limit_inner ?t)" "max_bytes ?t = Some m" "written_bytes ?t \<le> m" "length (drop n bs) \<le> fuel"
        using Suc.prems n(1,3) lt by (simp_all add: reliable_sink_def)
      from Suc.IH [OF pre] obtain t where t: "write_all (limit_write sink_write) fuel (drop n bs) ?t =
          Some (if written_bytes self + n + length (drop n bs) \<le> m then Inr () else Inl (expanded_size_limit_error m m), t)"
        "stored (limit_inner t) = stored (limit_inner self) @ take n bs @ take (m - (written_bytes self + n)) (drop n bs)"
        "written_bytes t = min m (written_bytes self + n + length (drop n bs))" "max_bytes t = Some m" "reliable_sink (limit_inner t)"
        by auto
      have "take n bs @ take (m - (written_bytes self + n)) (drop n bs) = take (m - written_bytes self) bs"
      proof -
        have "n + (m - (written_bytes self + n)) = m - written_bytes self" using n(3) lt by simp
        then show ?thesis by (metis take_add)
      qed
      then show ?thesis using s t n(2) by auto
    qed
  qed
qed

lemma copy_limited:
  assumes "total_reader rd rinv rest" "0 < chunk"
  shows "rinv r \<Longrightarrow> reliable_sink (limit_inner w) \<Longrightarrow> max_bytes w = Some m \<Longrightarrow> written_bytes w \<le> m \<Longrightarrow> length (rest r) < fuel \<Longrightarrow>
    \<exists>x r' w'. copy_bytes_with_progress rd (limit_write sink_write) chunk fuel n ps r w = Some (x, r', w') \<and>
      stored (limit_inner w') = stored (limit_inner w) @ take (m - written_bytes w) (rest r) \<and>
      (if written_bytes w + length (rest r) \<le> m
       then \<exists>qs. x = Inr (if rest r = [] then n else min (n + length (rest r)) (2 ^ 64 - 1), ps @ qs) \<and> sum_list qs = length (rest r)
       else x = Inl (expanded_size_limit_error m m))"
proof (induction fuel arbitrary: r w n ps)
  case (Suc fuel)
  obtain bs r' where r': "rd chunk r = (Inr bs, r')" using total_reader.read_total [OF assms(1) Suc.prems(1)] by blast
  have ok: "rinv r'" "rest r = bs @ rest r'" "bs = [] \<longrightarrow> rest r = []"
    using byte_reader.read_ok [OF total_reader.axioms(1) [OF assms(1)] Suc.prems(1) r'] assms(2) by auto
  show ?case
  proof (cases "bs = []")
    case True
    then show ?thesis using r' ok(3) Suc.prems by auto
  next
    case False
    obtain t where t: "write_all (limit_write sink_write) (length bs) bs w =
        Some (if written_bytes w + length bs \<le> m then Inr () else Inl (expanded_size_limit_error m m), t)"
      "stored (limit_inner t) = stored (limit_inner w) @ take (m - written_bytes w) bs"
      "written_bytes t = min m (written_bytes w + length bs)" "max_bytes t = Some m" "reliable_sink (limit_inner t)"
      using write_all_limited [OF Suc.prems(2-4), of bs "length bs"] by auto
    show ?thesis
    proof (cases "written_bytes w + length bs \<le> m")
      case False
      then show ?thesis using r' t(1,2) ok \<open>bs \<noteq> []\<close> by (auto split: list.splits)
    next
      case True
      have lt: "length (rest r') < fuel" using Suc.prems(5) ok(2) \<open>bs \<noteq> []\<close> by (cases bs) auto
      have wt: "written_bytes t = written_bytes w + length bs" using t(3) True by simp
      obtain x r2 w2 where c: "copy_bytes_with_progress rd (limit_write sink_write) chunk fuel (min (n + length bs) (2 ^ 64 - 1)) (ps @ [length bs]) r' t =
          Some (x, r2, w2)" "stored (limit_inner w2) = stored (limit_inner t) @ take (m - written_bytes t) (rest r')"
        "if written_bytes t + length (rest r') \<le> m
         then \<exists>qs. x = Inr (if rest r' = [] then min (n + length bs) (2 ^ 64 - 1)
                            else min (min (n + length bs) (2 ^ 64 - 1) + length (rest r')) (2 ^ 64 - 1), (ps @ [length bs]) @ qs) \<and>
                    sum_list qs = length (rest r')
         else x = Inl (expanded_size_limit_error m m)"
        using Suc.IH [OF ok(1) t(5,4) _ lt, of "min (n + length bs) (2 ^ 64 - 1)" "ps @ [length bs]"] t(3) by auto
      have "copy_bytes_with_progress rd (limit_write sink_write) chunk (Suc fuel) n ps r w = Some (x, r2, w2)"
        using r' t(1) True c(1) \<open>bs \<noteq> []\<close> by (auto split: list.splits)
      moreover have "min (min (n + length bs) k + l) k = min (n + (length bs + l)) k" for k l by simp
      then have "if written_bytes w + length (rest r) \<le> m
         then \<exists>qs. x = Inr (if rest r = [] then n else min (n + length (rest r)) (2 ^ 64 - 1), ps @ qs) \<and> sum_list qs = length (rest r)
         else x = Inl (expanded_size_limit_error m m)"
      proof (cases "written_bytes w + length (rest r) \<le> m")
        case True
        then obtain qs where qs: "sum_list qs = length (rest r')" "x = Inr (if rest r' = [] then min (n + length bs) (2 ^ 64 - 1)
              else min (min (n + length bs) (2 ^ 64 - 1) + length (rest r')) (2 ^ 64 - 1), (ps @ [length bs]) @ qs)"
          using c(3) wt ok(2) by auto
        then have "x = Inr (min (n + length (rest r)) (2 ^ 64 - 1), ps @ length bs # qs)"
          using ok(2) by (cases "rest r' = []") (simp_all add: add.assoc)
        then show ?thesis using True qs(1) ok(2) \<open>bs \<noteq> []\<close> by (intro iffD2 [OF if_P] exI [of _ "length bs # qs"]) auto
      next
        case False
        then show ?thesis using c(3) wt ok(2) by simp
      qed
      moreover have "stored (limit_inner w2) = stored (limit_inner w) @ take (m - written_bytes w) (rest r)"
        using c(2) t(2) wt ok(2) True by simp
      ultimately show ?thesis by blast
    qed
  qed
qed simp

text \<open>
  C10. Decompression bombs stop at the limit.  Copying a decoder's output through the size-limited
  writer, from any decoder that does not fail and into any file that accepts its bytes a few at a
  time: if the decoded data fit within the limit the copy succeeds, reports their number (saturated
  at the largest \<open>u64\<close>) and every byte is in the file; otherwise it fails with the limit error, and
  the file has exactly the first \<open>m\<close> bytes, never more.
\<close>

theorem copy_enforces_size_limit:
  assumes "total_reader rd rinv rest" "rinv r" "0 < chunk" "reliable_sink f"
  shows "\<exists>progress r' w'.
    copy_bytes_with_progress rd (limit_write sink_write) chunk (Suc (length (rest r))) 0 [] r (limit_new f (Some m)) =
      Some (if length (rest r) \<le> m then Inr (min (length (rest r)) (2 ^ 64 - 1), progress)
            else Inl (expanded_size_limit_error m m), r', w') \<and>
    stored (limit_inner w') = stored f @ take m (rest r)"
proof -
  obtain x r' w' where c: "copy_bytes_with_progress rd (limit_write sink_write) chunk (Suc (length (rest r))) 0 [] r (limit_new f (Some m)) =
      Some (x, r', w')" "stored (limit_inner w') = stored f @ take m (rest r)"
    "if length (rest r) \<le> m
     then \<exists>qs. x = Inr (if rest r = [] then 0 else min (0 + length (rest r)) (2 ^ 64 - 1), [] @ qs) \<and> sum_list qs = length (rest r)
     else x = Inl (expanded_size_limit_error m m)"
    using copy_limited [OF assms(1,3,2), of "limit_new f (Some m)" m "Suc (length (rest r))" 0 "[]"] assms(4)
    by (auto simp: limit_new_def simp del: copy_bytes_with_progress.simps)
  have "\<exists>progress. x = (if length (rest r) \<le> m then Inr (min (length (rest r)) (2 ^ 64 - 1), progress) else Inl (expanded_size_limit_error m m))"
    using c(3) by (cases "length (rest r) \<le> m"; cases "rest r = []") auto
  then show ?thesis using c(1,2) by blast
qed

definition slow_sink :: file_sink where
  "slow_sink = \<lparr>stored = [9], os_write = (\<lambda>_ _. Inr 2)\<rparr>"

theorem copy_enforces_size_limit_witness:
  "\<exists>r' w'. copy_bytes_with_progress file_read (limit_write sink_write) 3 6 0 [] (plain_file [1, 2, 3, 4, 5]) (limit_new slow_sink (Some 4)) =
      Some (Inl (expanded_size_limit_error 4 4), r', w') \<and> stored (limit_inner w') = [9, 1, 2, 3, 4]"
proof -
  have r: "reliable_sink slow_sink" by (simp add: reliable_sink_def slow_sink_def)
  have e: "drop (cursor (plain_file [1, 2, 3, 4, 5 :: u8])) (contents (plain_file [1, 2, 3, 4, 5])) = [1, 2, 3, 4, 5]"
    by (simp add: plain_file_def)
  have n: "Suc (length [1, 2, 3, 4, 5 :: u8]) = 6" "(0 :: nat) < 3" by simp_all
  show ?thesis
    using copy_enforces_size_limit [OF reliable_files.total_reader_axioms plain_file_always_reads n(2) r, of "[1, 2, 3, 4, 5]" 4]
    unfolding e n(1) by (simp add: slow_sink_def del: copy_bytes_with_progress.simps)
qed

section \<open>Names\<close>

lemma strip_suffix_Some:
  "strip_suffix_ignore_ascii_case value suf = Some stem \<longleftrightarrow> (\<exists>s. value = stem @ s \<and> eq_ignore_ascii_case s suf)"
proof
  assume s: "strip_suffix_ignore_ascii_case value suf = Some stem"
  then have "value = stem @ drop (length value - length suf) value" "eq_ignore_ascii_case (drop (length value - length suf) value) suf"
    by (auto simp: strip_suffix_ignore_ascii_case_def split: if_splits)
  then show "\<exists>s. value = stem @ s \<and> eq_ignore_ascii_case s suf" by blast
next
  assume "\<exists>s. value = stem @ s \<and> eq_ignore_ascii_case s suf"
  then obtain s where s: "value = stem @ s" "eq_ignore_ascii_case s suf" by blast
  have "length s = length suf" using s(2) unfolding eq_ignore_ascii_case_def to_ascii_lowercase_def by (metis length_map)
  then show "strip_suffix_ignore_ascii_case value suf = Some stem" using s by (simp add: strip_suffix_ignore_ascii_case_def)
qed

text \<open>A recognised stream whose name is more than its suffix has an output name: the file name
  without the suffix.\<close>

lemma raw_stream_output_name:
  assumes "detect_raw_stream_format p = Some format"
  obtains name stem s where "path_file_name p = Some name" "name = stem @ s" "output_name_for_raw_stream p format = (if stem = [] then None else Some stem)"
proof -
  obtain name where name: "path_file_name p = Some name" "is_utf8 name"
    and f: "find (\<lambda>format. list_ex (ends_with_ignore_ascii_case name) (raw_suffixes format)) RAW_STREAM_FORMATS = Some format"
    using assms by (auto simp: detect_raw_stream_format_def bind_eq_Some_conv to_str_def split: if_splits)
  then have "list_ex (ends_with_ignore_ascii_case name) (raw_suffixes format)" by (auto simp: find_Some_iff)
  then have "find_map (strip_suffix_ignore_ascii_case name) (raw_suffixes format) \<noteq> None"
    by (cases format) (auto simp: ends_with_ignore_ascii_case_def split: option.splits)
  then obtain stem where st: "find_map (strip_suffix_ignore_ascii_case name) (raw_suffixes format) = Some stem" by auto
  then obtain suf where "strip_suffix_ignore_ascii_case name suf = Some stem"
    by (cases format) (auto split: option.splits)
  then obtain s where "name = stem @ s" by (auto simp: strip_suffix_Some)
  then show ?thesis using that [of name stem s] name st by (simp add: output_name_for_raw_stream_def to_str_def)
qed

end
