(* ===== verification/Archive_Format.thy ===== *)
theory Archive_Format
  imports Raw_Stream
begin

text \<open>
  Canonical archive-format detection (\<open>crates/zmanager-core/src/archive_format.rs\<close>): the extension
  lists, the capability table with the availability of each backend, detection by name in its
  order of priority, and detection by content for files without a useful extension.  What
  detection asks of its surroundings is the record \<open>format_probe\<close>: Unicode lowercasing, whether
  a sibling file exists, the contents of the file, the first bytes a gzip decoder gives for it,
  and the \<open>tzap-core\<close> library's extension and volume-name test.
\<close>

section \<open>Extensions\<close>

definition ZIP_FAMILY_EXTENSIONS :: "string list" where
  "ZIP_FAMILY_EXTENSIONS = [''.zip'', ''.zipx'', ''.jar'', ''.war'', ''.ipa'', ''.apk'', ''.appx'', ''.xpi'', ''.cbz'', ''.epub'']"

definition SEVEN_Z_EXTENSIONS :: "string list" where
  "SEVEN_Z_EXTENSIONS = [''.7z'', ''.cb7'', ''.sevenz'']"

definition RAR_EXTENSIONS :: "string list" where
  "RAR_EXTENSIONS = [''.rar'', ''.cbr'']"

definition TAR_EXTENSIONS :: "string list" where
  "TAR_EXTENSIONS = [''.tar'', ''.cbt'', ''.pax'', ''.ustar'']"

definition TAR_BZ2_EXTENSIONS :: "string list" where
  "TAR_BZ2_EXTENSIONS = [''.tar.bz2'', ''.tbz2'', ''.tbz'']"

definition TAR_XZ_EXTENSIONS :: "string list" where
  "TAR_XZ_EXTENSIONS = [''.tar.xz'', ''.txz'']"

definition TAR_LZMA_EXTENSIONS :: "string list" where
  "TAR_LZMA_EXTENSIONS = [''.tar.lzma'', ''.tlzma'']"

definition TAR_LZ_EXTENSIONS :: "string list" where
  "TAR_LZ_EXTENSIONS = [''.tar.lz'']"

definition TAR_LZO_EXTENSIONS :: "string list" where
  "TAR_LZO_EXTENSIONS = [''.tar.lzo'']"

definition TAR_COMPRESS_EXTENSIONS :: "string list" where
  "TAR_COMPRESS_EXTENSIONS = [''.tar.z'', ''.taz'']"

definition TAR_LZ4_EXTENSIONS :: "string list" where
  "TAR_LZ4_EXTENSIONS = [''.tar.lz4'']"

definition TAR_UU_EXTENSIONS :: "string list" where
  "TAR_UU_EXTENSIONS = [''.tar.uu'', ''.tar.b64'']"

definition ISO_EXTENSIONS :: "string list" where
  "ISO_EXTENSIONS = [''.iso'']"

definition CAB_EXTENSIONS :: "string list" where
  "CAB_EXTENSIONS = [''.cab'']"

definition CPIO_EXTENSIONS :: "string list" where
  "CPIO_EXTENSIONS = [''.cpio'', ''.cpio.gz'', ''.cpgz'', ''.cpio.bz2'', ''.cpio.xz'', ''.cpio.lzma'', ''.cpio.zst'']"

definition RPM_EXTENSIONS :: "string list" where
  "RPM_EXTENSIONS = [''.rpm'']"

definition XAR_EXTENSIONS :: "string list" where
  "XAR_EXTENSIONS = [''.xar'']"

definition PKG_EXTENSIONS :: "string list" where
  "PKG_EXTENSIONS = [''.pkg'']"

definition DMG_EXTENSIONS :: "string list" where
  "DMG_EXTENSIONS = [''.dmg'']"

definition LHA_EXTENSIONS :: "string list" where
  "LHA_EXTENSIONS = [''.lha'', ''.lzh'']"

definition AR_EXTENSIONS :: "string list" where
  "AR_EXTENSIONS = [''.a'', ''.ar'', ''.lib'']"

definition WARC_EXTENSIONS :: "string list" where
  "WARC_EXTENSIONS = [''.warc'']"

definition MTREE_EXTENSIONS :: "string list" where
  "MTREE_EXTENSIONS = [''.mtree'']"

definition TAR_ZST_EXTENSIONS :: "string list" where
  "TAR_ZST_EXTENSIONS = [''.tar.zst'', ''.tzst'']"

definition TGZ_EXTENSIONS :: "string list" where
  "TGZ_EXTENSIONS = [''.tgz'', ''.tar.gz'']"

definition TZAP_EXTENSIONS :: "string list" where
  "TZAP_EXTENSIONS = [''.tzap'']"

definition APPLE_ARCHIVE_EXTENSIONS :: "string list" where
  "APPLE_ARCHIVE_EXTENSIONS = [''.aar'', ''.aea'']"

definition DEB_EXTENSIONS :: "string list" where
  "DEB_EXTENSIONS = [''.deb'']"

definition MSI_EXTENSIONS :: "string list" where
  "MSI_EXTENSIONS = [''.msi'']"

definition VHD_EXTENSIONS :: "string list" where
  "VHD_EXTENSIONS = [''.vhd'']"

definition VMDK_EXTENSIONS :: "string list" where
  "VMDK_EXTENSIONS = [''.vmdk'']"

definition UDF_EXTENSIONS :: "string list" where
  "UDF_EXTENSIONS = [''.udf'']"

definition SQUASHFS_EXTENSIONS :: "string list" where
  "SQUASHFS_EXTENSIONS = [''.squashfs'', ''.sqfs'']"

definition APPIMAGE_EXTENSIONS :: "string list" where
  "APPIMAGE_EXTENSIONS = [''.appimage'']"

definition WIM_EXTENSIONS :: "string list" where
  "WIM_EXTENSIONS = [''.wim'', ''.swm'']"

definition VDI_EXTENSIONS :: "string list" where
  "VDI_EXTENSIONS = [''.vdi'']"

definition NRG_EXTENSIONS :: "string list" where
  "NRG_EXTENSIONS = [''.nrg'']"

definition MDF_EXTENSIONS :: "string list" where
  "MDF_EXTENSIONS = [''.mdf'', ''.mds'']"

definition CDI_EXTENSIONS :: "string list" where
  "CDI_EXTENSIONS = [''.cdi'']"

definition ISZ_EXTENSIONS :: "string list" where
  "ISZ_EXTENSIONS = [''.isz'']"

definition CCD_EXTENSIONS :: "string list" where
  "CCD_EXTENSIONS = [''.ccd'']"

definition CUE_EXTENSIONS :: "string list" where
  "CUE_EXTENSIONS = [''.cue'']"

definition VHDX_EXTENSIONS :: "string list" where
  "VHDX_EXTENSIONS = [''.vhdx'']"

definition QCOW2_EXTENSIONS :: "string list" where
  "QCOW2_EXTENSIONS = [''.qcow2'', ''.qcow'']"

definition EWF_EXTENSIONS :: "string list" where
  "EWF_EXTENSIONS = [''.e01'', ''.ex01'']"

definition AD1_EXTENSIONS :: "string list" where
  "AD1_EXTENSIONS = [''.ad1'']"

definition DAR_EXTENSIONS :: "string list" where
  "DAR_EXTENSIONS = [''.dar'']"

definition AFF4_EXTENSIONS :: "string list" where
  "AFF4_EXTENSIONS = [''.aff4'']"

definition RAW_DISK_EXTENSIONS :: "string list" where
  "RAW_DISK_EXTENSIONS = [''.raw'', ''.dd'', ''.dsk'', ''.img'']"

section \<open>The capability table\<close>

datatype backend_status = Available | UnsupportedPlatform | Unavailable string

datatype (plugins only: code size) archive_format_kind =
    Zip | SplitZip | SevenZ | TarZst | TarGz | Tar | TarBz2 | TarXz | TarLzma | TarLz | TarLzo
  | TarCompress | TarLz4 | TarUu | Iso | Cab | Cpio | Rpm | Xar | Pkg | Dmg | Lha | Ar | Warc | Mtree
  | Tzap | Rar | AppleArchive | Deb | Msi | Vhd | Vmdk | Udf | Squashfs | AppImage | Wim | Vdi | Nrg
  | Mdf | Cdi | Isz | Ccd | Cue | Vhdx | Qcow2 | Ewf | Ad1 | Dar | Aff4 | RawDisk | RawStream | Unknown

record format_capability =
  cap_kind :: archive_format_kind
  extensions :: "string list"
  status :: backend_status

text \<open>The build for Linux: the Apple Archive backend is not available.\<close>

definition apple_archive_status :: backend_status where "apple_archive_status = UnsupportedPlatform"

definition mtree_status :: backend_status where "mtree_status = Available"

abbreviation capability :: "archive_format_kind \<Rightarrow> string list \<Rightarrow> backend_status \<Rightarrow> format_capability" where
  "capability k es s \<equiv> \<lparr>cap_kind = k, extensions = es, status = s\<rparr>"

definition FORMAT_CAPABILITIES :: "format_capability list" where
  "FORMAT_CAPABILITIES =
    [capability RawStream RAW_STREAM_SUFFIXES Available,
     capability Zip ZIP_FAMILY_EXTENSIONS Available,
     capability SplitZip [] Available,
     capability SevenZ SEVEN_Z_EXTENSIONS Available,
     capability Rar RAR_EXTENSIONS Available,
     capability TarZst TAR_ZST_EXTENSIONS Available,
     capability TarGz TGZ_EXTENSIONS Available,
     capability Tar TAR_EXTENSIONS Available,
     capability TarBz2 TAR_BZ2_EXTENSIONS Available,
     capability TarXz TAR_XZ_EXTENSIONS Available,
     capability TarLzma TAR_LZMA_EXTENSIONS Available,
     capability TarLz TAR_LZ_EXTENSIONS Available,
     capability TarLzo TAR_LZO_EXTENSIONS Available,
     capability TarCompress TAR_COMPRESS_EXTENSIONS Available,
     capability TarLz4 TAR_LZ4_EXTENSIONS Available,
     capability TarUu TAR_UU_EXTENSIONS Available,
     capability Iso ISO_EXTENSIONS Available,
     capability Cab CAB_EXTENSIONS Available,
     capability Cpio CPIO_EXTENSIONS Available,
     capability Rpm RPM_EXTENSIONS Available,
     capability Xar XAR_EXTENSIONS Available,
     capability Pkg PKG_EXTENSIONS Available,
     capability Dmg DMG_EXTENSIONS Available,
     capability Lha LHA_EXTENSIONS Available,
     capability Ar AR_EXTENSIONS Available,
     capability Warc WARC_EXTENSIONS Available,
     capability Mtree MTREE_EXTENSIONS mtree_status,
     capability Tzap [] Available,
     capability AppleArchive APPLE_ARCHIVE_EXTENSIONS apple_archive_status,
     capability Deb DEB_EXTENSIONS Available,
     capability Msi MSI_EXTENSIONS Available,
     capability Vhd VHD_EXTENSIONS Available,
     capability Vmdk VMDK_EXTENSIONS Available,
     capability Udf UDF_EXTENSIONS Available,
     capability Squashfs SQUASHFS_EXTENSIONS Available,
     capability AppImage APPIMAGE_EXTENSIONS Available,
     capability Wim WIM_EXTENSIONS Available,
     capability Vdi VDI_EXTENSIONS Available,
     capability Nrg NRG_EXTENSIONS Available,
     capability Mdf MDF_EXTENSIONS Available,
     capability Cdi CDI_EXTENSIONS Available,
     capability Isz ISZ_EXTENSIONS Available,
     capability Ccd CCD_EXTENSIONS Available,
     capability Cue CUE_EXTENSIONS Available,
     capability Vhdx VHDX_EXTENSIONS Available,
     capability Qcow2 QCOW2_EXTENSIONS Available,
     capability Ewf EWF_EXTENSIONS Available,
     capability Ad1 AD1_EXTENSIONS Available,
     capability Dar DAR_EXTENSIONS Available,
     capability Aff4 AFF4_EXTENSIONS Available,
     capability RawDisk RAW_DISK_EXTENSIONS Available]"

definition format_status :: "archive_format_kind \<Rightarrow> backend_status" where
  "format_status k =
     (case find (\<lambda>c. cap_kind c = k) FORMAT_CAPABILITIES of
        None \<Rightarrow> Unavailable ''format is not registered'' | Some c \<Rightarrow> status c)"

section \<open>Detection\<close>

record format_probe =
  to_lowercase :: "string \<Rightarrow> string"
  is_file :: "path \<Rightarrow> bool"
  file_contents :: "path \<Rightarrow> bytes option"
  gzip_prefix :: "bytes \<Rightarrow> bytes option"
  TZAP_EXTENSION :: string
  TZAP_EXTENSION_SUFFIX :: string
  is_volume_file_name :: "string \<Rightarrow> bool"

definition ends_with_any :: "path \<Rightarrow> string list \<Rightarrow> bool" where
  "ends_with_any p sufs =
     (case Option.bind (path_file_name p) to_str of
        None \<Rightarrow> False | Some name \<Rightarrow> list_ex (ends_with_ignore_ascii_case name) sufs)"

text \<open>\<open>name.get(..)\<close> is \<open>None\<close> when the cut is inside a character: the tail then starts with a
  continuation byte, and is no ASCII suffix.\<close>

definition is_tzap_volume_archive_file_name :: "format_probe \<Rightarrow> string \<Rightarrow> bool" where
  "is_tzap_volume_archive_file_name env name \<longleftrightarrow>
     (let suf = drop (length name - length (TZAP_EXTENSION_SUFFIX env)) name
      in \<not> (suf \<noteq> [] \<and> is_continuation (hd suf)) \<and> eq_ignore_ascii_case suf (TZAP_EXTENSION_SUFFIX env))
     \<and> is_volume_file_name env name"

definition is_tzap_archive_path :: "format_probe \<Rightarrow> path \<Rightarrow> bool" where
  "is_tzap_archive_path env p \<longleftrightarrow>
     (case Option.bind (path_extension p) to_str of None \<Rightarrow> False | Some e \<Rightarrow> eq_ignore_ascii_case e (TZAP_EXTENSION env)) \<or>
     (case Option.bind (path_file_name p) to_str of None \<Rightarrow> False | Some n \<Rightarrow> is_tzap_volume_archive_file_name env n)"

abbreviation ascii :: "string \<Rightarrow> bytes" where
  "ascii s \<equiv> map of_char s"

definition ZIP_MAGICS :: "bytes list" where
  "ZIP_MAGICS = [ascii ''PK'' @ [3, 4], ascii ''PK'' @ [5, 6], ascii ''PK'' @ [7, 8]]"

fun has_zip_magic :: "bytes \<Rightarrow> bool" where
  "has_zip_magic [] = False"
| "has_zip_magic (b # bs) =
     (if b = of_char (CHR ''P'') then
        if length (b # bs) < 4 then False
        else if take 4 (b # bs) \<in> set ZIP_MAGICS then True else has_zip_magic bs
      else has_zip_magic bs)"

definition slice :: "nat \<Rightarrow> nat \<Rightarrow> 'a list \<Rightarrow> 'a list" where
  "slice i j xs = take (j - i) (drop i xs)"

definition CONTENT_PREFIX_BYTES :: nat where "CONTENT_PREFIX_BYTES = 1048576"

definition detect_content_format :: "format_probe \<Rightarrow> path \<Rightarrow> archive_format_kind option" where
  "detect_content_format env p =
     Option.bind (file_contents env p) (\<lambda>contents.
       let prefix = take CONTENT_PREFIX_BYTES contents;
           after_gzip =
             (if starts_with prefix (ascii ''MSWIM'' @ [0, 0, 0]) then Some Wim
              else if starts_with prefix (ascii ''hsqs'') then Some Squashfs
              else if starts_with prefix (0x7f # ascii ''ELF'') \<and> 11 \<le> length prefix \<and> slice 8 11 prefix = [0x41, 0x49, 0x02] then Some AppImage
              else if 68 \<le> length prefix \<and> slice 64 68 prefix = [0x7f, 0x10, 0xda, 0xbe] then Some Vdi
              else if starts_with prefix (ascii ''IsZ!'') then Some Isz
              else if starts_with prefix (ascii ''vhdxfile'') then Some Vhdx
              else if starts_with prefix [0x51, 0x46, 0x49, 0xfb] then Some Qcow2
              else if starts_with prefix (ascii ''EVF'' @ [0x09, 0x0d, 0x0a, 0xff, 0x00])
                      \<or> starts_with prefix (ascii ''EVF2'' @ [0x0d, 0x0a, 0x81, 0x00]) then Some Ewf
              else if starts_with prefix (ascii ''ADSEGMENTEDFILE'' @ [0]) then Some Ad1
              else None)
       in if has_zip_magic prefix then Some Zip
          else if 265 \<le> length prefix \<and> (slice 257 263 prefix = ascii ''ustar'' @ [0] \<or> slice 257 263 prefix = ascii ''ustar '') then Some Tar
          else if starts_with prefix [0x1f, 0x8b] then
            (case gzip_prefix env contents of
               None \<Rightarrow> None
             | Some cpio_magic \<Rightarrow>
                 if cpio_magic \<in> {ascii ''070701'', ascii ''070702'', ascii ''070707''} then Some Cpio else after_gzip)
          else after_gzip)"

fun scan_capabilities :: "format_probe \<Rightarrow> path \<Rightarrow> format_capability list \<Rightarrow> archive_format_kind option" where
  "scan_capabilities env p [] = None"
| "scan_capabilities env p (c # cs) =
     (if cap_kind c \<in> {RawStream, SplitZip, SevenZ, Unknown} then scan_capabilities env p cs
      else if cap_kind c = Tzap \<and> is_tzap_archive_path env p then Some Tzap
      else if ends_with_any p (extensions c) then Some (cap_kind c)
      else scan_capabilities env p cs)"

definition detect_archive_format :: "format_probe \<Rightarrow> path \<Rightarrow> archive_format_kind" where
  "detect_archive_format env p =
     (if is_split_zip_archive_path (to_lowercase env) (is_file env) p then SplitZip
      else if detect_raw_stream_format p \<noteq> None then RawStream
      else if ends_with_any p ZIP_FAMILY_EXTENSIONS then Zip
      else if ends_with_any p SEVEN_Z_EXTENSIONS \<or> is_7z_volume_path p then SevenZ
      else case scan_capabilities env p FORMAT_CAPABILITIES of
             Some k \<Rightarrow> k
           | None \<Rightarrow> (case detect_content_format env p of None \<Rightarrow> Unknown | Some k \<Rightarrow> k))"

section \<open>The extensions do not overlap\<close>

text \<open>Two texts, read backwards and in lower case, can both be suffixes of one name only if one
  continues the other.\<close>

fun agree :: "'a list \<Rightarrow> 'a list \<Rightarrow> bool" where
  "agree (x # xs) (y # ys) = (if x = y then agree xs ys else False)"
| "agree _ _ = True"

lemma agree_take: "agree (take m xs) (take n xs)"
proof (induction xs arbitrary: m n)
  case (Cons x xs)
  then show ?case by (cases m; cases n) auto
qed simp

definition backwards :: "string \<Rightarrow> string" where
  "backwards s = rev (to_ascii_lowercase s)"

lemma ends_with_backwards:
  "ends_with_ignore_ascii_case name e \<longleftrightarrow> take (length (backwards e)) (backwards name) = backwards e"
proof -
  have "ends_with_ignore_ascii_case name e \<longleftrightarrow> (\<exists>r. backwards name = backwards e @ r)"
    unfolding ends_with_ignore_iff backwards_def by (metis rev_append rev_rev_ident)
  also have "\<dots> \<longleftrightarrow> take (length (backwards e)) (backwards name) = backwards e"
    by (metis append_eq_conv_conj append_take_drop_id)
  finally show ?thesis .
qed

lemma ends_with_both:
  assumes "ends_with_ignore_ascii_case name e" "ends_with_ignore_ascii_case name f"
  shows "agree (backwards e) (backwards f)"
proof -
  have "agree (take (length (backwards e)) (backwards name)) (take (length (backwards f)) (backwards name))" by (rule agree_take)
  then show ?thesis using assms unfolding ends_with_backwards by simp
qed

definition extension_table :: "(archive_format_kind \<times> string) list" where
  "extension_table =
     concat (map (\<lambda>c. map (\<lambda>e. (cap_kind c, backwards e)) (extensions c)) (filter (\<lambda>c. cap_kind c \<noteq> RawStream) FORMAT_CAPABILITIES))"

fun fits :: "archive_format_kind \<Rightarrow> string \<Rightarrow> (archive_format_kind \<times> string) list \<Rightarrow> bool" where
  "fits k a [] = True"
| "fits k a ((l, b) # table) = (if agree a b then if k = l then fits k a table else False else fits k a table)"

fun no_overlap :: "(archive_format_kind \<times> string) list \<Rightarrow> (archive_format_kind \<times> string) list \<Rightarrow> bool" where
  "no_overlap [] table = True"
| "no_overlap ((k, a) # rows) table = (if fits k a table then no_overlap rows table else False)"

lemma extensions_do_not_overlap: "no_overlap extension_table extension_table"
  by code_simp

lemma fitsD: "fits k a table \<Longrightarrow> (l, b) \<in> set table \<Longrightarrow> agree a b \<Longrightarrow> k = l"
  by (induction k a table rule: fits.induct) (auto split: if_splits)

lemma no_overlapD:
  "no_overlap rows table \<Longrightarrow> (k, a) \<in> set rows \<Longrightarrow> (l, b) \<in> set table \<Longrightarrow> agree a b \<Longrightarrow> k = l"
  by (induction rows table rule: no_overlap.induct) (auto dest: fitsD split: if_splits)

text \<open>Every extension that could be read as a raw stream is one of a container, none ends in
  \<open>.tzap\<close>, and what follows the last dot is not a number.\<close>

fun clear_of :: "string \<Rightarrow> string list \<Rightarrow> bool" where
  "clear_of a [] = True"
| "clear_of a (b # bs) = (if agree a b then False else clear_of a bs)"

fun continues :: "string \<Rightarrow> string list \<Rightarrow> bool" where
  "continues a [] = False"
| "continues a (b # bs) = (if agree a b then if length b \<le> length a then True else continues a bs else continues a bs)"

definition not_raw :: "string list \<Rightarrow> string list \<Rightarrow> string \<Rightarrow> bool" where
  "not_raw raws containers a = (if clear_of a raws then True else continues a containers)"

fun rows_not_raw :: "string list \<Rightarrow> string list \<Rightarrow> (archive_format_kind \<times> string) list \<Rightarrow> bool" where
  "rows_not_raw raws containers [] = True"
| "rows_not_raw raws containers ((k, a) # table) = (if not_raw raws containers a then rows_not_raw raws containers table else False)"

definition not_numbered :: "string \<Rightarrow> bool" where
  "not_numbered a = (CHR ''.'' \<in> set a \<and> \<not> list_all is_ascii_digit (takeWhile (\<lambda>c. c \<noteq> CHR ''.'') a))"

lemma extensions_not_raw: "rows_not_raw (map backwards RAW_STREAM_SUFFIXES) (map backwards CONTAINER_SUFFIXES) extension_table"
  by code_simp

lemma rows_not_rawD: "rows_not_raw raws containers table \<Longrightarrow> (k, a) \<in> set table \<Longrightarrow> not_raw raws containers a"
  by (induction raws containers table rule: rows_not_raw.induct) (auto split: if_splits)

lemma clear_of_iff: "clear_of a bs \<longleftrightarrow> (\<forall>b \<in> set bs. \<not> agree a b)"
  by (induction a bs rule: clear_of.induct) auto

lemma agree_prefix: "agree a b \<Longrightarrow> length b \<le> length a \<Longrightarrow> take (length b) a = b"
  by (induction a b rule: agree.induct) (auto split: if_splits)

lemma continuesD: "continues a bs \<Longrightarrow> \<exists>b \<in> set bs. take (length b) a = b"
  by (induction a bs rule: continues.induct) (auto split: if_splits dest: agree_prefix)

lemma extensions_not_special: "list_all (\<lambda>(k, a). not_numbered a \<and> \<not> agree a (backwards ''.tzap'')) extension_table"
  by code_simp

lemma table_member:
  "c \<in> set FORMAT_CAPABILITIES \<Longrightarrow> cap_kind c \<noteq> RawStream \<Longrightarrow> e \<in> set (extensions c) \<Longrightarrow> (cap_kind c, backwards e) \<in> set extension_table"
  by (auto simp: extension_table_def)

lemma capability_rows:
  "list_all (\<lambda>c. (cap_kind c = Zip \<longrightarrow> extensions c = ZIP_FAMILY_EXTENSIONS) \<and> (cap_kind c = SevenZ \<longrightarrow> extensions c = SEVEN_Z_EXTENSIONS) \<and>
     (cap_kind c = SplitZip \<longrightarrow> extensions c = []) \<and> cap_kind c \<noteq> Unknown) FORMAT_CAPABILITIES"
  by (simp add: FORMAT_CAPABILITIES_def)

lemma zip_and_7z_rows:
  "\<exists>c \<in> set FORMAT_CAPABILITIES. cap_kind c = Zip \<and> extensions c = ZIP_FAMILY_EXTENSIONS"
  "\<exists>c \<in> set FORMAT_CAPABILITIES. cap_kind c = SevenZ \<and> extensions c = SEVEN_Z_EXTENSIONS"
  by (simp_all add: FORMAT_CAPABILITIES_def)

lemma not_raw_name:
  assumes "not_raw (map backwards RAW_STREAM_SUFFIXES) (map backwards CONTAINER_SUFFIXES) (backwards e)" "ends_with_ignore_ascii_case name e" "\<not> is_compressed_archive_container name"
  shows "\<not> list_ex (ends_with_ignore_ascii_case name) (raw_suffixes format)"
proof
  assume "list_ex (ends_with_ignore_ascii_case name) (raw_suffixes format)"
  then obtain s where s: "s \<in> set (raw_suffixes format)" "ends_with_ignore_ascii_case name s" by (auto simp: list_ex_iff)
  have "s \<in> set RAW_STREAM_SUFFIXES" using s(1) by (cases format) (auto simp: RAW_STREAM_SUFFIXES_def)
  then have "continues (backwards e) (map backwards CONTAINER_SUFFIXES)"
    using assms(1) ends_with_both [OF assms(2) s(2)] by (auto simp: not_raw_def clear_of_iff split: if_splits)
  from continuesD [OF this] obtain c where c: "c \<in> set CONTAINER_SUFFIXES" "take (length (backwards c)) (backwards e) = backwards c"
    by auto
  have "backwards e = take (length (backwards e)) (backwards name)" using assms(2) by (simp add: ends_with_backwards)
  then have "take (length (backwards c)) (take (length (backwards e)) (backwards name)) = backwards c" using c(2) by simp
  moreover have "length (backwards c) \<le> length (backwards e)" using arg_cong [OF c(2), of length] by simp
  ultimately have "ends_with_ignore_ascii_case name c" by (simp add: ends_with_backwards min_absorb1)
  then show False using assms(3) c(1) by (auto simp: is_compressed_archive_container_def list_ex_iff)
qed

lemma not_numbered_name:
  assumes "not_numbered (backwards e)" "ends_with_ignore_ascii_case name e"
  shows "parse_7z_volume_file_name (to_ascii_lowercase name) = None"
proof (rule ccontr)
  assume "\<not> ?thesis"
  then obtain base num where n: "to_ascii_lowercase name = base @ CHR ''.'' # num" "CHR ''.'' \<notin> set num" "list_all is_ascii_digit num"
    by (auto simp: parse_7z_volume_file_name_def bind_eq_Some_conv rsplit_once_Some split: if_splits)
  have "takeWhile (\<lambda>c. c \<noteq> CHR ''.'') (backwards name) = rev num"
    using n(2) by (auto simp: backwards_def n(1) takeWhile_tail)
  moreover obtain r where "backwards name = backwards e @ r"
    using assms(2) unfolding ends_with_backwards by (metis append_take_drop_id)
  moreover have "takeWhile (\<lambda>c. c \<noteq> CHR ''.'') (backwards e @ r) = takeWhile (\<lambda>c. c \<noteq> CHR ''.'') (backwards e)"
    using assms(1) by (intro takeWhile_append1 [of "CHR ''.''"]) (auto simp: not_numbered_def)
  ultimately show False using assms(1) n(3) by (simp add: not_numbered_def list_all_iff)
qed

lemma not_tzap:
  assumes "path_file_name p = Some name" "ends_with_ignore_ascii_case name e" "\<not> agree (backwards e) (backwards ''.tzap'')"
    and "TZAP_EXTENSION env = ''tzap''" "TZAP_EXTENSION_SUFFIX env = ''.tzap''"
  shows "\<not> is_tzap_archive_path env p"
proof
  have no: "\<not> ends_with_ignore_ascii_case name ''.tzap''" using ends_with_both [OF assms(2)] assms(3) by blast
  assume "is_tzap_archive_path env p"
  then consider x where "path_extension p = Some x" "eq_ignore_ascii_case x ''tzap''"
    | "eq_ignore_ascii_case (drop (length name - 5) name) ''.tzap''"
    using assms(1,4,5)
    by (auto simp: is_tzap_archive_path_def is_tzap_volume_archive_file_name_def Let_def to_str_def bind_eq_Some_conv numeral_eq_Suc
        split: option.splits if_splits)
  then show False
  proof cases
    case 1
    then obtain b where b: "rsplit_file_at_dot name = (Some b, Some x)"
      using assms(1) by (auto simp: path_extension_def split: option.splits prod.splits)
    have dot: "to_ascii_lowercase ''.'' = ''.''" "to_ascii_lowercase ''.tzap'' = ''.'' @ to_ascii_lowercase ''tzap''" by code_simp+
    have "name = b @ ''.'' @ x" using rsplit_stem_cases [OF b] by auto
    then have "to_ascii_lowercase name = to_ascii_lowercase b @ to_ascii_lowercase ''.tzap''"
      using 1(2) by (simp only: dot eq_ignore_ascii_case_def lower_append)
    then show False using no ends_with_ignore_iff by blast
  next
    case 2
    have "length (drop (length name - 5) name) = length ''.tzap''"
      using 2 unfolding eq_ignore_ascii_case_def to_ascii_lowercase_def by (metis length_map)
    then have "5 \<le> length name" by simp
    then show False using no 2 by (simp add: ends_with_ignore_ascii_case_def strip_suffix_ignore_ascii_case_def numeral_eq_Suc)
  qed
qed

lemma scan_capabilities_row:
  assumes "\<And>c. c \<in> set cs \<Longrightarrow> cap_kind c \<notin> {RawStream, SplitZip, SevenZ, Unknown} \<Longrightarrow> ends_with_any p (extensions c) \<Longrightarrow> cap_kind c = k"
    and "\<not> is_tzap_archive_path env p" "c \<in> set cs" "cap_kind c = k" "k \<notin> {RawStream, SplitZip, SevenZ, Unknown}" "ends_with_any p (extensions c)"
  shows "scan_capabilities env p cs = Some k"
  using assms
proof (induction cs)
  case (Cons x cs)
  show ?case
  proof (cases "x = c")
    case True
    then show ?thesis using Cons.prems(2-6) by auto
  next
    case False
    then have "scan_capabilities env p cs = Some k" using Cons by (auto intro!: Cons.IH)
    then show ?thesis using Cons.prems(1) [of x] Cons.prems(2) by auto
  qed
qed simp

text \<open>
  Detection by extension follows the capability table.  A file whose name ends, in any case, in
  an extension listed for a format is detected as that format, whatever its contents and whatever
  other files exist, unless it is a split ZIP; in particular no row shadows another, no container
  is taken for a raw stream, and the order of the rows does not matter.
\<close>

theorem detect_archive_format_by_extension:
  assumes "c \<in> set FORMAT_CAPABILITIES" "cap_kind c \<noteq> RawStream" "e \<in> set (extensions c)"
    and "path_file_name p = Some name" "is_utf8 name" "ends_with_ignore_ascii_case name e"
    and "TZAP_EXTENSION env = ''tzap''" "TZAP_EXTENSION_SUFFIX env = ''.tzap''"
    and "\<not> is_split_zip_archive_path (to_lowercase env) (is_file env) p"
  shows "detect_archive_format env p = cap_kind c"
proof -
  have row: "(cap_kind c, backwards e) \<in> set extension_table" by (rule table_member [OF assms(1-3)])
  have any: "ends_with_any p es \<longleftrightarrow> (\<exists>f \<in> set es. ends_with_ignore_ascii_case name f)" for es
    using assms(4,5) by (auto simp: ends_with_any_def to_str_def list_ex_iff)
  have same: "cap_kind c' = cap_kind c"
    if row': "c' \<in> set FORMAT_CAPABILITIES" "cap_kind c' \<noteq> RawStream" "ends_with_any p (extensions c')" for c'
  proof -
    obtain f where f: "f \<in> set (extensions c')" "ends_with_ignore_ascii_case name f" using row'(3) any by blast
    have "(cap_kind c', backwards f) \<in> set extension_table" by (rule table_member [OF row'(1,2) f(1)])
    from no_overlapD [OF extensions_do_not_overlap this row ends_with_both [OF f(2) assms(6)]] show ?thesis .
  qed
  have self: "ends_with_any p (extensions c)" using any assms(3,6) by blast
  have special: "not_numbered (backwards e)" "\<not> agree (backwards e) (backwards ''.tzap'')"
    using extensions_not_special row by (auto simp: list_all_iff)
  have raw: "detect_raw_stream_format p = None"
    using not_raw_name [OF rows_not_rawD [OF extensions_not_raw row] assms(6)] assms(4,5)
    by (auto simp: detect_raw_stream_format_def to_str_def find_None_iff)
  have vol: "\<not> is_7z_volume_path p"
    using not_numbered_name [OF special(1) assms(6)] assms(4,5) by (simp add: is_7z_volume_path_def to_str_def)
  have tz: "\<not> is_tzap_archive_path env p" by (rule not_tzap [OF assms(4,6) special(2) assms(7,8)])
  have rows: "cap_kind c = Zip \<longrightarrow> extensions c = ZIP_FAMILY_EXTENSIONS" "cap_kind c = SevenZ \<longrightarrow> extensions c = SEVEN_Z_EXTENSIONS"
      "cap_kind c \<noteq> SplitZip" "cap_kind c \<noteq> Unknown"
    using capability_rows assms(1,3) by (auto simp: list_all_iff)
  have zip: "ends_with_any p ZIP_FAMILY_EXTENSIONS \<longleftrightarrow> cap_kind c = Zip"
    using zip_and_7z_rows(1) same self rows(1) by (metis archive_format_kind.distinct archive_format_kind.simps)
  have sz: "ends_with_any p SEVEN_Z_EXTENSIONS \<longleftrightarrow> cap_kind c = SevenZ"
    using zip_and_7z_rows(2) same self rows(2) by (metis archive_format_kind.distinct archive_format_kind.simps)
  show ?thesis
  proof (cases "cap_kind c = Zip \<or> cap_kind c = SevenZ")
    case True
    then show ?thesis using zip sz raw vol assms(9) by (auto simp: detect_archive_format_def)
  next
    case False
    then have "scan_capabilities env p FORMAT_CAPABILITIES = Some (cap_kind c)"
      using scan_capabilities_row [OF same tz assms(1) refl _ self] rows assms(2) by auto
    then show ?thesis using False zip sz raw vol assms(9) by (simp add: detect_archive_format_def)
  qed
qed

definition no_probe :: format_probe where
  "no_probe = \<lparr>to_lowercase = to_ascii_lowercase, is_file = (\<lambda>_. False), file_contents = (\<lambda>_. None), gzip_prefix = (\<lambda>_. None),
     TZAP_EXTENSION = ''tzap'', TZAP_EXTENSION_SUFFIX = ''.tzap'', is_volume_file_name = (\<lambda>_. False)\<rparr>"

theorem detect_archive_format_by_extension_witness:
  "detect_archive_format no_probe [Normal ''a.Tar.GZ''] = TarGz"
proof -
  have c: "capability TarGz TGZ_EXTENSIONS Available \<in> set FORMAT_CAPABILITIES" by (simp add: FORMAT_CAPABILITIES_def)
  have e: "''.tar.gz'' \<in> set TGZ_EXTENSIONS" by (simp add: TGZ_EXTENSIONS_def)
  have n: "is_utf8 ''a.Tar.GZ''" "ends_with_ignore_ascii_case ''a.Tar.GZ'' ''.tar.gz''"
    "\<not> is_split_zip_archive_path (to_lowercase no_probe) (is_file no_probe) [Normal ''a.Tar.GZ'']" by code_simp+
  show ?thesis
    using detect_archive_format_by_extension [OF c, of "''.tar.gz''" "[Normal ''a.Tar.GZ'']" "''a.Tar.GZ''" no_probe] e n
    by (simp add: path_file_name_def no_probe_def)
qed

section \<open>Containers that no format claims\<close>

text \<open>Some container spellings are kept away from the raw streams although no row of the table
  lists them, so such a file is not recognised at all.\<close>

lemma unclaimed_container_unknown:
  assumes "path_file_name p = Some name" "is_utf8 name" "is_compressed_archive_container name" "file_contents env p = None"
    and "clear_of (backwards name) (map snd extension_table)" "\<not> is_7z_volume_path p" "\<not> is_tzap_archive_path env p"
    and "\<not> is_split_zip_archive_path (to_lowercase env) (is_file env) p"
  shows "detect_archive_format env p = Unknown"
proof -
  have no: "\<not> ends_with_any p (extensions c)" if c: "c \<in> set FORMAT_CAPABILITIES" "cap_kind c \<noteq> RawStream" for c
  proof
    assume "ends_with_any p (extensions c)"
    then obtain f where f: "f \<in> set (extensions c)" "ends_with_ignore_ascii_case name f"
      using assms(1,2) by (auto simp: ends_with_any_def to_str_def list_ex_iff)
    then have "backwards f \<in> set (map snd extension_table)" using table_member [OF c] by force
    moreover have "agree (backwards name) (backwards f)"
      using f(2) agree_take [of "length (backwards name)" "backwards name" "length (backwards f)"] by (simp add: ends_with_backwards)
    ultimately show False using assms(5) by (auto simp: clear_of_iff)
  qed
  have "scan_capabilities env p cs = None" if "set cs \<subseteq> set FORMAT_CAPABILITIES" for cs
    using that no assms(7) by (induction cs) auto
  moreover have "\<not> ends_with_any p ZIP_FAMILY_EXTENSIONS" "\<not> ends_with_any p SEVEN_Z_EXTENSIONS"
    using zip_and_7z_rows no by (metis archive_format_kind.distinct archive_format_kind.simps)+
  moreover have "detect_raw_stream_format p = None" using assms(1-3) by (simp add: detect_raw_stream_format_def to_str_def)
  ultimately show ?thesis using assms by (simp add: detect_archive_format_def detect_content_format_def)
qed

lemma compressed_tar_unknown: "detect_archive_format no_probe [Normal ''a.tlz''] = Unknown"
proof (rule unclaimed_container_unknown)
  show "path_file_name [Normal ''a.tlz''] = Some ''a.tlz''" by (simp add: path_file_name_def)
  show "is_utf8 ''a.tlz''" "is_compressed_archive_container ''a.tlz''" "clear_of (backwards ''a.tlz'') (map snd extension_table)"
    "\<not> is_7z_volume_path [Normal ''a.tlz'']" "\<not> is_tzap_archive_path no_probe [Normal ''a.tlz'']"
    "\<not> is_split_zip_archive_path (to_lowercase no_probe) (is_file no_probe) [Normal ''a.tlz'']" by code_simp+
qed (simp add: no_probe_def)

text \<open>Detection of a ZIP inside an executable finds a header at any position of the prefix.\<close>

lemma has_zip_magic_iff: "has_zip_magic bs \<longleftrightarrow> (\<exists>a m b. bs = a @ m @ b \<and> m \<in> set ZIP_MAGICS)"
proof (induction bs)
  case Nil
  then show ?case by (auto simp: ZIP_MAGICS_def)
next
  case (Cons x bs)
  have len: "m \<in> set ZIP_MAGICS \<Longrightarrow> length m = 4 \<and> hd m = of_char (CHR ''P'')" for m by (auto simp: ZIP_MAGICS_def)
  have split: "(\<exists>a m b. x # bs = a @ m @ b \<and> m \<in> set ZIP_MAGICS) \<longleftrightarrow>
      take 4 (x # bs) \<in> set ZIP_MAGICS \<or> (\<exists>a m b. bs = a @ m @ b \<and> m \<in> set ZIP_MAGICS)"
  proof
    assume "\<exists>a m b. x # bs = a @ m @ b \<and> m \<in> set ZIP_MAGICS"
    then obtain a m b where a: "x # bs = a @ m @ b" "m \<in> set ZIP_MAGICS" by blast
    show "take 4 (x # bs) \<in> set ZIP_MAGICS \<or> (\<exists>a m b. bs = a @ m @ b \<and> m \<in> set ZIP_MAGICS)"
      using a len [OF a(2)] by (cases a) auto
  next
    assume "take 4 (x # bs) \<in> set ZIP_MAGICS \<or> (\<exists>a m b. bs = a @ m @ b \<and> m \<in> set ZIP_MAGICS)"
    then show "\<exists>a m b. x # bs = a @ m @ b \<and> m \<in> set ZIP_MAGICS"
      by (metis append_Cons append_Nil append_take_drop_id)
  qed
  have magic: "x = of_char (CHR ''P'') \<and> \<not> length (x # bs) < 4" if "take 4 (x # bs) \<in> set ZIP_MAGICS"
    using len [OF that] by (auto simp: min_def split: if_splits)
  have short: "4 \<le> length bs" if "\<exists>a m b. bs = a @ m @ b \<and> m \<in> set ZIP_MAGICS"
    using that len by fastforce
  show ?case
  proof (cases "take 4 (x # bs) \<in> set ZIP_MAGICS")
    case True
    then show ?thesis unfolding split has_zip_magic.simps using magic [OF True] by simp
  next
    case False
    then show ?thesis unfolding split has_zip_magic.simps Cons.IH using short by force
  qed
qed

end
