(* ===== verification/Lzop.thy ===== *)
theory Lzop
  imports Byte_Reader
begin

text \<open>
  The lzop stream decoder (\<open>crates/zmanager-core/src/lzop_decoder.rs\<close>): header parsing with its
  checksum, block framing, block checksums, multipart streams, and the \<open>Read\<close> implementation.  The
  CRC-32 and Adler-32 of the checksum libraries and the block decompression of the \<open>lzo\<close> crate are
  the record \<open>lzop_env\<close>.  The wrapped reader is what it delivers: its bytes, and whether after them a
  read reports the end or an error; \<open>read_exact\<close> and the loop that looks for another header retry
  short and interrupted reads, so nothing else of it can be seen.
\<close>

unbundle bit_operations_syntax

section \<open>The wrapped reader\<close>

record byte_source =
  remaining :: bytes
  ending :: "io_error option"

definition eof_error :: io_error where
  "eof_error = \<lparr>kind = UnexpectedEof, message = ''failed to fill whole buffer''\<rparr>"

definition invalid_data :: "string \<Rightarrow> io_error" where
  "invalid_data m = \<lparr>kind = InvalidData, message = m\<rparr>"

definition read_exact :: "nat \<Rightarrow> byte_source \<Rightarrow> (io_error, bytes) result \<times> byte_source" where
  "read_exact n s =
     (if n \<le> length (remaining s) then (Inr (take n (remaining s)), s\<lparr>remaining := drop n (remaining s)\<rparr>)
      else (Inl (case ending s of None \<Rightarrow> eof_error | Some e \<Rightarrow> e), s\<lparr>remaining := []\<rparr>))"

definition read_exact_or_eof :: "nat \<Rightarrow> byte_source \<Rightarrow> (io_error, bytes) result \<times> byte_source" where
  "read_exact_or_eof n s =
     (case read_exact n s of
        (Inl e, s') \<Rightarrow> (Inl (if kind e = UnexpectedEof then invalid_data ''truncated lzop stream'' else e), s')
      | (Inr bs, s') \<Rightarrow> (Inr bs, s'))"

section \<open>The format\<close>

record lzop_env =
  crc32 :: "bytes \<Rightarrow> u32"
  adler32 :: "bytes \<Rightarrow> u32"
  lzo_decompress :: "bytes \<Rightarrow> nat \<Rightarrow> (string, bytes) result"

definition LZOP_HEADER_MAGIC :: bytes where
  "LZOP_HEADER_MAGIC = [0x89, 0x4c, 0x5a, 0x4f, 0x00, 0x0d, 0x0a, 0x1a, 0x0a]"

definition FLAG_ADLER32_UNCOMPRESSED :: u32 where "FLAG_ADLER32_UNCOMPRESSED = 0x0001"
definition FLAG_ADLER32_COMPRESSED :: u32 where "FLAG_ADLER32_COMPRESSED = 0x0002"
definition FLAG_EXTRA_FIELD :: u32 where "FLAG_EXTRA_FIELD = 0x0040"
definition FLAG_FILTER :: u32 where "FLAG_FILTER = 0x0800"
definition FLAG_CRC32_UNCOMPRESSED :: u32 where "FLAG_CRC32_UNCOMPRESSED = 0x0100"
definition FLAG_CRC32_COMPRESSED :: u32 where "FLAG_CRC32_COMPRESSED = 0x0200"
definition FLAG_CRC32_HEADER :: u32 where "FLAG_CRC32_HEADER = 0x1000"

definition MAX_BLOCK_SIZE :: int where "MAX_BLOCK_SIZE = 64 * 1024 * 1024"

text \<open>\<open>from_be_bytes\<close>\<close>

definition from_be_bytes :: "bytes \<Rightarrow> int" where
  "from_be_bytes bs = foldl (\<lambda>n b. 256 * n + uint b) 0 bs"

definition u32_be :: "bytes \<Rightarrow> u32" where
  "u32_be bs = word_of_int (from_be_bytes bs)"

section \<open>The header\<close>

definition optional_field :: "bool \<Rightarrow> nat \<Rightarrow> byte_source \<Rightarrow> (io_error, bytes) result \<times> byte_source" where
  "optional_field present n s = (if present then read_exact_or_eof n s else (Inr [], s))"

definition require :: "bool \<Rightarrow> string \<Rightarrow> byte_source \<Rightarrow> (io_error, unit) result \<times> byte_source" where
  "require ok m s = (if ok then (Inr (), s) else (Inl (invalid_data m), s))"

text \<open>The fields after the magic; those up to the file name are what the checksum covers.\<close>

definition header_fields :: "byte_source \<Rightarrow> (io_error, bytes \<times> u32) result \<times> byte_source" where
  "header_fields s =
     and_then_st (read_exact_or_eof 2 s) (\<lambda>v s.
     and_then_st (read_exact_or_eof 2 s) (\<lambda>library s.
     let modern = 0x0940 \<le> from_be_bytes v in
     and_then_st (optional_field modern 2 s) (\<lambda>required s.
     and_then_st (require (modern \<longrightarrow> 0x0900 \<le> from_be_bytes required) ''lzop stream requires an unsupported version'' s) (\<lambda>_ s.
     and_then_st (read_exact_or_eof 1 s) (\<lambda>method s.
     and_then_st (require (hd method \<in> {1, 2, 3}) ''lzop stream uses an unsupported compression method'' s) (\<lambda>_ s.
     and_then_st (optional_field modern 1 s) (\<lambda>level s.
     and_then_st (require (modern \<longrightarrow> hd level \<le> 9) ''lzop stream uses an invalid compression level'' s) (\<lambda>_ s.
     and_then_st (read_exact_or_eof 4 s) (\<lambda>word s.
     let flags = u32_be word in
     and_then_st (optional_field (flags AND FLAG_FILTER \<noteq> 0) 4 s) (\<lambda>filter_name s.
     and_then_st (read_exact_or_eof 4 s) (\<lambda>mode s.
     and_then_st (read_exact_or_eof (if modern then 8 else 4) s) (\<lambda>mtime s.
     and_then_st (read_exact_or_eof 1 s) (\<lambda>len s.
     and_then_st (read_exact_or_eof (unat (hd len)) s) (\<lambda>filename s.
     (Inr (v @ library @ required @ method @ level @ word @ filter_name @ mode @ mtime @ len @ filename, flags), s)))))))))))))))"

definition parse_header_after_magic :: "lzop_env \<Rightarrow> byte_source \<Rightarrow> (io_error, u32) result \<times> byte_source" where
  "parse_header_after_magic env s =
     and_then_st (header_fields s) (\<lambda>(header, flags) s.
     and_then_st (read_exact_or_eof 4 s) (\<lambda>word s.
     and_then_st (require (u32_be word = (if flags AND FLAG_CRC32_HEADER \<noteq> 0 then crc32 env header else adler32 env header))
                    ''corrupted lzop header'' s) (\<lambda>_ s.
     if flags AND FLAG_EXTRA_FIELD \<noteq> 0 then
       and_then_st (read_exact_or_eof 4 s) (\<lambda>word s.
       and_then_st (read_exact_or_eof (nat (from_be_bytes word)) s) (\<lambda>_ s. (Inr flags, s)))
     else (Inr flags, s))))"

section \<open>The reader\<close>

record lzop_reader =
  lz_inner :: byte_source
  lz_flags :: u32
  out :: bytes
  out_pos :: nat
  finished :: bool

text \<open>A step on the wrapped reader alone.\<close>

definition on_inner ::
  "(byte_source \<Rightarrow> (io_error, 'a) result \<times> byte_source) \<Rightarrow> lzop_reader \<Rightarrow> (io_error, 'a) result \<times> lzop_reader" where
  "on_inner f self = (case f (lz_inner self) of (r, s) \<Rightarrow> (r, self\<lparr>lz_inner := s\<rparr>))"

definition consume_header :: "lzop_env \<Rightarrow> lzop_reader \<Rightarrow> (io_error, unit) result \<times> lzop_reader" where
  "consume_header env self =
     and_then_st (on_inner (read_exact_or_eof 9) self) (\<lambda>magic self.
     if magic \<noteq> LZOP_HEADER_MAGIC then (Inl (invalid_data ''not an lzop stream''), self)
     else and_then_st (on_inner (parse_header_after_magic env) self) (\<lambda>flags self. (Inr (), self\<lparr>lz_flags := flags\<rparr>)))"

definition lzop_new :: "lzop_env \<Rightarrow> byte_source \<Rightarrow> (io_error, lzop_reader) result" where
  "lzop_new env inner =
     (case consume_header env \<lparr>lz_inner = inner, lz_flags = 0, out = [], out_pos = 0, finished = False\<rparr> of
        (Inl e, _) \<Rightarrow> Inl e | (Inr _, self) \<Rightarrow> Inr self)"

text \<open>The loop that reads nine bytes after an end mark: \<open>None\<close> when the source ends first.\<close>

definition read_magic :: "byte_source \<Rightarrow> (io_error, bytes option) result \<times> byte_source" where
  "read_magic s =
     (case read_exact 9 s of
        (Inr magic, s') \<Rightarrow> (Inr (Some magic), s')
      | (Inl e, s') \<Rightarrow> (case ending s of None \<Rightarrow> (Inr None, s') | Some e \<Rightarrow> (Inl e, s')))"

definition checksum :: "lzop_env \<Rightarrow> bool \<Rightarrow> bytes \<Rightarrow> u32" where
  "checksum env crc bs = (if crc then crc32 env bs else adler32 env bs)"

text \<open>A block after its uncompressed size.\<close>

definition block_body :: "lzop_env \<Rightarrow> u32 \<Rightarrow> int \<Rightarrow> byte_source \<Rightarrow> (io_error, bytes) result \<times> byte_source" where
  "block_body env flags uncompressed_size s =
     and_then_st (require (uncompressed_size \<le> MAX_BLOCK_SIZE) ''lzop block exceeds the 64 MiB limit'' s) (\<lambda>_ s.
     and_then_st (read_exact_or_eof 4 s) (\<lambda>word s.
     let compressed_size = from_be_bytes word in
     and_then_st (require (compressed_size \<le> uncompressed_size) ''corrupted lzop block'' s) (\<lambda>_ s.
     let check_out = flags AND (FLAG_CRC32_UNCOMPRESSED OR FLAG_ADLER32_UNCOMPRESSED) \<noteq> 0;
         check_in = flags AND (FLAG_CRC32_COMPRESSED OR FLAG_ADLER32_COMPRESSED) \<noteq> 0 \<and> compressed_size < uncompressed_size in
     and_then_st (optional_field check_out 4 s) (\<lambda>uncompressed_checksum s.
     and_then_st (optional_field check_in 4 s) (\<lambda>compressed_checksum s.
     and_then_st (read_exact_or_eof (nat compressed_size) s) (\<lambda>data s.
     and_then_st (require (check_in \<longrightarrow> checksum env (flags AND FLAG_CRC32_COMPRESSED \<noteq> 0) data = u32_be compressed_checksum)
                    ''corrupted lzop block'' s) (\<lambda>_ s.
     and_then_st (if compressed_size = uncompressed_size then (Inr data, s)
                  else case lzo_decompress env data (nat uncompressed_size) of
                         Inl m \<Rightarrow> (Inl (invalid_data (''lzop block decompression failed: '' @ m)), s)
                       | Inr decoded \<Rightarrow> (Inr decoded, s)) (\<lambda>decoded s.
     and_then_st (require (int (length decoded) = uncompressed_size) ''lzop block decompressed to an unexpected size'' s) (\<lambda>_ s.
     and_then_st (require (check_out \<longrightarrow> checksum env (flags AND FLAG_CRC32_UNCOMPRESSED \<noteq> 0) decoded = u32_be uncompressed_checksum)
                    ''corrupted lzop block'' s) (\<lambda>_ s.
     (Inr decoded, s)))))))))))"

section \<open>Every step consumes\<close>

definition shrinks :: "nat \<Rightarrow> byte_source \<Rightarrow> ('e, 'a) result \<times> byte_source \<Rightarrow> bool" where
  "shrinks n s rs \<longleftrightarrow>
     (case rs of (Inl _, s') \<Rightarrow> length (remaining s') \<le> length (remaining s)
               | (Inr _, s') \<Rightarrow> length (remaining s') + n \<le> length (remaining s))"

named_theorems shrink_intros \<open>how much of the source a step consumes\<close>

lemma shrinks_and_then [shrink_intros]:
  assumes "shrinks m s r" "\<And>x t. r = (Inr x, t) \<Longrightarrow> shrinks 0 t (f x t)"
  shows "shrinks m s (and_then_st r f)"
proof -
  obtain x t where r: "r = (x, t)" by fastforce
  show ?thesis
  proof (cases x)
    case (Inl e)
    then show ?thesis using assms(1) r by (simp add: shrinks_def)
  next
    case (Inr y)
    obtain z u where "f y t = (z, u)" by fastforce
    then show ?thesis using assms(1) assms(2) [of y t] r Inr by (auto simp: shrinks_def split: sum.splits)
  qed
qed

lemma shrinks_done [shrink_intros]: "shrinks 0 s (r, s)"
  by (simp add: shrinks_def split: sum.splits)

lemma shrinks_read_exact: "shrinks n s (read_exact n s)"
  by (simp add: shrinks_def read_exact_def)

lemma shrinks_exact: "shrinks n s (read_exact_or_eof n s)"
  using shrinks_read_exact [of n s] by (auto simp: shrinks_def read_exact_or_eof_def split: prod.splits sum.splits)

lemma shrinks_weaken: "shrinks m s r \<Longrightarrow> n \<le> m \<Longrightarrow> shrinks n s r"
  by (auto simp: shrinks_def split: prod.splits sum.splits)

lemma shrinks_exact0 [shrink_intros]: "shrinks 0 s (read_exact_or_eof n s)"
  by (rule shrinks_weaken [OF shrinks_exact]) simp

lemma shrinks_optional [shrink_intros]: "shrinks 0 s (optional_field b n s)"
  by (simp add: optional_field_def shrinks_exact0 shrinks_done)

lemma shrinks_require [shrink_intros]: "shrinks 0 s (require b m s)"
  by (simp add: require_def shrinks_done)

lemma shrinks_magic: "shrinks 0 s (read_magic s)"
  by (simp add: shrinks_def read_magic_def read_exact_def split: option.splits)

lemma shrinks_fields [shrink_intros]: "shrinks 0 s (header_fields s)"
  unfolding header_fields_def Let_def by (intro shrink_intros)

lemma shrinks_header [shrink_intros]: "shrinks 0 s (parse_header_after_magic env s)"
  unfolding parse_header_after_magic_def by (intro shrink_intros) (auto split: prod.splits intro!: shrink_intros)

lemma shrinks_body: "shrinks 0 s (block_body env flags n s)"
  unfolding block_body_def Let_def by (intro shrink_intros) (auto split: sum.splits intro: shrink_intros)

section \<open>Blocks and reading\<close>

lemma exact_shrinks: "read_exact_or_eof n s = (Inr bs, t) \<Longrightarrow> length (remaining t) + n \<le> length (remaining s)"
  using shrinks_exact [of n s] by (simp add: shrinks_def)

lemma magic_shrinks: "read_magic s = (Inr m, t) \<Longrightarrow> length (remaining t) \<le> length (remaining s)"
  using shrinks_magic [of s] by (simp add: shrinks_def)

lemma header_shrinks: "parse_header_after_magic env s = (Inr f, t) \<Longrightarrow> length (remaining t) \<le> length (remaining s)"
  using shrinks_header [of s env] by (simp add: shrinks_def)

lemma body_shrinks: "block_body env flags n s = (Inr bs, t) \<Longrightarrow> length (remaining t) \<le> length (remaining s)"
  using shrinks_body [of s env flags n] by (simp add: shrinks_def)

text \<open>The next block of the source, or \<open>None\<close> at the end of the stream, with the flags of the last
  header; an empty part of a multipart stream is passed over.\<close>

function scan_block :: "lzop_env \<Rightarrow> u32 \<Rightarrow> byte_source \<Rightarrow> (io_error, bytes option) result \<times> u32 \<times> byte_source" where
  "scan_block env flags s =
     (case read_exact_or_eof 4 s of
        (Inl e, s) \<Rightarrow> (Inl e, flags, s)
      | (Inr word, s) \<Rightarrow>
          if from_be_bytes word = 0 then
            (case read_magic s of
               (Inl e, s) \<Rightarrow> (Inl e, flags, s)
             | (Inr magic, s) \<Rightarrow>
                 if magic \<noteq> Some LZOP_HEADER_MAGIC then (Inr None, flags, s)
                 else case parse_header_after_magic env s of
                        (Inl e, s) \<Rightarrow> (Inl e, flags, s)
                      | (Inr flags', s) \<Rightarrow> scan_block env flags' s)
          else case block_body env flags (from_be_bytes word) s of
                 (Inl e, s) \<Rightarrow> (Inl e, flags, s)
               | (Inr decoded, s) \<Rightarrow> (Inr (Some decoded), flags, s))"
  by pat_completeness auto
termination
proof (relation "measure (\<lambda>(env, flags, s). length (remaining s))")
  fix env :: lzop_env and flags flags' :: u32 and s r word t r' u r'' v and magic :: "bytes option"
  assume 1: "(r, t) = read_exact_or_eof 4 s" "r = Inr word" "from_be_bytes word = 0" "(r', u) = read_magic t" "r' = Inr magic"
    "\<not> magic \<noteq> Some LZOP_HEADER_MAGIC" "(r'', v) = parse_header_after_magic env u" "r'' = Inr flags'"
  show "((env, flags', v), (env, flags, s)) \<in> measure (\<lambda>(env, flags, s). length (remaining s))"
    using exact_shrinks [of 4 s word t] magic_shrinks [of t magic u] header_shrinks [of env u flags' v] 1(1,2,4,5,7,8) by simp
qed simp

declare scan_block.simps [simp del]

definition next_block :: "lzop_env \<Rightarrow> lzop_reader \<Rightarrow> (io_error, bool) result \<times> lzop_reader" where
  "next_block env self =
     (case scan_block env (lz_flags self) (lz_inner self) of
        (r, flags, s) \<Rightarrow>
          let self = self\<lparr>lz_flags := flags, lz_inner := s\<rparr> in
          case r of
            Inl e \<Rightarrow> (Inl e, self)
          | Inr None \<Rightarrow> (Inr False, self)
          | Inr (Some decoded) \<Rightarrow> (Inr True, self\<lparr>out := decoded, out_pos := 0\<rparr>))"

lemma from_be_bytes_nonneg: "0 \<le> from_be_bytes bs"
proof -
  have "0 \<le> n \<Longrightarrow> 0 \<le> foldl (\<lambda>n b. 256 * n + uint b) n bs" for n :: int by (induction bs arbitrary: n) auto
  then show ?thesis by (simp add: from_be_bytes_def)
qed

lemma block_body_length:
  assumes "block_body env flags n s = (Inr bs, t)"
  shows "int (length bs) = n \<and> n \<le> MAX_BLOCK_SIZE"
  using assms by (auto simp: block_body_def require_def result_simps Let_def split: if_splits)

lemma scan_block_some:
  "scan_block env flags s = (Inr (Some bs), flags', t) \<Longrightarrow>
     bs \<noteq> [] \<and> int (length bs) \<le> MAX_BLOCK_SIZE \<and> length (remaining t) < length (remaining s)"
proof (induction env flags s rule: scan_block.induct)
  case (1 env flags s)
  obtain word a where a: "read_exact_or_eof 4 s = (Inr word, a)"
    using "1.prems" by (subst (asm) scan_block.simps) (auto split: prod.splits sum.splits)
  have la: "length (remaining a) + 4 \<le> length (remaining s)" by (rule exact_shrinks [OF a])
  show ?case
  proof (cases "from_be_bytes word = 0")
    case False
    then have b: "block_body env flags (from_be_bytes word) a = (Inr bs, t)"
      using "1.prems" a by (subst (asm) scan_block.simps) (auto split: prod.splits sum.splits)
    then show ?thesis
      using block_body_length [OF b] body_shrinks [OF b] la False from_be_bytes_nonneg [of word] by auto
  next
    case True
    obtain b where b: "read_magic a = (Inr (Some LZOP_HEADER_MAGIC), b)"
      using "1.prems" a True by (subst (asm) scan_block.simps) (auto split: prod.splits sum.splits if_splits)
    obtain f c where c: "parse_header_after_magic env b = (Inr f, c)" "scan_block env f c = (Inr (Some bs), flags', t)"
      using "1.prems" a b True by (subst (asm) scan_block.simps) (auto split: prod.splits sum.splits)
    have "bs \<noteq> [] \<and> int (length bs) \<le> MAX_BLOCK_SIZE \<and> length (remaining t) < length (remaining c)"
      using "1.IH" [OF a [symmetric] refl True b [symmetric] refl _ c(1) [symmetric] refl c(2)] by simp
    then show ?thesis using la magic_shrinks [OF b] header_shrinks [OF c(1)] by auto
  qed
qed

text \<open>After a block there is something to hand out, no more than the largest block.\<close>

lemma next_block_true:
  assumes "next_block env self = (Inr True, t)"
  shows "out_pos t = 0 \<and> out t \<noteq> [] \<and> int (length (out t)) \<le> MAX_BLOCK_SIZE"
  using assms scan_block_some [of env "lz_flags self" "lz_inner self"]
  by (auto simp: next_block_def Let_def split: prod.splits sum.splits option.splits)

function lzop_read :: "lzop_env \<Rightarrow> nat \<Rightarrow> lzop_reader \<Rightarrow> (io_error, bytes) result \<times> lzop_reader" where
  "lzop_read env n self =
     (if out_pos self < length (out self) then
        let bs = take n (drop (out_pos self) (out self)) in (Inr bs, self\<lparr>out_pos := out_pos self + length bs\<rparr>)
      else if finished self then (Inr [], self)
      else case next_block env self of
             (Inl e, t) \<Rightarrow> (Inl e, t)
           | (Inr another, t) \<Rightarrow> lzop_read env n (if another then t else t\<lparr>finished := True\<rparr>))"
  by pat_completeness auto
termination
  by (relation "measure (\<lambda>(env, n, self). if out_pos self < length (out self) \<or> finished self then 0 else 1)")
    (auto dest!: next_block_true [OF sym] split: if_splits)

declare lzop_read.simps [simp del]

section \<open>What the reader delivers\<close>

text \<open>The bytes of all blocks from here on, and the error that cuts them short if there is one.\<close>

function lzop_stream :: "lzop_env \<Rightarrow> u32 \<Rightarrow> byte_source \<Rightarrow> bytes \<times> io_error option" where
  "lzop_stream env flags s =
     (case scan_block env flags s of
        (Inl e, _, _) \<Rightarrow> ([], Some e)
      | (Inr None, _, _) \<Rightarrow> ([], None)
      | (Inr (Some bs), flags', t) \<Rightarrow> (case lzop_stream env flags' t of (cs, e) \<Rightarrow> (bs @ cs, e)))"
  by pat_completeness auto
termination
  by (relation "measure (\<lambda>(env, flags, s). length (remaining s))") (auto dest: scan_block_some [OF sym])

declare lzop_stream.simps [simp del]

definition lzop_rest :: "lzop_env \<Rightarrow> lzop_reader \<Rightarrow> bytes" where
  "lzop_rest env self =
     drop (out_pos self) (out self) @ (if finished self then [] else fst (lzop_stream env (lz_flags self) (lz_inner self)))"

definition lzop_clean :: "lzop_env \<Rightarrow> lzop_reader \<Rightarrow> bool" where
  "lzop_clean env self \<longleftrightarrow> finished self \<or> snd (lzop_stream env (lz_flags self) (lz_inner self)) = None"

lemma next_block_stream:
  assumes "next_block env self = (r, t)" "length (out self) \<le> out_pos self" "\<not> finished self"
  shows "r = Inr another \<Longrightarrow> lzop_rest env (if another then t else t\<lparr>finished := True\<rparr>) = lzop_rest env self"
    and "r = Inr another \<Longrightarrow> lzop_clean env (if another then t else t\<lparr>finished := True\<rparr>) \<longleftrightarrow> lzop_clean env self"
    and "r = Inl e \<Longrightarrow> \<not> lzop_clean env self"
  using assms
  by (auto simp: next_block_def lzop_rest_def lzop_clean_def Let_def lzop_stream.simps [of env "lz_flags self"]
      split: prod.splits sum.splits option.splits if_splits)

text \<open>One call of \<open>read\<close>.\<close>

lemma lzop_read_step:
  "lzop_read env n self = (r, t) \<Longrightarrow>
     (case r of
        Inl e \<Rightarrow> \<not> lzop_clean env self
      | Inr bs \<Rightarrow> lzop_rest env self = bs @ lzop_rest env t \<and> length bs \<le> n \<and>
                   (bs = [] \<longrightarrow> n = 0 \<or> lzop_rest env self = []) \<and> (lzop_clean env t \<longleftrightarrow> lzop_clean env self))"
proof (induction env n self rule: lzop_read.induct)
  case (1 env n self)
  show ?case
  proof (cases "out_pos self < length (out self)")
    case True
    define bs where "bs = take n (drop (out_pos self) (out self))"
    have r: "r = Inr bs" "t = self\<lparr>out_pos := out_pos self + length bs\<rparr>"
      using "1.prems" True by (simp_all add: lzop_read.simps bs_def Let_def)
    have "drop (out_pos self) (out self) = bs @ drop (out_pos self + length bs) (out self)"
      unfolding bs_def by (metis append_take_drop_id append_eq_conv_conj drop_drop add.commute)
    then show ?thesis using True by (auto simp: r lzop_rest_def lzop_clean_def bs_def)
  next
    case False
    show ?thesis
    proof (cases "finished self")
      case True
      then show ?thesis using "1.prems" False by (auto simp: lzop_read.simps lzop_rest_def)
    next
      case open_stream: False
      obtain x u where x: "next_block env self = (x, u)" by fastforce
      note step = next_block_stream [OF x _ open_stream]
      show ?thesis
      proof (cases x)
        case (Inl e)
        then show ?thesis using "1.prems" False open_stream x step(3) by (auto simp: lzop_read.simps [of env n self])
      next
        case (Inr another)
        have "lzop_read env n (if another then u else u\<lparr>finished := True\<rparr>) = (r, t)"
          using "1.prems" False open_stream x Inr by (simp add: lzop_read.simps [of env n self])
        note ih = "1.IH" [OF False open_stream x [symmetric] Inr this]
        have same: "lzop_rest env (if another then u else u\<lparr>finished := True\<rparr>) = lzop_rest env self"
          "lzop_clean env (if another then u else u\<lparr>finished := True\<rparr>) = lzop_clean env self"
          using step(1,2) [OF _ Inr] False by simp_all
        show ?thesis using ih by (simp only: same)
      qed
    qed
  qed
qed

interpretation lzop_clean_reads: total_reader "lzop_read env" "lzop_clean env" "lzop_rest env" for env
proof
  fix s n bs t assume "lzop_clean env s" "lzop_read env n s = (Inr bs, t)"
  then show "lzop_clean env t \<and> lzop_rest env s = bs @ lzop_rest env t \<and> length bs \<le> n \<and>
      (bs = [] \<longrightarrow> n = 0 \<or> lzop_rest env s = [])"
    using lzop_read_step [of env n s "Inr bs" t] by auto
next
  fix s n e t assume "lzop_clean env s" "lzop_read env n s = (Inl e, t)"
  then show "lzop_clean env t" using lzop_read_step [of env n s "Inl e" t] by simp
next
  fix s n assume "lzop_clean env s"
  then show "\<exists>bs t. lzop_read env n s = (Inr bs, t)"
    using lzop_read_step [of env n s "fst (lzop_read env n s)" "snd (lzop_read env n s)"]
    by (cases "lzop_read env n s") (auto split: sum.splits)
qed

section \<open>Writing lzop streams\<close>

text \<open>The format the reader is for, as a writer: multibyte numbers, headers, blocks, and a stream of
  several parts.\<close>

fun be_bytes :: "nat \<Rightarrow> int \<Rightarrow> bytes" where
  "be_bytes 0 n = []"
| "be_bytes (Suc k) n = be_bytes k (n div 256) @ [word_of_int n]"

record lzop_meta =
  m_version :: int
  m_library :: bytes
  m_required :: int
  m_method :: u8
  m_level :: u8
  m_flags :: u32
  m_filter :: bytes
  m_mode :: bytes
  m_mtime :: bytes
  m_filename :: bytes
  m_extra :: bytes

definition modern_meta :: "lzop_meta \<Rightarrow> bool" where
  "modern_meta m \<longleftrightarrow> 0x0940 \<le> m_version m"

definition meta_ok :: "lzop_meta \<Rightarrow> bool" where
  "meta_ok m \<longleftrightarrow>
     0 \<le> m_version m \<and> m_version m < 0x10000 \<and> length (m_library m) = 2 \<and>
     0x0900 \<le> m_required m \<and> m_required m < 0x10000 \<and> m_method m \<in> {1, 2, 3} \<and> m_level m \<le> 9 \<and>
     length (m_filter m) = 4 \<and> length (m_mode m) = 4 \<and> length (m_mtime m) = (if modern_meta m then 8 else 4) \<and>
     length (m_filename m) < 256 \<and> int (length (m_extra m)) < 0x100000000"

definition encode_fields :: "lzop_meta \<Rightarrow> bytes" where
  "encode_fields m =
     be_bytes 2 (m_version m) @ m_library m @
     (if modern_meta m then be_bytes 2 (m_required m) else []) @ [m_method m] @
     (if modern_meta m then [m_level m] else []) @ be_bytes 4 (uint (m_flags m)) @
     (if m_flags m AND FLAG_FILTER \<noteq> 0 then m_filter m else []) @ m_mode m @ m_mtime m @
     [word_of_nat (length (m_filename m))] @ m_filename m"

definition encode_header :: "lzop_env \<Rightarrow> lzop_meta \<Rightarrow> bytes" where
  "encode_header env m =
     LZOP_HEADER_MAGIC @ encode_fields m @
     be_bytes 4 (uint (checksum env (m_flags m AND FLAG_CRC32_HEADER \<noteq> 0) (encode_fields m))) @
     (if m_flags m AND FLAG_EXTRA_FIELD \<noteq> 0 then be_bytes 4 (int (length (m_extra m))) @ m_extra m else [])"

datatype lzop_block = Stored (plain: bytes) | Packed (packed: bytes) (plain: bytes)

fun block_ok :: "lzop_env \<Rightarrow> lzop_block \<Rightarrow> bool" where
  "block_ok env (Stored bs) \<longleftrightarrow> bs \<noteq> [] \<and> int (length bs) \<le> MAX_BLOCK_SIZE"
| "block_ok env (Packed c bs) \<longleftrightarrow>
     int (length bs) \<le> MAX_BLOCK_SIZE \<and> length c < length bs \<and> lzo_decompress env c (length bs) = Inr bs"

definition stored_checksum :: "lzop_env \<Rightarrow> u32 \<Rightarrow> u32 \<Rightarrow> u32 \<Rightarrow> bytes \<Rightarrow> bytes" where
  "stored_checksum env flags crc adler bs =
     (if flags AND (crc OR adler) \<noteq> 0 then be_bytes 4 (uint (checksum env (flags AND crc \<noteq> 0) bs)) else [])"

fun encode_block :: "lzop_env \<Rightarrow> u32 \<Rightarrow> lzop_block \<Rightarrow> bytes" where
  "encode_block env flags (Stored bs) =
     be_bytes 4 (int (length bs)) @ be_bytes 4 (int (length bs)) @
     stored_checksum env flags FLAG_CRC32_UNCOMPRESSED FLAG_ADLER32_UNCOMPRESSED bs @ bs"
| "encode_block env flags (Packed c bs) =
     be_bytes 4 (int (length bs)) @ be_bytes 4 (int (length c)) @
     stored_checksum env flags FLAG_CRC32_UNCOMPRESSED FLAG_ADLER32_UNCOMPRESSED bs @
     stored_checksum env flags FLAG_CRC32_COMPRESSED FLAG_ADLER32_COMPRESSED c @ c"

definition encode_blocks :: "lzop_env \<Rightarrow> u32 \<Rightarrow> lzop_block list \<Rightarrow> bytes" where
  "encode_blocks env flags blocks = concat (map (encode_block env flags) blocks) @ be_bytes 4 0"

definition encode_parts :: "lzop_env \<Rightarrow> (lzop_meta \<times> lzop_block list) list \<Rightarrow> bytes" where
  "encode_parts env parts = concat (map (\<lambda>(m, blocks). encode_header env m @ encode_blocks env (m_flags m) blocks) parts)"

definition payload :: "(lzop_meta \<times> lzop_block list) list \<Rightarrow> bytes" where
  "payload parts = concat (map (\<lambda>(m, blocks). concat (map plain blocks)) parts)"

definition parts_ok :: "lzop_env \<Rightarrow> (lzop_meta \<times> lzop_block list) list \<Rightarrow> bool" where
  "parts_ok env parts \<longleftrightarrow> list_all (\<lambda>(m, blocks). meta_ok m \<and> list_all (block_ok env) blocks) parts"

section \<open>Reading back what was written\<close>

abbreviation source :: "bytes \<Rightarrow> byte_source" where
  "source bs \<equiv> \<lparr>remaining = bs, ending = None\<rparr>"

lemma length_be_bytes [simp]: "length (be_bytes k n) = k"
  by (induction k arbitrary: n) auto

lemma from_be_bytes_be_bytes: "0 \<le> n \<Longrightarrow> n < 256 ^ k \<Longrightarrow> from_be_bytes (be_bytes k n) = n"
proof (induction k arbitrary: n)
  case (Suc k)
  have "n div 256 < 256 ^ k" using Suc.prems(2) by (simp; arith)
  then have "from_be_bytes (be_bytes k (n div 256)) = n div 256" using Suc by simp
  moreover have "uint (word_of_int n :: u8) = n mod 256" by (simp add: uint_word_of_int)
  ultimately show ?case by (simp add: from_be_bytes_def)
qed (simp add: from_be_bytes_def)

lemma u32_be_be_bytes [simp]: "u32_be (be_bytes 4 (uint w)) = w"
  using uint_bounded [of w] by (simp add: u32_be_def from_be_bytes_be_bytes)

lemma read_exact_append:
  "length xs = n \<Longrightarrow> read_exact_or_eof n (source (xs @ ys)) = (Inr xs, source ys)"
  by (simp add: read_exact_or_eof_def read_exact_def)

lemma read_exact_cons: "read_exact_or_eof (Suc 0) (source (x # ys)) = (Inr [x], source ys)"
  using read_exact_append [of "[x]" 1 ys] by simp

lemma optional_field_append:
  "(p \<Longrightarrow> length xs = n) \<Longrightarrow> optional_field p n (source ((if p then xs else []) @ ys)) = (Inr (if p then xs else []), source ys)"
  by (simp add: optional_field_def read_exact_append)

lemmas read_back = read_exact_append read_exact_cons optional_field_append require_def

lemma header_fields_encode:
  assumes "meta_ok m"
  shows "header_fields (source (encode_fields m @ ys)) = (Inr (encode_fields m, m_flags m), source ys)"
proof -
  have v: "from_be_bytes (be_bytes 2 (m_version m)) = m_version m" "from_be_bytes (be_bytes 2 (m_required m)) = m_required m"
    using assms by (auto simp: meta_ok_def intro!: from_be_bytes_be_bytes)
  have l: "unat (word_of_nat (length (m_filename m)) :: u8) = length (m_filename m)"
    using assms by (simp add: meta_ok_def unat_of_nat)
  show ?thesis
    using assms by (cases "modern_meta m")
      (simp_all add: header_fields_def encode_fields_def modern_meta_def meta_ok_def v l read_back Let_def
        optional_field_def [of True] optional_field_def [of False])
qed

lemma parse_header_encode:
  assumes "meta_ok m"
  shows "read_exact 9 (source (encode_header env m @ ys)) =
      (Inr LZOP_HEADER_MAGIC, source (drop 9 (encode_header env m @ ys)))"
    and "parse_header_after_magic env (source (drop 9 (encode_header env m @ ys))) = (Inr (m_flags m), source ys)"
proof -
  have l: "length LZOP_HEADER_MAGIC = 9" by (simp add: LZOP_HEADER_MAGIC_def)
  then show "read_exact 9 (source (encode_header env m @ ys)) =
      (Inr LZOP_HEADER_MAGIC, source (drop 9 (encode_header env m @ ys)))"
    by (simp add: encode_header_def read_exact_def)
  have x: "from_be_bytes (be_bytes 4 (int (length (m_extra m)))) = int (length (m_extra m))"
    using assms by (intro from_be_bytes_be_bytes) (simp_all add: meta_ok_def)
  show "parse_header_after_magic env (source (drop 9 (encode_header env m @ ys))) = (Inr (m_flags m), source ys)"
    using l by (simp add: encode_header_def parse_header_after_magic_def header_fields_encode [OF assms] read_back x checksum_def)
qed

lemma block_size_fits:
  "int n \<le> MAX_BLOCK_SIZE \<Longrightarrow> from_be_bytes (be_bytes 4 (int n)) = int n"
  by (intro from_be_bytes_be_bytes) (simp_all add: MAX_BLOCK_SIZE_def)

lemma scan_block_encode:
  assumes "block_ok env b"
  shows "scan_block env flags (source (encode_block env flags b @ ys)) = (Inr (Some (plain b)), flags, source ys)"
proof (cases b)
  case (Stored bs)
  then show ?thesis using assms
    by (simp add: scan_block.simps [of env flags] block_body_def block_size_fits read_back stored_checksum_def Let_def
        optional_field_def [of False])
next
  case (Packed c bs)
  then have "bs \<noteq> []" using assms by auto
  then show ?thesis using assms Packed
    by (simp add: scan_block.simps [of env flags] block_body_def block_size_fits read_back stored_checksum_def Let_def)
qed

lemma lzop_stream_blocks:
  "list_all (block_ok env) blocks \<Longrightarrow>
     lzop_stream env flags (source (concat (map (encode_block env flags) blocks) @ ys)) =
     (case lzop_stream env flags (source ys) of (cs, e) \<Rightarrow> (concat (map plain blocks) @ cs, e))"
proof (induction blocks)
  case (Cons b blocks)
  then show ?case by (simp add: lzop_stream.simps [of env flags "source (encode_block env flags b @ zs)" for zs]
      scan_block_encode split: prod.splits)
qed simp

text \<open>After an end mark, another header continues the stream, and anything else ends it.\<close>

lemma lzop_stream_next_part:
  assumes "meta_ok m"
  shows "lzop_stream env flags (source (be_bytes 4 0 @ encode_header env m @ ys)) = lzop_stream env (m_flags m) (source ys)"
proof -
  have "scan_block env flags (source (be_bytes 4 0 @ encode_header env m @ ys)) = scan_block env (m_flags m) (source ys)"
    using parse_header_encode [OF assms, of env ys]
    by (simp add: scan_block.simps [of env flags] read_exact_append from_be_bytes_be_bytes read_magic_def)
  then show ?thesis by (simp add: lzop_stream.simps [of env flags] lzop_stream.simps [of env "m_flags m"])
qed

lemma lzop_stream_end:
  assumes "take 9 trailer \<noteq> LZOP_HEADER_MAGIC"
  shows "lzop_stream env flags (source (be_bytes 4 0 @ trailer)) = ([], None)"
  using assms
  by (simp add: lzop_stream.simps [of env flags] scan_block.simps [of env flags] read_exact_append from_be_bytes_be_bytes
      read_magic_def read_exact_def)

lemma lzop_stream_parts:
  assumes "parts_ok env parts" "list_all (block_ok env) blocks" "take 9 trailer \<noteq> LZOP_HEADER_MAGIC"
  shows "lzop_stream env flags (source (encode_blocks env flags blocks @ encode_parts env parts @ trailer)) =
     (concat (map plain blocks) @ payload parts, None)"
  using assms(1,2)
proof (induction parts arbitrary: flags blocks)
  case Nil
  then show ?case using assms(3) by (simp add: encode_blocks_def encode_parts_def payload_def lzop_stream_blocks lzop_stream_end)
next
  case (Cons p parts)
  obtain m bs where p: "p = (m, bs)" by fastforce
  have ok: "meta_ok m" "list_all (block_ok env) bs" "parts_ok env parts" using Cons.prems(1) by (simp_all add: p parts_ok_def)
  have "encode_parts env (p # parts) = encode_header env m @ encode_blocks env (m_flags m) bs @ encode_parts env parts"
    and "payload (p # parts) = concat (map plain bs) @ payload parts"
    by (simp_all add: p encode_parts_def payload_def)
  then show ?case using Cons.prems(2) Cons.IH [OF ok(3,2), of "m_flags m"]
    by (simp add: encode_blocks_def [of env flags] lzop_stream_blocks lzop_stream_next_part [OF ok(1)])
qed

lemma lzop_new_encode:
  assumes "meta_ok m"
  shows "lzop_new env (source (encode_header env m @ ys)) =
    Inr \<lparr>lz_inner = source ys, lz_flags = m_flags m, out = [], out_pos = 0, finished = False\<rparr>"
  using parse_header_encode [OF assms, of env ys]
  by (simp add: lzop_new_def consume_header_def on_inner_def read_exact_or_eof_def)

text \<open>
  C24. Whatever a stream of one or more parts holds, in blocks of at most 64 MiB stored as they are or
  packed, with any combination of optional header fields and checksums, followed by anything but
  another magic: the decoder accepts it, and reading it in pieces of any positive size returns the
  concatenated plain blocks.
\<close>

theorem lzop_roundtrip:
  assumes "parts \<noteq> []" "parts_ok env parts" "take 9 trailer \<noteq> LZOP_HEADER_MAGIC" "0 < chunk"
  shows "\<exists>self t. lzop_new env \<lparr>remaining = encode_parts env parts @ trailer, ending = None\<rparr> = Inr self \<and>
    read_fully (lzop_read env) chunk (Suc (length (payload parts))) self = Some (Inr (payload parts), t)"
proof -
  obtain m blocks more_parts where p: "parts = (m, blocks) # more_parts" using assms(1) by (cases parts) auto
  have ok: "meta_ok m" "list_all (block_ok env) blocks" "parts_ok env more_parts" using assms(2) by (simp_all add: p parts_ok_def)
  define self where "self = \<lparr>lz_inner = source (encode_blocks env (m_flags m) blocks @ encode_parts env more_parts @ trailer),
    lz_flags = m_flags m, out = [], out_pos = 0, finished = False\<rparr>"
  have new: "lzop_new env (source (encode_parts env parts @ trailer)) = Inr self"
    using lzop_new_encode [OF ok(1)] by (simp add: p self_def encode_parts_def)
  have "lzop_stream env (m_flags m) (lz_inner self) = (payload parts, None)"
    using lzop_stream_parts [OF ok(3,2) assms(3)] by (simp add: self_def p payload_def)
  then have "lzop_clean env self" "lzop_rest env self = payload parts"
    by (simp_all add: lzop_clean_def lzop_rest_def self_def)
  then show ?thesis using new lzop_clean_reads.read_fully_all [of env self chunk "Suc (length (payload parts))"] assms(4) by auto
qed

theorem lzop_roundtrip_witness:
  "let env = \<lparr>crc32 = (\<lambda>bs. word_of_int (from_be_bytes bs)), adler32 = (\<lambda>bs. word_of_nat (length bs)),
              lzo_decompress = (\<lambda>c n. Inr (replicate n (hd c)))\<rparr>;
       m = \<lparr>m_version = 0x0940, m_library = [0x20, 0xa0], m_required = 0x0940, m_method = 1, m_level = 5, m_flags = 0x1341,
            m_filter = [0, 0, 0, 0], m_mode = [0, 0, 0x81, 0xa4], m_mtime = [0, 0, 0, 0, 0, 0, 0, 0], m_filename = [0x61],
            m_extra = [7]\<rparr>;
       parts = [(m, [Stored [1, 2, 3], Packed [9] [9, 9, 9, 9]]), (m, [])]
   in \<exists>self t. lzop_new env \<lparr>remaining = encode_parts env parts @ [0], ending = None\<rparr> = Inr self \<and>
        read_fully (lzop_read env) 2 8 self = Some (Inr [1, 2, 3, 9, 9, 9, 9], t)"
proof -
  let ?env = "\<lparr>crc32 = (\<lambda>bs. word_of_int (from_be_bytes bs)), adler32 = (\<lambda>bs. word_of_nat (length bs)),
      lzo_decompress = (\<lambda>c n. Inr (replicate n (hd c)))\<rparr> :: lzop_env"
  let ?m = "\<lparr>m_version = 0x0940, m_library = [0x20, 0xa0], m_required = 0x0940, m_method = 1, m_level = 5, m_flags = 0x1341,
      m_filter = [0, 0, 0, 0], m_mode = [0, 0, 0x81, 0xa4], m_mtime = [0, 0, 0, 0, 0, 0, 0, 0], m_filename = [0x61],
      m_extra = [7]\<rparr>"
  let ?parts = "[(?m, [Stored [1, 2, 3], Packed [9] [9, 9, 9, 9]]), (?m, [])]"
  have ok: "parts_ok ?env ?parts"
    by (simp add: parts_ok_def meta_ok_def modern_meta_def MAX_BLOCK_SIZE_def)
  have trailer: "take 9 [0] \<noteq> LZOP_HEADER_MAGIC" by (simp add: LZOP_HEADER_MAGIC_def)
  have payload: "payload ?parts = [1, 2, 3, 9, 9, 9, 9]" by (simp add: payload_def)
  have fuel: "Suc (length [1, 2, 3, 9, 9, 9, 9 :: u8]) = 8" by simp
  show ?thesis unfolding Let_def
    by (rule lzop_roundtrip [of ?parts ?env "[0]" 2, OF _ ok trailer, unfolded payload fuel]) simp_all
qed

end
