(* ===== verification/Jobs.thy ===== *)
theory Jobs
  imports Byte_Reader Rust_Str
begin

text \<open>
  Jobs (\<open>crates/zmanager-core/src/jobs\<close>): the events of a long-running operation, the coalescer
  that batches byte and entry progress, the context through which backends report, and the
  projection of the events that user interfaces show.  SHA-256, the identity of a path, is the
  argument \<open>sha\<close>.  The time that \<open>Instant::now()\<close> returns and the answers of the shared cancellation
  flag are streams in the context, read one after the other.
\<close>

section \<open>Events\<close>

datatype job_kind =
    ZipCreate | ZipExtract | SevenZCreate | SevenZExtract | RarExtract | TarZstdCreate | TarGzCreate | TarZstdExtract
  | TzapCreate | TzapExtract | AppleArchiveCreate | AppleArchiveExtract | ArchiveExtract | RawStreamExtract

datatype job_phase = PlanningPayload | PlanningMetadata | EmittingPayload | EmittingMetadata | CommittingOutput

datatype job_outcome = JobCompleted | JobFailed | JobCancelledOutcome

text \<open>The fields of \<open>BytesProcessed\<close> and \<open>PhaseBytesProcessed\<close> in the order of the source.\<close>

datatype job_event =
    Started job_kind "u64 option"
  | EntryStarted string "u64 option"
  | BytesProcessed "string option" "string list" "bytes list" u64 u64 u64 u64 bool
  | PhaseStarted job_phase "u64 option"
  | PhaseBytesProcessed job_phase "string option" "string list" "bytes list" u64 u64 "u64 option" bool
  | EntryFinished string u64
  | Warning string
  | Completed u64 u64
  | Failed string
  | Cancelled string

section \<open>Paths for display\<close>

definition PROGRESS_INTERVAL :: int where "PROGRESS_INTERVAL = 1000000000"
definition PROGRESS_MIN_BYTE_STEP :: u64 where "PROGRESS_MIN_BYTE_STEP = 4 * 1024 * 1024"
definition PROGRESS_RECENT_PATH_LIMIT :: nat where "PROGRESS_RECENT_PATH_LIMIT = 10"
definition PROGRESS_RECENT_PATH_BYTES_LIMIT :: nat where "PROGRESS_RECENT_PATH_BYTES_LIMIT = 4 * 1024"
definition PROGRESS_PATH_DISPLAY_BYTES_LIMIT :: nat where
  "PROGRESS_PATH_DISPLAY_BYTES_LIMIT = PROGRESS_RECENT_PATH_BYTES_LIMIT div PROGRESS_RECENT_PATH_LIMIT"
definition PROGRESS_ENTRY_STEP :: u64 where "PROGRESS_ENTRY_STEP = 128"

definition is_char_boundary :: "string \<Rightarrow> nat \<Rightarrow> bool" where
  "is_char_boundary s i \<longleftrightarrow> i = 0 \<or> i = length s \<or> (i < length s \<and> \<not> byte_in (s ! i) 0x80 0xBF)"

fun boundary_below :: "string \<Rightarrow> nat \<Rightarrow> nat" where
  "boundary_below s 0 = 0"
| "boundary_below s (Suc n) = (if is_char_boundary s (Suc n) then Suc n else boundary_below s n)"

definition truncate_utf8 :: "string \<Rightarrow> nat \<Rightarrow> string" where
  "truncate_utf8 s limit = (if length s \<le> limit then s else take (boundary_below s limit) s)"

definition path_position :: "('a \<Rightarrow> bool) \<Rightarrow> 'a list \<Rightarrow> nat option" where
  "path_position P xs = (let n = length (takeWhile (\<lambda>x. \<not> P x) xs) in if n < length xs then Some n else None)"

definition remove_at :: "nat \<Rightarrow> 'a list \<Rightarrow> 'a list" where
  "remove_at i xs = take i xs @ drop (Suc i) xs"

section \<open>The coalescer\<close>

record progress_batch =
  batch_path :: "string option"
  batch_recent_paths :: "string list"
  batch_identities :: "bytes list"
  batch_bytes :: u64
  batch_entries :: u64
  batch_truncated :: bool

record progress_coalescer =
  co_total_bytes :: "u64 option"
  pending_bytes :: u64
  pending_entries :: u64
  latest_path :: "string option"
  last_raw_path :: "string option"
  co_recent_paths :: "(bytes \<times> string) list"
  last_emitted :: int
  emitted_once :: bool
  co_truncated :: bool

definition coalescer_new_at :: "u64 option \<Rightarrow> int \<Rightarrow> progress_coalescer" where
  "coalescer_new_at t now =
     \<lparr>co_total_bytes = t, pending_bytes = 0, pending_entries = 0, latest_path = None, last_raw_path = None,
      co_recent_paths = [], last_emitted = now, emitted_once = False, co_truncated = False\<rparr>"

definition coalescer_reset_at :: "u64 option \<Rightarrow> int \<Rightarrow> progress_coalescer \<Rightarrow> progress_coalescer" where
  "coalescer_reset_at t now self =
     self\<lparr>co_total_bytes := t, pending_bytes := 0, pending_entries := 0, latest_path := None, last_raw_path := None,
          co_recent_paths := [], last_emitted := now, emitted_once := False, co_truncated := False\<rparr>"

definition flush_at :: "int \<Rightarrow> progress_coalescer \<Rightarrow> progress_batch option \<times> progress_coalescer" where
  "flush_at now self =
     (if pending_bytes self = 0 \<and> pending_entries self = 0 then (None, self)
      else (Some \<lparr>batch_path = latest_path self, batch_recent_paths = map snd (co_recent_paths self),
                  batch_identities = map fst (co_recent_paths self), batch_bytes = pending_bytes self,
                  batch_entries = pending_entries self, batch_truncated = co_truncated self\<rparr>,
            self\<lparr>emitted_once := True, last_emitted := now, latest_path := None, co_recent_paths := [],
                 pending_bytes := 0, pending_entries := 0, co_truncated := False\<rparr>))"

text \<open>The loop that drops paths from the front until they fit, and whether it dropped any.\<close>

fun drop_until_short :: "(bytes \<times> string) list \<Rightarrow> (bytes \<times> string) list \<times> bool" where
  "drop_until_short [] = ([], False)"
| "drop_until_short (p # ps) =
     (if sum_list (map (\<lambda>(_, path). length path) (p # ps)) > PROGRESS_RECENT_PATH_BYTES_LIMIT
      then (fst (drop_until_short ps), True) else (p # ps, False))"

definition push_recent :: "bytes \<Rightarrow> string \<Rightarrow> progress_coalescer \<Rightarrow> progress_coalescer" where
  "push_recent identity display_path self =
     (let ps = co_recent_paths self in
      if ps \<noteq> [] \<and> fst (last ps) = identity then self
      else
        let ps = (case path_position (\<lambda>(recent, _). recent = identity) ps of Some i \<Rightarrow> remove_at i ps | None \<Rightarrow> ps);
            ps = ps @ [(identity, display_path)];
            ps = (if length ps > PROGRESS_RECENT_PATH_LIMIT then tl ps else ps)
        in case drop_until_short ps of
             (ps, dropped) \<Rightarrow> self\<lparr>co_recent_paths := ps, co_truncated := co_truncated self \<or> dropped\<rparr>)"

definition note_path :: "(string \<Rightarrow> bytes) \<Rightarrow> string option \<Rightarrow> progress_coalescer \<Rightarrow> progress_coalescer" where
  "note_path sha path self =
     (case path of
        None \<Rightarrow> self
      | Some p \<Rightarrow>
          if last_raw_path self = Some p then self
          else let display_path = truncate_utf8 p PROGRESS_PATH_DISPLAY_BYTES_LIMIT
               in push_recent (sha p) display_path
                    (self\<lparr>last_raw_path := Some p,
                          co_truncated := co_truncated self \<or> length p > PROGRESS_PATH_DISPLAY_BYTES_LIMIT,
                          latest_path := Some display_path\<rparr>))"

definition div_ceil :: "u64 \<Rightarrow> u64 \<Rightarrow> u64" where
  "div_ceil a b = a div b + (if a mod b = 0 then 0 else 1)"

definition record_activity_at ::
  "(string \<Rightarrow> bytes) \<Rightarrow> string option \<Rightarrow> u64 \<Rightarrow> u64 \<Rightarrow> int \<Rightarrow> progress_coalescer \<Rightarrow> progress_batch option \<times> progress_coalescer" where
  "record_activity_at sha path bs entries now self =
     (if bs = 0 \<and> entries = 0 then (None, self)
      else
        let self = note_path sha path (self\<lparr>pending_bytes := saturating_add (pending_bytes self) bs,
                                            pending_entries := saturating_add (pending_entries self) entries\<rparr>);
            one_percent = div_ceil (case co_total_bytes self of None \<Rightarrow> 0 | Some t \<Rightarrow> t) 100;
            byte_step = max PROGRESS_MIN_BYTE_STEP one_percent
        in if \<not> emitted_once self \<or> pending_bytes self \<ge> byte_step \<or> pending_entries self \<ge> PROGRESS_ENTRY_STEP
              \<or> max 0 (now - last_emitted self) \<ge> PROGRESS_INTERVAL
           then flush_at now self else (None, self))"

section \<open>The context of a job\<close>

text \<open>\<open>clock\<close> and \<open>cancelled\<close> answer the \<open>n\<close>th question put to them; \<open>sink\<close> is what was emitted.\<close>

record job_context =
  cancelled :: "nat \<Rightarrow> bool"
  checks :: nat
  clock :: "nat \<Rightarrow> int"
  clock_reads :: nat
  sink :: "job_event list"
  ctx_bytes_processed :: u64
  ctx_entries_processed :: u64
  progress :: progress_coalescer
  phase_bytes :: "job_phase \<Rightarrow> u64 option"

definition context_new :: "(nat \<Rightarrow> bool) \<Rightarrow> (nat \<Rightarrow> int) \<Rightarrow> u64 option \<Rightarrow> job_context" where
  "context_new tok clk t =
     \<lparr>cancelled = tok, checks = 0, clock = clk, clock_reads = 1, sink = [], ctx_bytes_processed = 0,
      ctx_entries_processed = 0, progress = coalescer_new_at t (clk 0), phase_bytes = (\<lambda>_. None)\<rparr>"

definition emit_event :: "job_event \<Rightarrow> job_context \<Rightarrow> job_context" where
  "emit_event e self = self\<lparr>sink := sink self @ [e]\<rparr>"

definition emit_bytes_processed_batch :: "progress_batch \<Rightarrow> job_context \<Rightarrow> job_context" where
  "emit_bytes_processed_batch batch self =
     emit_event (BytesProcessed (batch_path batch) (batch_recent_paths batch) (batch_identities batch) (batch_bytes batch)
       (ctx_bytes_processed self) (batch_entries batch) (ctx_entries_processed self) (batch_truncated batch)) self"

text \<open>A step of the coalescer at the present time, and the event when it hands out a batch.\<close>

definition with_progress ::
  "(int \<Rightarrow> progress_coalescer \<Rightarrow> progress_batch option \<times> progress_coalescer) \<Rightarrow> job_context \<Rightarrow> job_context" where
  "with_progress f self =
     (case f (clock self (clock_reads self)) (progress self) of
        (batch, p) \<Rightarrow>
          let self = self\<lparr>clock_reads := Suc (clock_reads self), progress := p\<rparr>
          in case batch of None \<Rightarrow> self | Some b \<Rightarrow> emit_bytes_processed_batch b self)"

definition entry_started :: "string \<Rightarrow> u64 option \<Rightarrow> job_context \<Rightarrow> job_context" where
  "entry_started path bs self = emit_event (EntryStarted path bs) self"

definition entry_finished :: "(string \<Rightarrow> bytes) \<Rightarrow> string \<Rightarrow> u64 \<Rightarrow> job_context \<Rightarrow> job_context" where
  "entry_finished sha path bs self =
     with_progress (record_activity_at sha (Some path) 0 1)
       (emit_event (EntryFinished path bs) (self\<lparr>ctx_entries_processed := saturating_add (ctx_entries_processed self) 1\<rparr>))"

definition warning :: "string \<Rightarrow> job_context \<Rightarrow> job_context" where
  "warning m self = emit_event (Warning m) self"

definition bytes_processed :: "(string \<Rightarrow> bytes) \<Rightarrow> string option \<Rightarrow> u64 \<Rightarrow> job_context \<Rightarrow> job_context" where
  "bytes_processed sha path bs self =
     with_progress (record_activity_at sha path bs 0)
       (self\<lparr>ctx_bytes_processed := saturating_add (ctx_bytes_processed self) bs\<rparr>)"

definition flush_progress :: "job_context \<Rightarrow> job_context" where
  "flush_progress self = with_progress flush_at self"

definition phase_started :: "job_phase \<Rightarrow> u64 option \<Rightarrow> job_context \<Rightarrow> job_context" where
  "phase_started phase t self =
     (let self = flush_progress self
      in emit_event (PhaseStarted phase t) (self\<lparr>phase_bytes := (phase_bytes self)(phase \<mapsto> 0)\<rparr>))"

definition phase_bytes_processed ::
  "job_phase \<Rightarrow> string option \<Rightarrow> string list \<Rightarrow> bytes list \<Rightarrow> u64 \<Rightarrow> u64 option \<Rightarrow> bool \<Rightarrow> job_context \<Rightarrow> job_context" where
  "phase_bytes_processed phase path recent identities bs t truncated self =
     (let processed = saturating_add (case phase_bytes self phase of None \<Rightarrow> 0 | Some n \<Rightarrow> n) bs
      in emit_event (PhaseBytesProcessed phase path recent identities bs processed t truncated)
           (self\<lparr>phase_bytes := (phase_bytes self)(phase \<mapsto> processed)\<rparr>))"

text \<open>\<open>Err(JobCancelled)\<close> is \<open>True\<close>.\<close>

definition check_cancelled :: "job_context \<Rightarrow> bool \<times> job_context" where
  "check_cancelled self = (cancelled self (checks self), self\<lparr>checks := Suc (checks self)\<rparr>)"

section \<open>The projection\<close>

record job_progress_state =
  processed_bytes :: u64
  st_total_bytes :: "u64 option"
  processed_entries :: u64
  st_total_entries :: "u64 option"
  current_path :: "string option"
  st_recent_paths :: "string list"
  active_phase :: "job_phase option"
  phase_processed_bytes :: u64
  phase_total_bytes :: "u64 option"
  warning_count :: u64
  outcome :: "job_outcome option"
  st_identities :: "bytes list"

definition progress_state_default :: job_progress_state where
  "progress_state_default =
     \<lparr>processed_bytes = 0, st_total_bytes = None, processed_entries = 0, st_total_entries = None, current_path = None,
      st_recent_paths = [], active_phase = None, phase_processed_bytes = 0, phase_total_bytes = None, warning_count = 0,
      outcome = None, st_identities = []\<rparr>"

fun drop_paths_until_short :: "string list \<Rightarrow> bytes list \<Rightarrow> string list \<times> bytes list" where
  "drop_paths_until_short [] ids = ([], ids)"
| "drop_paths_until_short (p # ps) ids =
     (if sum_list (map length (p # ps)) > PROGRESS_RECENT_PATH_BYTES_LIMIT
      then drop_paths_until_short ps (tl ids) else (p # ps, ids))"

definition record_path_with_identity :: "string \<Rightarrow> bytes \<Rightarrow> job_progress_state \<Rightarrow> job_progress_state" where
  "record_path_with_identity path identity self =
     (let path = truncate_utf8 path PROGRESS_PATH_DISPLAY_BYTES_LIMIT;
          (ps, ids) = (case path_position (\<lambda>candidate. candidate = identity) (st_identities self) of
                         Some i \<Rightarrow> (remove_at i (st_recent_paths self), remove_at i (st_identities self))
                       | None \<Rightarrow> (st_recent_paths self, st_identities self));
          (ps, ids) = (ps @ [path], ids @ [identity]);
          (ps, ids) = (if length ps > PROGRESS_RECENT_PATH_LIMIT then (tl ps, tl ids) else (ps, ids));
          (ps, ids) = drop_paths_until_short ps ids
      in self\<lparr>st_recent_paths := ps, st_identities := ids, current_path := Some path\<rparr>)"

definition record_path :: "(string \<Rightarrow> bytes) \<Rightarrow> string \<Rightarrow> job_progress_state \<Rightarrow> job_progress_state" where
  "record_path sha path self = record_path_with_identity path (sha path) self"

fun record_recent :: "(string \<Rightarrow> bytes) \<Rightarrow> string list \<Rightarrow> bytes list \<Rightarrow> job_progress_state \<Rightarrow> job_progress_state" where
  "record_recent sha [] ids self = self"
| "record_recent sha (p # ps) [] self = record_recent sha ps [] (record_path_with_identity p (sha p) self)"
| "record_recent sha (p # ps) (i # ids) self = record_recent sha ps ids (record_path_with_identity p i self)"

definition last_position :: "('a \<Rightarrow> bool) \<Rightarrow> 'a list \<Rightarrow> nat option" where
  "last_position P xs = map_option (\<lambda>i. length xs - 1 - i) (path_position P (rev xs))"

definition record_paths ::
  "(string \<Rightarrow> bytes) \<Rightarrow> string option \<Rightarrow> string list \<Rightarrow> bytes list \<Rightarrow> job_progress_state \<Rightarrow> job_progress_state" where
  "record_paths sha current recent identities self =
     (let self = record_recent sha recent identities self in
      case current of
        None \<Rightarrow> self
      | Some path \<Rightarrow>
          let identity = (case last_position (\<lambda>candidate. candidate = path) recent of
                            Some i \<Rightarrow> if i < length identities then identities ! i else sha path
                          | None \<Rightarrow> sha path)
          in record_path_with_identity path identity self)"

definition apply_event :: "(string \<Rightarrow> bytes) \<Rightarrow> job_event \<Rightarrow> job_progress_state \<Rightarrow> job_progress_state" where
  "apply_event sha e self =
     (if outcome self \<noteq> None then self
      else case e of
        Started _ t \<Rightarrow> self\<lparr>st_total_bytes := t\<rparr>
      | EntryStarted path _ \<Rightarrow> record_path sha path self
      | BytesProcessed path recent identities _ total_bytes _ total_entries _ \<Rightarrow>
          record_paths sha path recent identities
            (self\<lparr>processed_bytes := max (processed_bytes self) total_bytes,
                  processed_entries := max (processed_entries self) total_entries\<rparr>)
      | PhaseStarted phase t \<Rightarrow> self\<lparr>active_phase := Some phase, phase_processed_bytes := 0, phase_total_bytes := t\<rparr>
      | PhaseBytesProcessed phase path recent identities _ total_bytes t _ \<Rightarrow>
          let self = (if active_phase self \<noteq> Some phase then self\<lparr>active_phase := Some phase, phase_processed_bytes := 0\<rparr> else self)
          in record_paths sha path recent identities
               (self\<lparr>phase_processed_bytes := max (phase_processed_bytes self) total_bytes, phase_total_bytes := t\<rparr>)
      | EntryFinished path _ \<Rightarrow> record_path sha path (self\<lparr>processed_entries := saturating_add (processed_entries self) 1\<rparr>)
      | Warning _ \<Rightarrow> self\<lparr>warning_count := saturating_add (warning_count self) 1\<rparr>
      | Completed entries bs \<Rightarrow>
          self\<lparr>processed_entries := max (processed_entries self) entries, processed_bytes := max (processed_bytes self) bs,
               outcome := Some JobCompleted\<rparr>
      | Failed _ \<Rightarrow> self\<lparr>outcome := Some JobFailed\<rparr>
      | Cancelled _ \<Rightarrow> self\<lparr>outcome := Some JobCancelledOutcome\<rparr>)"

definition project_events :: "(string \<Rightarrow> bytes) \<Rightarrow> job_event list \<Rightarrow> job_progress_state" where
  "project_events sha es = foldl (\<lambda>self e. apply_event sha e self) progress_state_default es"

section \<open>Calls on a context\<close>

datatype job_call =
    CallEntryStarted string "u64 option"
  | CallEntryFinished string u64
  | CallWarning string
  | CallBytes "string option" u64
  | CallFlush
  | CallPhaseStarted job_phase "u64 option"
  | CallPhaseBytes job_phase "string option" "string list" "bytes list" u64 "u64 option" bool

fun job_step :: "(string \<Rightarrow> bytes) \<Rightarrow> job_call \<Rightarrow> job_context \<Rightarrow> unit \<times> job_context" where
  "job_step sha (CallEntryStarted path bs) self = ((), entry_started path bs self)"
| "job_step sha (CallEntryFinished path bs) self = ((), entry_finished sha path bs self)"
| "job_step sha (CallWarning m) self = ((), warning m self)"
| "job_step sha (CallBytes path bs) self = ((), bytes_processed sha path bs self)"
| "job_step sha CallFlush self = ((), flush_progress self)"
| "job_step sha (CallPhaseStarted phase t) self = ((), phase_started phase t self)"
| "job_step sha (CallPhaseBytes phase path recent ids bs t truncated) self =
     ((), phase_bytes_processed phase path recent ids bs t truncated self)"

fun call_bytes :: "job_call \<Rightarrow> nat" where
  "call_bytes (CallBytes _ bs) = unat bs"
| "call_bytes _ = 0"

fun call_entries :: "job_call \<Rightarrow> nat" where
  "call_entries (CallEntryFinished _ _) = 1"
| "call_entries _ = 0"

fun event_bytes :: "job_event \<Rightarrow> nat" where
  "event_bytes (BytesProcessed _ _ _ bs _ _ _ _) = unat bs"
| "event_bytes _ = 0"

section \<open>Paths stay short\<close>

lemma boundary_below_le: "boundary_below s n \<le> n"
  by (induction n) (auto intro: le_SucI)

lemma length_truncate_utf8: "length (truncate_utf8 s limit) \<le> limit"
  using boundary_below_le [of s limit] by (auto simp: truncate_utf8_def)

definition short_paths :: "string list \<Rightarrow> bool" where
  "short_paths ps \<longleftrightarrow>
     length ps \<le> PROGRESS_RECENT_PATH_LIMIT \<and> (\<forall>p \<in> set ps. length p \<le> PROGRESS_PATH_DISPLAY_BYTES_LIMIT)"

lemma sum_lengths_le: "\<forall>p \<in> set ps. length p \<le> n \<Longrightarrow> sum_list (map length ps) \<le> length ps * n"
  by (induction ps) auto

lemma short_paths_sum: "short_paths ps \<Longrightarrow> sum_list (map length ps) \<le> PROGRESS_RECENT_PATH_BYTES_LIMIT"
proof -
  assume s: "short_paths ps"
  have "sum_list (map length ps) \<le> length ps * PROGRESS_PATH_DISPLAY_BYTES_LIMIT"
    using s by (intro sum_lengths_le) (simp add: short_paths_def)
  also have "\<dots> \<le> PROGRESS_RECENT_PATH_LIMIT * PROGRESS_PATH_DISPLAY_BYTES_LIMIT"
    using s by (intro mult_right_mono) (simp_all add: short_paths_def)
  also have "\<dots> \<le> PROGRESS_RECENT_PATH_BYTES_LIMIT"
    by (simp add: PROGRESS_RECENT_PATH_LIMIT_def PROGRESS_PATH_DISPLAY_BYTES_LIMIT_def PROGRESS_RECENT_PATH_BYTES_LIMIT_def)
  finally show ?thesis .
qed

text \<open>So the loops that enforce the byte limit never run.\<close>

lemma drop_until_short_id: "short_paths (map snd ps) \<Longrightarrow> drop_until_short ps = (ps, False)"
proof -
  assume "short_paths (map snd ps)"
  then have "sum_list (map (\<lambda>(_, path). length path) ps) \<le> PROGRESS_RECENT_PATH_BYTES_LIMIT"
    using short_paths_sum [of "map snd ps"] by (simp add: comp_def case_prod_beta')
  then show ?thesis by (cases ps) auto
qed

lemma drop_paths_until_short_id: "short_paths ps \<Longrightarrow> drop_paths_until_short ps ids = (ps, ids)"
  using short_paths_sum [of ps] by (cases ps) auto

lemma path_position_Some: "path_position P xs = Some i \<Longrightarrow> i < length xs \<and> P (xs ! i)"
  by (auto simp: path_position_def Let_def split: if_splits dest: nth_length_takeWhile)

lemma path_position_None: "path_position P xs = None \<Longrightarrow> \<forall>x \<in> set xs. \<not> P x"
proof -
  assume "path_position P xs = None"
  then have "length (takeWhile (\<lambda>x. \<not> P x) xs) = length xs"
    using length_takeWhile_le [of "\<lambda>x. \<not> P x" xs] by (simp add: path_position_def Let_def split: if_splits)
  then have "takeWhile (\<lambda>x. \<not> P x) xs = xs" by (metis takeWhile_eq_take take_all order_refl)
  then show ?thesis by (simp add: takeWhile_eq_all_conv)
qed

lemma set_remove_at: "set (remove_at i xs) \<subseteq> set xs"
  by (auto simp: remove_at_def dest: in_set_takeD in_set_dropD)

lemma length_remove_at: "i < length xs \<Longrightarrow> length (remove_at i xs) = length xs - 1"
  by (simp add: remove_at_def)

lemma map_remove_at: "map f (remove_at i xs) = remove_at i (map f xs)"
  by (simp add: remove_at_def take_map drop_map)

lemma distinct_remove_at:
  assumes "distinct xs" "i < length xs"
  shows "distinct (remove_at i xs) \<and> xs ! i \<notin> set (remove_at i xs)"
proof -
  have "xs = take i xs @ xs ! i # drop (Suc i) xs" using assms(2) by (rule id_take_nth_drop)
  then have "distinct (take i xs @ xs ! i # drop (Suc i) xs)" using assms(1) by simp
  then show ?thesis by (auto simp: remove_at_def)
qed

definition batch_ok :: "string list \<Rightarrow> bytes list \<Rightarrow> bool" where
  "batch_ok ps ids \<longleftrightarrow> short_paths ps \<and> length ids = length ps \<and> distinct ids"

definition coalescer_ok :: "progress_coalescer \<Rightarrow> bool" where
  "coalescer_ok p \<longleftrightarrow> batch_ok (map snd (co_recent_paths p)) (map fst (co_recent_paths p))"

text \<open>Dropping the old occurrence of a path, appending it anew, and dropping the front when the list is too long.\<close>

lemma batch_forget:
  assumes "batch_ok ps ids" "path_position (\<lambda>j. j = i) ids = r"
    "qs = (case r of Some k \<Rightarrow> remove_at k ps | None \<Rightarrow> ps)" "js = (case r of Some k \<Rightarrow> remove_at k ids | None \<Rightarrow> ids)"
  shows "batch_ok qs js" "i \<notin> set js"
proof -
  have "batch_ok qs js \<and> i \<notin> set js"
  proof (cases r)
    case None
    then show ?thesis using assms path_position_None [of "\<lambda>j. j = i" ids] by auto
  next
    case (Some k)
    then have k: "k < length ids" "ids ! k = i" using assms(2) path_position_Some [of "\<lambda>j. j = i" ids k] by auto
    then show ?thesis using assms Some distinct_remove_at [of ids k] set_remove_at [of k ps]
      by (auto simp: batch_ok_def short_paths_def length_remove_at)
  qed
  then show "batch_ok qs js" "i \<notin> set js" by simp_all
qed

lemma batch_push:
  assumes "batch_ok qs js" "i \<notin> set js" "length p \<le> PROGRESS_PATH_DISPLAY_BYTES_LIMIT"
    "long \<longleftrightarrow> length (qs @ [p]) > PROGRESS_RECENT_PATH_LIMIT"
  shows "batch_ok (if long then tl (qs @ [p]) else qs @ [p]) (if long then tl (js @ [i]) else js @ [i])"
  using assms by (cases qs; cases js) (auto simp: batch_ok_def short_paths_def PROGRESS_RECENT_PATH_LIMIT_def)

lemma path_position_map: "path_position P (map f xs) = path_position (\<lambda>x. P (f x)) xs"
  by (simp add: path_position_def takeWhile_map comp_def)

lemma push_recent_ok:
  assumes "coalescer_ok p" "length display \<le> PROGRESS_PATH_DISPLAY_BYTES_LIMIT"
  shows "coalescer_ok (push_recent identity display p)"
proof -
  let ?ps = "co_recent_paths p"
  define r where "r = path_position (\<lambda>(recent, _). recent = identity) ?ps"
  define qs where "qs = (case r of Some i \<Rightarrow> remove_at i ?ps | None \<Rightarrow> ?ps)"
  define rs where "rs = (if length (qs @ [(identity, display)]) > PROGRESS_RECENT_PATH_LIMIT then tl (qs @ [(identity, display)]) else qs @ [(identity, display)])"
  have r: "path_position (\<lambda>j. j = identity) (map fst ?ps) = r" by (simp add: r_def path_position_map case_prod_beta')
  have q: "map snd qs = (case r of Some i \<Rightarrow> remove_at i (map snd ?ps) | None \<Rightarrow> map snd ?ps)"
    "map fst qs = (case r of Some i \<Rightarrow> remove_at i (map fst ?ps) | None \<Rightarrow> map fst ?ps)"
    by (simp_all add: qs_def map_remove_at split: option.split)
  have "batch_ok (map snd rs) (map fst rs)"
    using batch_push [OF batch_forget [OF assms(1) [unfolded coalescer_ok_def] r q] assms(2) refl]
    by (auto simp: rs_def map_tl split: if_splits)
  then have "coalescer_ok (p\<lparr>co_recent_paths := rs\<rparr>)" "drop_until_short rs = (rs, False)"
    by (simp_all add: coalescer_ok_def batch_ok_def drop_until_short_id)
  then show ?thesis using assms(1)
    unfolding push_recent_def Let_def r_def [symmetric] qs_def [symmetric] rs_def [symmetric] by simp
qed

lemma push_recent_frame [simp]:
  "pending_bytes (push_recent identity display p) = pending_bytes p"
  "pending_entries (push_recent identity display p) = pending_entries p"
  by (simp_all add: push_recent_def Let_def split: prod.split)

lemma note_path_frame [simp]:
  "pending_bytes (note_path sha path p) = pending_bytes p"
  "pending_entries (note_path sha path p) = pending_entries p"
  by (simp_all add: note_path_def Let_def split: option.split)

lemma note_path_ok: "coalescer_ok p \<Longrightarrow> coalescer_ok (note_path sha path p)"
  using length_truncate_utf8 by (auto simp: note_path_def Let_def coalescer_ok_def split: option.split intro!: push_recent_ok [unfolded coalescer_ok_def])

section \<open>No byte is lost\<close>

text \<open>What a step of the coalescer does that is given \<open>bs\<close> bytes: it keeps them pending or hands
  everything pending out in a batch.\<close>

definition progress_step :: "u64 \<Rightarrow> progress_coalescer \<Rightarrow> progress_batch option \<times> progress_coalescer \<Rightarrow> bool" where
  "progress_step bs p r \<longleftrightarrow>
     (case r of (b, q) \<Rightarrow>
        coalescer_ok q \<and>
        (case b of
           None \<Rightarrow> pending_bytes q = saturating_add (pending_bytes p) bs
         | Some b \<Rightarrow> pending_bytes q = 0 \<and> batch_bytes b = saturating_add (pending_bytes p) bs \<and>
                     batch_ok (batch_recent_paths b) (batch_identities b)))"

lemma saturating_add_0 [simp]: "saturating_add a 0 = a" for a :: "'a::len word"
  using unsigned_less [of a, where ?'a = nat] by (simp add: saturating_add_def)

lemma saturating_add_eq_0 [simp]: "saturating_add a b = 0 \<longleftrightarrow> a = 0 \<and> b = 0" for a b :: u64
proof -
  have "unat (saturating_add a b) = 0 \<longleftrightarrow> unat a + unat b = 0"
    unfolding unat_saturating_add by (auto simp: min_def)
  then show ?thesis by (simp add: unat_0_iff)
qed

lemma flush_at_step:
  assumes "coalescer_ok p"
  shows "progress_step 0 p (flush_at now p)" "fst (flush_at now p) = None \<Longrightarrow> pending_bytes p = 0"
  using assms by (auto simp: progress_step_def flush_at_def coalescer_ok_def batch_ok_def short_paths_def split: if_splits)

lemma record_activity_step:
  assumes "coalescer_ok p"
  shows "progress_step bs p (record_activity_at sha path bs entries now p)"
proof (cases "bs = 0 \<and> entries = 0")
  case True
  then show ?thesis using assms by (simp add: record_activity_at_def progress_step_def)
next
  case False
  define q where "q = note_path sha path (p\<lparr>pending_bytes := saturating_add (pending_bytes p) bs,
    pending_entries := saturating_add (pending_entries p) entries\<rparr>)"
  have q: "coalescer_ok q" "pending_bytes q = saturating_add (pending_bytes p) bs"
    using assms by (simp_all add: q_def note_path_ok coalescer_ok_def [of "p\<lparr>pending_bytes := _, pending_entries := _\<rparr>"] coalescer_ok_def [of p])
  have "record_activity_at sha path bs entries now p \<in> {flush_at now q, (None, q)}"
    using False by (auto simp: record_activity_at_def Let_def q_def)
  then show ?thesis using flush_at_step(1) [OF q(1), of now] q by (auto simp: progress_step_def split: option.splits)
qed

section \<open>The projection follows the context\<close>

lemma record_path_with_identity_frame [simp]:
  "processed_bytes (record_path_with_identity path i s) = processed_bytes s"
  "processed_entries (record_path_with_identity path i s) = processed_entries s"
  "outcome (record_path_with_identity path i s) = outcome s"
  by (simp_all add: record_path_with_identity_def Let_def split: prod.split)

lemma record_recent_frame [simp]:
  "processed_bytes (record_recent sha ps ids s) = processed_bytes s"
  "processed_entries (record_recent sha ps ids s) = processed_entries s"
  "outcome (record_recent sha ps ids s) = outcome s"
  by (induction sha ps ids s rule: record_recent.induct) simp_all

lemma record_paths_frame [simp]:
  "processed_bytes (record_paths sha c ps ids s) = processed_bytes s"
  "processed_entries (record_paths sha c ps ids s) = processed_entries s"
  "outcome (record_paths sha c ps ids s) = outcome s"
  by (simp_all add: record_paths_def Let_def split: option.split)

lemma project_events_snoc [simp]: "project_events sha (es @ [e]) = apply_event sha e (project_events sha es)"
  by (simp add: project_events_def)

fun event_paths_ok :: "job_event \<Rightarrow> bool" where
  "event_paths_ok (BytesProcessed _ ps ids _ _ _ _ _) \<longleftrightarrow> batch_ok ps ids"
| "event_paths_ok _ \<longleftrightarrow> True"

definition total_of :: "(job_call \<Rightarrow> nat) \<Rightarrow> (job_call \<times> unit) list \<Rightarrow> nat" where
  "total_of f log = sum_list (map (\<lambda>(c, _). f c) log)"

lemma total_of_snoc [simp]: "total_of f [] = 0" "total_of f (log @ [(c, r)]) = total_of f log + f c"
  by (simp_all add: total_of_def)

text \<open>The context after the calls of a log: its counters, what is pending, and the projection of
  what has been emitted.\<close>

definition tracks :: "(string \<Rightarrow> bytes) \<Rightarrow> nat \<Rightarrow> nat \<Rightarrow> job_context \<Rightarrow> bool" where
  "tracks sha n k ctx \<longleftrightarrow>
     unat (ctx_bytes_processed ctx) = min n (2 ^ 64 - 1) \<and>
     unat (ctx_entries_processed ctx) = min k (2 ^ 64 - 1) \<and>
     coalescer_ok (progress ctx) \<and> list_all event_paths_ok (sink ctx) \<and>
     (n < 2 ^ 64 \<longrightarrow> sum_list (map event_bytes (sink ctx)) + unat (pending_bytes (progress ctx)) = n) \<and>
     outcome (project_events sha (sink ctx)) = None \<and>
     processed_entries (project_events sha (sink ctx)) = ctx_entries_processed ctx \<and>
     processed_bytes (project_events sha (sink ctx)) \<le> ctx_bytes_processed ctx \<and>
     (pending_bytes (progress ctx) = 0 \<longrightarrow> processed_bytes (project_events sha (sink ctx)) = ctx_bytes_processed ctx)"

lemma tracks_emit:
  assumes "tracks sha n k ctx" "event_paths_ok e" "event_bytes e = 0" "outcome (apply_event sha e s) = None"
    "s = project_events sha (sink ctx)" "processed_bytes (apply_event sha e s) = processed_bytes s"
    "processed_entries (apply_event sha e s) = processed_entries s"
  shows "tracks sha n k (emit_event e ctx)"
  using assms by (simp add: tracks_def emit_event_def)

text \<open>A step of the coalescer that is given \<open>bs\<close> bytes of an operation that has counted them.\<close>

lemma tracks_progress:
  assumes t: "tracks sha n k ctx" and f: "progress_step bs (progress ctx) (f (clock ctx (clock_reads ctx)) (progress ctx))"
    and k: "unat entries = min k' (2 ^ 64 - 1)" "processed_entries (project_events sha es) = entries"
    and es: "sum_list (map event_bytes es) = sum_list (map event_bytes (sink ctx))" "list_all event_paths_ok es"
      "outcome (project_events sha es) = None"
      "processed_bytes (project_events sha es) = processed_bytes (project_events sha (sink ctx))"
  shows "tracks sha (n + unat bs) k' (with_progress f
    (ctx\<lparr>ctx_bytes_processed := saturating_add (ctx_bytes_processed ctx) bs, ctx_entries_processed := entries, sink := es\<rparr>))"
proof -
  obtain b q where r: "f (clock ctx (clock_reads ctx)) (progress ctx) = (b, q)" by fastforce
  have bytes: "unat (saturating_add (ctx_bytes_processed ctx) bs) = min (n + unat bs) (2 ^ 64 - 1)"
    using t by (simp add: tracks_def bound_simps)
  have grow: "ctx_bytes_processed ctx \<le> saturating_add (ctx_bytes_processed ctx) bs" by (rule saturating_add_mono)
  have pend: "unat (saturating_add (pending_bytes (progress ctx)) bs) = unat (pending_bytes (progress ctx)) + unat bs" if "n + unat bs < 2 ^ 64"
    using that t by (auto simp: tracks_def bound_simps)
  show ?thesis
  proof (cases b)
    case None
    then show ?thesis using t f k es bytes grow pend
      by (auto simp: tracks_def with_progress_def r progress_step_def)
  next
    case (Some b')
    then show ?thesis using t f k es bytes grow pend
      by (auto simp: tracks_def with_progress_def r progress_step_def emit_bytes_processed_batch_def emit_event_def apply_event_def max_def)
  qed
qed

lemma tracks_flush:
  assumes "tracks sha n k ctx"
  shows "tracks sha n k (flush_progress ctx)"
    "processed_bytes (project_events sha (sink (flush_progress ctx))) = ctx_bytes_processed ctx"
    "pending_bytes (progress (flush_progress ctx)) = 0"
proof -
  let ?now = "clock ctx (clock_reads ctx)"
  have ok: "coalescer_ok (progress ctx)" using assms by (simp add: tracks_def)
  have same: "ctx\<lparr>ctx_bytes_processed := saturating_add (ctx_bytes_processed ctx) 0, ctx_entries_processed := ctx_entries_processed ctx, sink := sink ctx\<rparr> = ctx"
    by simp
  show t: "tracks sha n k (flush_progress ctx)"
    using tracks_progress [where f = flush_at and bs = 0, OF assms flush_at_step(1) [OF ok], of "ctx_entries_processed ctx" k "sink ctx"] assms
    unfolding flush_progress_def same by (simp add: tracks_def)
  have p: "pending_bytes (progress (flush_progress ctx)) = 0 \<and> ctx_bytes_processed (flush_progress ctx) = ctx_bytes_processed ctx"
  proof -
    obtain b q where r: "flush_at ?now (progress ctx) = (b, q)" by fastforce
    show ?thesis using flush_at_step [OF ok, of ?now] unfolding flush_progress_def with_progress_def r
      by (cases b) (simp_all add: progress_step_def emit_bytes_processed_batch_def emit_event_def)
  qed
  then show "processed_bytes (project_events sha (sink (flush_progress ctx))) = ctx_bytes_processed ctx" "pending_bytes (progress (flush_progress ctx)) = 0"
    using t by (simp_all add: tracks_def)
qed

lemma tracks_step:
  assumes "tracks sha n k ctx" "job_step sha c ctx = (u, ctx')"
  shows "tracks sha (n + call_bytes c) (k + call_entries c) ctx'"
proof -
  have open_job: "outcome (project_events sha (sink ctx)) = None" using assms(1) by (simp add: tracks_def)
  have ok: "coalescer_ok (progress ctx)" using assms(1) by (simp add: tracks_def)
  show ?thesis
  proof (cases c)
    case (CallBytes path bs)
    have same: "ctx\<lparr>ctx_bytes_processed := x, ctx_entries_processed := ctx_entries_processed ctx, sink := sink ctx\<rparr> = ctx\<lparr>ctx_bytes_processed := x\<rparr>" for x
      by simp
    show ?thesis
      using tracks_progress [where f = "record_activity_at sha path bs 0" and bs = bs, OF assms(1) record_activity_step [OF ok],
        of "ctx_entries_processed ctx" k "sink ctx"] assms
      unfolding same by (simp add: CallBytes bytes_processed_def tracks_def)
  next
    case (CallEntryFinished path bs)
    let ?es = "sink ctx @ [EntryFinished path bs]" and ?n = "saturating_add (ctx_entries_processed ctx) 1"
    have same: "emit_event (EntryFinished path bs) (ctx\<lparr>ctx_entries_processed := ?n\<rparr>) =
        ctx\<lparr>ctx_bytes_processed := saturating_add (ctx_bytes_processed ctx) 0, ctx_entries_processed := ?n, sink := ?es\<rparr>"
      by (simp add: emit_event_def)
    have "unat ?n = min (Suc k) (2 ^ 64 - 1)" using assms(1) by (simp add: tracks_def bound_simps)
    then show ?thesis
      using tracks_progress [where f = "record_activity_at sha (Some path) 0 1" and bs = 0, OF assms(1) record_activity_step [OF ok],
        of ?n "Suc k" ?es] assms
      unfolding same [symmetric]
      by (simp add: CallEntryFinished entry_finished_def tracks_def apply_event_def record_path_def)
  next
    case CallFlush
    then show ?thesis using assms tracks_flush(1) by auto
  next
    case (CallPhaseStarted phase t)
    have f: "tracks sha n k (flush_progress ctx)" by (rule tracks_flush(1) [OF assms(1)])
    then have "tracks sha n k ((flush_progress ctx)\<lparr>phase_bytes := m\<rparr>)" for m by (simp add: tracks_def)
    from tracks_emit [OF this, of "PhaseStarted phase t"] f show ?thesis using assms(2)
      by (auto simp: CallPhaseStarted phase_started_def Let_def apply_event_def tracks_def)
  next
    case (CallPhaseBytes phase path recent ids bs t truncated)
    have "tracks sha n k (ctx\<lparr>phase_bytes := m\<rparr>)" for m using assms(1) by (simp add: tracks_def)
    from tracks_emit [OF this] show ?thesis using assms(2) open_job
      by (auto simp: CallPhaseBytes phase_bytes_processed_def Let_def apply_event_def)
  qed (use assms open_job tracks_emit [OF assms(1)] in
      \<open>auto simp: entry_started_def warning_def apply_event_def record_path_def\<close>)
qed

interpretation job_reports: logged_object "job_step sha" "\<lambda>log. tracks sha (total_of call_bytes log) (total_of call_entries log)" for sha
  by unfold_locales (use tracks_step in fastforce)



text \<open>The projection keeps at most ten distinct paths, its two vectors stay aligned (so that \<open>remove\<close> stays
  in range), and its byte limit never has to act.\<close>

lemma record_path_with_identity_ok:
  assumes "batch_ok (st_recent_paths s) (st_identities s)"
  shows "batch_ok (st_recent_paths (record_path_with_identity path i s)) (st_identities (record_path_with_identity path i s))"
proof -
  let ?p = "truncate_utf8 path PROGRESS_PATH_DISPLAY_BYTES_LIMIT"
  define r where "r = path_position (\<lambda>j. j = i) (st_identities s)"
  define qs where "qs = (case r of Some k \<Rightarrow> remove_at k (st_recent_paths s) | None \<Rightarrow> st_recent_paths s)"
  define js where "js = (case r of Some k \<Rightarrow> remove_at k (st_identities s) | None \<Rightarrow> st_identities s)"
  have e: "(case r of Some k \<Rightarrow> (remove_at k (st_recent_paths s), remove_at k (st_identities s))
            | None \<Rightarrow> (st_recent_paths s, st_identities s)) = (qs, js)"
    by (simp add: qs_def js_def split: option.split)
  have ok: "batch_ok (if length (qs @ [?p]) > PROGRESS_RECENT_PATH_LIMIT then tl (qs @ [?p]) else qs @ [?p])
      (if length (qs @ [?p]) > PROGRESS_RECENT_PATH_LIMIT then tl (js @ [i]) else js @ [i])"
    using batch_push [OF batch_forget [OF assms r_def [symmetric] qs_def js_def] length_truncate_utf8 refl] .
  then show ?thesis
    unfolding record_path_with_identity_def Let_def r_def [symmetric] e
    by (auto simp: drop_paths_until_short_id batch_ok_def split: if_splits)
qed

lemma project_events_paths:
  "batch_ok (st_recent_paths (project_events sha es)) (st_identities (project_events sha es))"
proof (induction es rule: rev_induct)
  case Nil
  show ?case by (simp add: project_events_def progress_state_default_def batch_ok_def short_paths_def)
next
  case (snoc e es)
  let ?ok = "\<lambda>s. batch_ok (st_recent_paths s) (st_identities s)"
  have recent: "?ok s \<Longrightarrow> ?ok (record_recent sha ps ids s)" for ps ids s
    by (induction sha ps ids s rule: record_recent.induct) (simp_all add: record_path_with_identity_ok)
  have paths: "?ok s \<Longrightarrow> ?ok (record_paths sha c ps ids s)" for c ps ids s
    using recent by (simp add: record_paths_def Let_def record_path_with_identity_ok split: option.split)
  show ?case using snoc paths
    by (auto simp: apply_event_def Let_def record_path_def record_path_with_identity_ok split: job_event.split)
qed

text \<open>A terminal event ends the projection: whatever comes later changes nothing.\<close>

lemma project_events_terminal:
  "outcome (project_events sha es) = Some r \<Longrightarrow> project_events sha (es @ es') = project_events sha es"
  by (induction es' rule: rev_induct) (simp_all add: apply_event_def flip: append_assoc)

end
