(* ===== verification/Extract_Loop.thy ===== *)
theory Extract_Loop
  imports Jobs Safety_Planner Link_Order Atomic_File Raw_Stream
begin

text \<open>
  The per-entry extraction protocol that the backends share
  (\<open>crates/zmanager-core/src/extract_loop.rs\<close>), the helpers that turn entries into files and links
  (\<open>extract_materialize.rs\<close>) and the bound on decoded intermediates (\<open>decoded_reader.rs\<close>).  What is a
  backend's own, reading its archive and materialising an entry, is an argument; its state, with
  the rest of its report, is the field \<open>world\<close>.
\<close>

section \<open>Errors and state\<close>

text \<open>A backend's error type has a variant for safety errors and one for cancellation (the \<open>From\<close>
  bounds), and keeps I/O errors with their path.\<close>

datatype 'e extract_error =
  SafetyError extraction_safety_error | JobCancelledError | IoError path io_error | BackendError 'e

record 'w extraction =
  skipped_entries :: nat
  report_warnings :: "string list"
  job :: "job_context option"
  world :: 'w

datatype entry_action = SkipAction | WriteAction path bool "path option"

definition check_job :: "job_context option \<Rightarrow> bool \<times> job_context option" where
  "check_job j = (case j of None \<Rightarrow> (False, None) | Some c \<Rightarrow> (case check_cancelled c of (b, c') \<Rightarrow> (b, Some c')))"

section \<open>One entry\<close>

definition trim_matches :: "char \<Rightarrow> string \<Rightarrow> string" where
  "trim_matches c s = rev (dropWhile (\<lambda>x. x = c) (rev (dropWhile (\<lambda>x. x = c) s)))"

definition is_root_entry_path :: "string \<Rightarrow> bool" where
  "is_root_entry_path p \<longleftrightarrow> (let trimmed = trim_matches (CHR ''/'') p in trimmed = '''' \<or> trimmed = ''.'')"

definition is_archive_root_directory :: "string \<Rightarrow> extraction_entry_kind \<Rightarrow> bool" where
  "is_archive_root_directory p k \<longleftrightarrow> k = Directory \<and> is_root_entry_path p"

definition skip_entry :: "string \<Rightarrow> 'w extraction \<Rightarrow> 'w extraction" where
  "skip_entry m s =
     s\<lparr>skipped_entries := Suc (skipped_entries s), report_warnings := report_warnings s @ [m],
       job := map_option (warning m) (job s)\<rparr>"

definition process_planned_entry ::
  "(string \<Rightarrow> bytes) \<Rightarrow> extraction_entry \<Rightarrow> extraction_decision \<Rightarrow>
   (entry_action \<Rightarrow> 'w extraction \<Rightarrow> ('e extract_error, u64) result \<times> 'w extraction) \<Rightarrow>
   'w extraction \<Rightarrow> ('e extract_error, u64) result \<times> 'w extraction" where
  "process_planned_entry sha entry decision materialize s =
     (case check_job (job s) of
        (True, j) \<Rightarrow> (Inl JobCancelledError, s\<lparr>job := j\<rparr>)
      | (False, j) \<Rightarrow>
          let s = s\<lparr>job := map_option (entry_started (archive_path entry) (uncompressed_size entry)) j\<rparr> in
          and_then_st
            (case decision of
               Write _ dest link replace \<Rightarrow> materialize (WriteAction dest replace link) s
             | Skip _ reason \<Rightarrow>
                 and_then_st (materialize SkipAction s) (\<lambda>_ s.
                   (Inr 0, skip_entry (''skipped '' @ archive_path entry @ '': '' @ reason) s)))
            (\<lambda>processed s. (Inr processed, s\<lparr>job := map_option (entry_finished sha (archive_path entry) processed) (job s)\<rparr>)))"

text \<open>\<open>h\<close> and \<open>resolver\<close> are the file system and the overwrite prompt at the time of the call.\<close>

definition process_extraction_entry ::
  "(string \<Rightarrow> string) \<Rightarrow> (string \<Rightarrow> bytes) \<Rightarrow>
   (entry_action \<Rightarrow> 'w extraction \<Rightarrow> ('e extract_error, u64) result \<times> 'w extraction) \<Rightarrow>
   host \<times> overwrite_resolver \<times> extraction_entry \<Rightarrow> planner \<times> 'w extraction \<Rightarrow>
   ('e extract_error, u64) result \<times> planner \<times> 'w extraction" where
  "process_extraction_entry ulower sha materialize c ps =
     (case (c, ps) of ((h, resolver, entry), (planner, s)) \<Rightarrow>
        if is_archive_root_directory (archive_path entry) (entry_kind entry)
        then (case and_then_st (materialize SkipAction s) (\<lambda>_ s. (Inr 0, skip_entry ''skipped archive root directory entry'' s)) of
                (r, s) \<Rightarrow> (r, planner, s))
        else case validate_entry ulower h resolver entry planner of
               (Inl e, planner) \<Rightarrow> (Inl (SafetyError e), planner, s)
             | (Inr decision, planner) \<Rightarrow>
                 (case process_planned_entry sha entry decision materialize s of (r, s) \<Rightarrow> (r, planner, s)))"

text \<open>A backend's loop over its entries: the first error ends it.\<close>

fun extract_entries ::
  "(string \<Rightarrow> string) \<Rightarrow> (string \<Rightarrow> bytes) \<Rightarrow>
   (entry_action \<Rightarrow> 'w extraction \<Rightarrow> ('e extract_error, u64) result \<times> 'w extraction) \<Rightarrow>
   (host \<times> overwrite_resolver \<times> extraction_entry) list \<Rightarrow> planner \<times> 'w extraction \<Rightarrow>
   ('e extract_error, unit) result \<times> planner \<times> 'w extraction" where
  "extract_entries ulower sha materialize [] ps = (Inr (), ps)"
| "extract_entries ulower sha materialize (c # cs) ps =
     and_then_st (process_extraction_entry ulower sha materialize c ps) (\<lambda>_. extract_entries ulower sha materialize cs)"

section \<open>Copying an entry to its file\<close>

text \<open>The loop of \<open>copy_file_entry\<close>, with fuel for readers that never end.\<close>

fun copy_entry_loop ::
  "(string \<Rightarrow> bytes) \<Rightarrow> (nat \<Rightarrow> 'r \<Rightarrow> ('e, bytes) result \<times> 'r) \<Rightarrow> nat \<Rightarrow> string option \<Rightarrow> atomic_output \<Rightarrow> nat \<Rightarrow> u64 \<Rightarrow>
   'r \<Rightarrow> job_context option \<Rightarrow> disk \<Rightarrow> (('e extract_error, u64) result \<times> 'r \<times> job_context option \<times> disk) option" where
  "copy_entry_loop sha rd n ap output 0 written r j d = None"
| "copy_entry_loop sha rd n ap output (Suc fuel) written r j d =
     (case check_job j of
        (True, j) \<Rightarrow> Some (Inl JobCancelledError, r, j, d)
      | (False, j) \<Rightarrow>
          (case rd n r of
             (Inl e, r) \<Rightarrow> Some (Inl (BackendError e), r, j, d)
           | (Inr bs, r) \<Rightarrow>
               if bs = [] then Some (Inr written, r, j, d)
               else case output_write output bs d of
                      (Inl e, d) \<Rightarrow> Some (Inl (IoError (final_path output) e), r, j, d)
                    | (Inr _, d) \<Rightarrow>
                        copy_entry_loop sha rd n ap output fuel (written + word_of_nat (length bs)) r
                          (map_option (bytes_processed sha ap (word_of_nat (length bs))) j) d))"

definition copy_file_entry ::
  "(string \<Rightarrow> bytes) \<Rightarrow> string \<Rightarrow> path \<Rightarrow> bool \<Rightarrow> string option \<Rightarrow> nat \<Rightarrow> (nat \<Rightarrow> 'r \<Rightarrow> ('e, bytes) result \<times> 'r) \<Rightarrow> nat \<Rightarrow>
   'r \<Rightarrow> job_context option \<Rightarrow> disk \<Rightarrow> (('e extract_error, u64) result \<times> 'r \<times> job_context option \<times> disk) option" where
  "copy_file_entry sha stamp dest replace ap n rd fuel r j d =
     (case output_create stamp dest d of
        (Inl e, d) \<Rightarrow> Some (Inl (IoError dest e), r, j, d)
      | (Inr output, d) \<Rightarrow>
          (case copy_entry_loop sha rd n ap output fuel 0 r j d of
             None \<Rightarrow> None
           | Some (Inl e, r, j, d) \<Rightarrow> Some (Inl e, r, j, drop_output output d)
           | Some (Inr written, r, j, d) \<Rightarrow>
               (case commit_with_replace replace output d of
                  (Inl e, d) \<Rightarrow> Some (Inl (IoError dest e), r, j, d)
                | (Inr _, d) \<Rightarrow> Some (Inr written, r, j, d))))"

section \<open>The progress writer\<close>

text \<open>An I/O error that wraps a value of another type is told by the name of that type.\<close>

definition job_cancelled_io :: io_error where
  "job_cancelled_io = io_err (OtherKind ''JobCancelled'') ''job cancelled''"

definition is_job_cancelled :: "io_error \<Rightarrow> bool" where
  "is_job_cancelled e \<longleftrightarrow> kind e = OtherKind ''JobCancelled''"

record 'w job_progress_writer =
  jw_inner :: 'w
  jw_job :: "job_context option"
  jw_path :: string

definition job_write ::
  "(string \<Rightarrow> bytes) \<Rightarrow> (bytes \<Rightarrow> 'w \<Rightarrow> (io_error, nat) result \<times> 'w) \<Rightarrow> bytes \<Rightarrow> 'w job_progress_writer \<Rightarrow>
   (io_error, nat) result \<times> 'w job_progress_writer" where
  "job_write sha wr buffer self =
     (case jw_job self of
        None \<Rightarrow> (case wr buffer (jw_inner self) of (r, w) \<Rightarrow> (r, self\<lparr>jw_inner := w\<rparr>))
      | Some c \<Rightarrow>
          (case check_cancelled c of
             (True, c) \<Rightarrow> (Inl job_cancelled_io, self\<lparr>jw_job := Some c\<rparr>)
           | (False, c) \<Rightarrow>
               (case wr buffer (jw_inner self) of
                  (Inl e, w) \<Rightarrow> (Inl e, self\<lparr>jw_inner := w, jw_job := Some c\<rparr>)
                | (Inr n, w) \<Rightarrow>
                    (Inr n, self\<lparr>jw_inner := w, jw_job := Some (bytes_processed sha (Some (jw_path self)) (word_of_nat n) c)\<rparr>))))"

section \<open>Bounded decoding\<close>

definition decoded_size_limit_io :: io_error where
  "decoded_size_limit_io = io_err (OtherKind ''DecodedSizeLimitExceeded'')
     ''decoded archive exceeds the configured temporary-intermediate byte limit''"

definition is_size_limit :: "io_error \<Rightarrow> bool" where
  "is_size_limit e \<longleftrightarrow> kind e = OtherKind ''DecodedSizeLimitExceeded''"

record 'r bounded_decoder =
  bd_inner :: 'r
  bd_remaining :: "nat option"
  bd_token :: "(nat \<Rightarrow> bool) option"
  bd_checks :: nat

definition bounded_new :: "'r \<Rightarrow> nat option \<Rightarrow> (nat \<Rightarrow> bool) option \<Rightarrow> 'r bounded_decoder" where
  "bounded_new r limit token = \<lparr>bd_inner = r, bd_remaining = limit, bd_token = token, bd_checks = 0\<rparr>"

definition bounded_read ::
  "(nat \<Rightarrow> 'r \<Rightarrow> (io_error, bytes) result \<times> 'r) \<Rightarrow> nat \<Rightarrow> 'r bounded_decoder \<Rightarrow> (io_error, bytes) result \<times> 'r bounded_decoder" where
  "bounded_read rd n self =
     (if n = 0 then (Inr [], self)
      else if (case bd_token self of None \<Rightarrow> False | Some tok \<Rightarrow> tok (bd_checks self))
      then (Inl job_cancelled_io, self\<lparr>bd_checks := Suc (bd_checks self)\<rparr>)
      else
        let self = self\<lparr>bd_checks := Suc (bd_checks self)\<rparr> in
        case bd_remaining self of
          None \<Rightarrow> (case rd n (bd_inner self) of (r, i) \<Rightarrow> (r, self\<lparr>bd_inner := i\<rparr>))
        | Some remaining \<Rightarrow>
            if remaining = 0 then
              (case rd 1 (bd_inner self) of
                 (Inl e, i) \<Rightarrow> (Inl e, self\<lparr>bd_inner := i\<rparr>)
               | (Inr bs, i) \<Rightarrow> (if bs = [] then Inr [] else Inl decoded_size_limit_io, self\<lparr>bd_inner := i\<rparr>))
            else
              (case rd (min remaining n) (bd_inner self) of
                 (Inl e, i) \<Rightarrow> (Inl e, self\<lparr>bd_inner := i\<rparr>)
               | (Inr bs, i) \<Rightarrow> (Inr bs, self\<lparr>bd_inner := i, bd_remaining := Some (remaining - length bs)\<rparr>)))"

section \<open>Links and directories\<close>

definition ensure_parent_dir :: "path \<Rightarrow> disk \<Rightarrow> unit disk_step" where
  "ensure_parent_dir p d = (case path_parent p of None \<Rightarrow> (Inr (), d) | Some parent \<Rightarrow> disk_create_dir_all parent d)"

definition write_hardlink :: "path \<Rightarrow> path \<Rightarrow> disk \<Rightarrow> unit disk_step" where
  "write_hardlink source dest d = and_then_st (ensure_parent_dir dest d) (\<lambda>_. disk_hard_link source dest)"

definition write_symlink :: "path \<Rightarrow> path \<Rightarrow> disk \<Rightarrow> unit disk_step" where
  "write_symlink target dest d = and_then_st (ensure_parent_dir dest d) (\<lambda>_. disk_symlink target dest)"

fun write_hardlinks :: "links \<Rightarrow> nat list \<Rightarrow> disk \<Rightarrow> unit disk_step" where
  "write_hardlinks links [] d = (Inr (), d)"
| "write_hardlinks links (i # order) d =
     and_then_st (write_hardlink (fst (links ! i)) (snd (links ! i)) d) (\<lambda>_. write_hardlinks links order)"

text \<open>\<open>None\<close> is a panic of the ordering, which does not happen; \<open>h\<close> is what it sees of the disk.\<close>

definition materialize_deferred_hardlinks :: "host \<Rightarrow> links \<Rightarrow> disk \<Rightarrow> unit disk_step option" where
  "materialize_deferred_hardlinks h links d =
     (case deferred_link_dependency_order h links of
        None \<Rightarrow> None
      | Some (Inl e) \<Rightarrow> Some (Inl e, d)
      | Some (Inr order) \<Rightarrow> Some (write_hardlinks links order d))"

definition apply_deferred_directory_metadata :: "('m \<Rightarrow> 's \<Rightarrow> ('e, unit) result \<times> 's) \<Rightarrow> 'm list \<Rightarrow> 's \<Rightarrow> ('e, unit) result \<times> 's" where
  "apply_deferred_directory_metadata apply_one directories s =
     foldl (\<lambda>r m. and_then_st r (\<lambda>_. apply_one m)) (Inr (), s) (rev directories)"

definition unresolved_hardlink_target :: io_error where
  "unresolved_hardlink_target =
     io_err InvalidData ''hardlink target was not resolved by extraction safety planning''"

section \<open>The loop writes inside the root only\<close>

text \<open>A monitor around a backend's materialisation: it asks where the write goes, and calls \<open>stop\<close>
  instead when that is not below the root.\<close>

fun action_inside :: "path \<Rightarrow> entry_action \<Rightarrow> bool" where
  "action_inside root SkipAction \<longleftrightarrow> True"
| "action_inside root (WriteAction dest replace link) \<longleftrightarrow>
     inside root dest \<and> (case link of None \<Rightarrow> True | Some t \<Rightarrow> inside root t)"

definition monitored :: "path \<Rightarrow> (entry_action \<Rightarrow> 's \<Rightarrow> 'a) \<Rightarrow> (entry_action \<Rightarrow> 's \<Rightarrow> 'a) \<Rightarrow> entry_action \<Rightarrow> 's \<Rightarrow> 'a" where
  "monitored root stop m a s = (if action_inside root a then m a s else stop a s)"

lemma process_planned_entry_cong:
  assumes "\<And>dest replace link nap. decision = Write nap dest link replace \<Longrightarrow> action_inside root (WriteAction dest replace link)"
  shows "process_planned_entry sha entry decision (monitored root stop m) s = process_planned_entry sha entry decision m s"
  using assms by (cases decision) (auto simp: process_planned_entry_def monitored_def Let_def split: prod.split bool.split)

lemma validated_inside:
  assumes "contained root log p" "validate_entry ulower h resolver entry p = (Inr (Write nap dest link replace), q)"
  shows "action_inside root (WriteAction dest replace link)"
proof -
  have "plan_call ulower (h, resolver, entry) p = (Inr (Write nap dest link replace), q)" using assms(2) by simp
  from containment.step_keeps [OF assms(1) this] show ?thesis
    by (simp add: contained_def links_inside_def)
qed

lemma process_extraction_entry_monitored:
  assumes "contained root log p"
  shows "process_extraction_entry ulower sha (monitored root stop m) c (p, s) = process_extraction_entry ulower sha m c (p, s)"
    and "\<exists>log. contained root log (fst (snd (process_extraction_entry ulower sha m c (p, s))))"
proof -
  obtain h resolver entry where c: "c = (h, resolver, entry)" by (cases c)
  obtain r q where v: "validate_entry ulower h resolver entry p = (r, q)" by fastforce
  have "process_planned_entry sha entry decision (monitored root stop m) s = process_planned_entry sha entry decision m s"
    if "r = Inr decision" for decision
    using that v validated_inside [OF assms] by (intro process_planned_entry_cong) blast
  moreover have "monitored root stop m SkipAction = m SkipAction" by (simp add: monitored_def fun_eq_iff)
  ultimately show "process_extraction_entry ulower sha (monitored root stop m) c (p, s) = process_extraction_entry ulower sha m c (p, s)"
    by (cases r) (simp_all add: process_extraction_entry_def c v)
  have "\<exists>log. contained root log q" using containment.step_keeps [OF assms, of ulower c r q] v c by auto
  then show "\<exists>log. contained root log (fst (snd (process_extraction_entry ulower sha m c (p, s))))"
    using assms by (cases r) (auto simp: process_extraction_entry_def c v split: prod.split)
qed

lemma extract_entries_monitored:
  assumes "contained root log p"
  shows "extract_entries ulower sha (monitored root stop m) calls (p, s) = extract_entries ulower sha m calls (p, s)"
  using assms
proof (induction calls arbitrary: log p s)
  case (Cons c calls)
  obtain r q t where r: "process_extraction_entry ulower sha m c (p, s) = (r, q, t)" by (metis prod_cases3)
  obtain log' where "contained root log' q" using process_extraction_entry_monitored(2) [OF Cons.prems, of ulower sha m c s] r by auto
  then have "extract_entries ulower sha (monitored root stop m) calls (q, t) = extract_entries ulower sha m calls (q, t)"
    by (rule Cons.IH)
  moreover have "process_extraction_entry ulower sha (monitored root stop m) c (p, s) = (r, q, t)"
    using process_extraction_entry_monitored(1) [OF Cons.prems, of ulower sha stop m c s] r by simp
  ultimately show ?case using r by (cases r) simp_all
qed simp

text \<open>
  C2. Extraction stays inside.  Run the shared loop over any entries, with any backend, on a file
  system that may change between entries, with any prompt answers, policy and cancellation.  Putting
  a monitor around the backend that intercepts every write whose destination or resolved link source
  is not strictly below the extraction root changes nothing at all, whatever the interception would
  do: the backend is never asked for such a write.
\<close>

theorem extraction_never_leaves_root:
  "extract_entries ulower sha (monitored (lexically_normalize root) stop materialize) calls (with_overwrite_resolver root pol, s) =
   extract_entries ulower sha materialize calls (with_overwrite_resolver root pol, s)"
proof -
  have "contained (lexically_normalize root) [] (with_overwrite_resolver root pol)"
    by (simp add: contained_def with_overwrite_resolver_def)
  then show ?thesis by (rule extract_entries_monitored)
qed

section \<open>An entry's file is written whole or not at all\<close>

definition links_supported :: "disk \<Rightarrow> bool" where
  "links_supported d \<longleftrightarrow> (\<forall>t. case faults d t of None \<Rightarrow> True | Some (e, _) \<Rightarrow> \<not> link_refused e)"

lemma links_supported_work: "links_supported d \<Longrightarrow> links_work d"
  by (simp add: links_supported_def links_work_def)

lemma output_create_faults:
  assumes "output_create stamp final d = (r, d')"
  shows "faults d' = faults d"
proof -
  have attempts: "create_attempts stamp final ks d = (r, d') \<Longrightarrow> faults d' = faults d" for ks d r d'
  proof (induction ks arbitrary: d)
    case (Cons k ks)
    obtain x d1 where x: "disk_create_new (output_temp_path stamp final k) d = (x, d1)" by fastforce
    have "faults d1 = faults d" by (rule faults_kept(1) [OF x])
    then show ?case using Cons x by (cases x) (auto simp: Let_def split: if_splits)
  qed simp
  obtain x d1 where x: "ensure_parent final d = (x, d1)" by fastforce
  have "faults d1 = faults d"
    using x by (auto simp: ensure_parent_def disk_create_dir_all_def elim!: call_cases split: option.splits if_splits)
  then show ?thesis using assms x attempts by (cases x) (auto simp: output_create_def)
qed

lemma output_write_at:
  assumes "output_write h bs d = (r, d')" "file_open h" "nodes d (temp_path h) = Some (FileNode c)"
  shows "faults d' = faults d" "q \<noteq> temp_path h \<Longrightarrow> nodes d' q = nodes d q"
    and "r = Inr u \<Longrightarrow> nodes d' (temp_path h) = Some (FileNode (c @ bs))"
  using assms by (auto simp: output_write_def disk_write_all_def Let_def split: option.splits)

context byte_reader
begin

lemma copy_entry_loop_ok:
  "\<lbrakk>inv r; 0 < n; length (rest r) < fuel; file_open h; nodes d (temp_path h) = Some (FileNode c)\<rbrakk> \<Longrightarrow>
     \<exists>x r' j' d'. copy_entry_loop sha read n ap h fuel w r j d = Some (x, r', j', d') \<and> faults d' = faults d \<and>
       (\<forall>q. q \<noteq> temp_path h \<longrightarrow> nodes d' q = nodes d q) \<and>
       (\<forall>w'. x = Inr w' \<longrightarrow> w' = w + word_of_nat (length (rest r)) \<and> nodes d' (temp_path h) = Some (FileNode (c @ rest r)))"
proof (induction fuel arbitrary: r j d c w)
  case (Suc fuel)
  obtain b j1 where j: "check_job j = (b, j1)" by fastforce
  obtain y r1 where y: "read n r = (y, r1)" by fastforce
  show ?case
  proof (cases "b \<or> (\<exists>e. y = Inl e)")
    case True
    then show ?thesis using j y by (cases b) auto
  next
    case False
    then obtain bs where bs: "b = False" "y = Inr bs" by (cases y) auto
    note ok = read_ok [OF Suc.prems(1) y [unfolded bs(2)]]
    show ?thesis
    proof (cases "bs = []")
      case True
      then show ?thesis using j y bs ok Suc.prems(2,5) by auto
    next
      case False
      obtain z d1 where z: "output_write h bs d = (z, d1)" by fastforce
      note at = output_write_at [OF z Suc.prems(4,5)]
      show ?thesis
      proof (cases z)
        case (Inl e)
        then show ?thesis using j y bs z False at by auto
      next
        case (Inr u)
        have "length (rest r1) < fuel" using ok False Suc.prems(3) by (cases bs) auto
        from Suc.IH [OF _ Suc.prems(2) this Suc.prems(4) at(3) [OF Inr], of "w + word_of_nat (length bs)"] ok
        obtain x r' j' d' where c: "copy_entry_loop sha read n ap h fuel (w + word_of_nat (length bs)) r1
            (map_option (bytes_processed sha ap (word_of_nat (length bs))) j1) d1 = Some (x, r', j', d')"
          "faults d' = faults d1" "\<forall>q. q \<noteq> temp_path h \<longrightarrow> nodes d' q = nodes d1 q"
          "\<forall>w'. x = Inr w' \<longrightarrow> w' = w + word_of_nat (length bs) + word_of_nat (length (rest r1)) \<and>
            nodes d' (temp_path h) = Some (FileNode ((c @ bs) @ rest r1))" by blast
        then show ?thesis using j y bs z Inr False at ok by (auto simp: add.assoc)
      qed
    qed
  qed
qed simp

end


definition sample_copy :: "((io_error extract_error, u64) result \<times> file_handle \<times> job_context option \<times> disk) option" where
  "sample_copy = copy_file_entry (\<lambda>p. []) ''1'' [Normal ''a''] False None 2 file_read 4 (plain_file [1, 2, 3]) None
     (quiet_disk [[Normal ''a''] \<mapsto> FileNode [7]])"


section \<open>Decoding stops at the bound\<close>

definition bounded_rest :: "('s \<Rightarrow> bytes) \<Rightarrow> 's bounded_decoder \<Rightarrow> bytes" where
  "bounded_rest rest s = (case bd_remaining s of None \<Rightarrow> rest (bd_inner s) | Some m \<Rightarrow> take m (rest (bd_inner s)))"

context byte_reader
begin

lemma bounded_read_ok:
  assumes "inv (bd_inner s)" "bounded_read read n s = (Inr bs, t)"
  shows "inv (bd_inner t) \<and> bounded_rest rest s = bs @ bounded_rest rest t \<and> length bs \<le> n \<and> (bs = [] \<longrightarrow> n = 0 \<or> bounded_rest rest s = [])"
proof (cases "n = 0")
  case True
  then show ?thesis using assms by (auto simp: bounded_read_def)
next
  case n: False
  show ?thesis
  proof (cases "bd_remaining s")
    case None
    then obtain i where i: "read n (bd_inner s) = (Inr bs, i)" "bd_inner t = i" "bd_remaining t = None"
      using assms(2) n by (auto simp: bounded_read_def Let_def split: if_splits prod.splits)
    then show ?thesis using read_ok [OF assms(1) i(1)] None by (auto simp: bounded_rest_def)
  next
    case (Some m)
    show ?thesis
    proof (cases "m = 0")
      case True
      then obtain i where i: "read 1 (bd_inner s) = (Inr [], i)" "bs = []" "bd_inner t = i" "bd_remaining t = Some 0"
        using assms(2) n Some by (auto simp: bounded_read_def Let_def split: if_splits prod.splits sum.splits)
      then show ?thesis using read_ok [OF assms(1) i(1)] Some True by (auto simp: bounded_rest_def)
    next
      case False
      then obtain i where i: "read (min m n) (bd_inner s) = (Inr bs, i)" "bd_inner t = i" "bd_remaining t = Some (m - length bs)"
        using assms(2) n Some by (auto simp: bounded_read_def Let_def split: if_splits prod.splits sum.splits)
      then show ?thesis using read_ok [OF assms(1) i(1)] Some False n by (auto simp: bounded_rest_def)
    qed
  qed
qed

lemma bounded_read_err: "inv (bd_inner s) \<Longrightarrow> bounded_read read n s = (Inl e, t) \<Longrightarrow> inv (bd_inner t)"
  by (auto simp: bounded_read_def Let_def dest: read_err read_ok split: if_splits option.splits prod.splits sum.splits)

end

context total_reader
begin

text \<open>Without cancellation the bound is the only error.\<close>

lemma bounded_read_total:
  assumes "inv (bd_inner s)" "bd_token s = None" "0 < n"
  obtains (more_data) bs t where "bounded_read read n s = (Inr bs, t)" "bd_token t = None"
      "\<And>m. bd_remaining s = Some m \<Longrightarrow> bd_remaining t = Some (m - length bs)" "rest (bd_inner s) = bs @ rest (bd_inner t)"
      "bs = [] \<Longrightarrow> rest (bd_inner s) = []"
  | (full) t where "bounded_read read n s = (Inl decoded_size_limit_io, t)" "bd_remaining s = Some 0" "rest (bd_inner s) \<noteq> []"
proof (cases "bd_remaining s = Some 0")
  case True
  obtain bs i where i: "read 1 (bd_inner s) = (Inr bs, i)" using read_total [OF assms(1)] by blast
  note ok = read_ok [OF assms(1) i]
  show thesis
  proof (cases "bs = []")
    case True
    then show thesis using more_data [of "[]" "s\<lparr>bd_checks := Suc (bd_checks s), bd_inner := i\<rparr>"] assms i ok \<open>bd_remaining s = Some 0\<close>
      by (auto simp: bounded_read_def Let_def)
  next
    case False
    then show thesis using full [of "s\<lparr>bd_checks := Suc (bd_checks s), bd_inner := i\<rparr>"] assms i ok \<open>bd_remaining s = Some 0\<close>
      by (simp add: bounded_read_def Let_def)
  qed
next
  case False
  let ?k = "case bd_remaining s of None \<Rightarrow> n | Some m \<Rightarrow> min m n"
  have k: "0 < ?k" using False assms(3) by (cases "bd_remaining s") auto
  obtain bs i where i: "read ?k (bd_inner s) = (Inr bs, i)" using read_total [OF assms(1)] by blast
  note ok = read_ok [OF assms(1) i]
  show thesis
    using more_data [of bs "s\<lparr>bd_checks := Suc (bd_checks s), bd_inner := i, bd_remaining := map_option (\<lambda>m. m - length bs) (bd_remaining s)\<rparr>"]
      assms i ok k False
    by (cases "bd_remaining s") (auto simp: bounded_read_def Let_def)
qed

lemma bounded_read_fully:
  "\<lbrakk>inv (bd_inner s); bd_token s = None; bd_remaining s = Some m; 0 < chunk; length (rest (bd_inner s)) < fuel\<rbrakk> \<Longrightarrow>
     \<exists>t. read_fully (bounded_read read) chunk fuel s =
       Some (if length (rest (bd_inner s)) \<le> m then Inr (rest (bd_inner s)) else Inl decoded_size_limit_io, t)"
proof (induction fuel arbitrary: s m)
  case (Suc fuel)
  show ?case
  proof (cases rule: bounded_read_total [OF Suc.prems(1,2,4)])
    case (2 t)
    then show ?thesis using Suc.prems(3) by simp
  next
    case more_data: (1 bs t)
    have t: "inv (bd_inner t)" using bounded_read_ok [OF Suc.prems(1) more_data(1)] by simp
    have le: "length bs \<le> m" using bounded_read_ok [OF Suc.prems(1) more_data(1)] Suc.prems(3)
      by (auto simp: bounded_rest_def dest: arg_cong [of _ _ length])
    show ?thesis
    proof (cases "bs = []")
      case True
      then show ?thesis using more_data by simp
    next
      case False
      then have "length (rest (bd_inner t)) < fuel" using Suc.prems(5) more_data(4) by (cases bs) auto
      from Suc.IH [OF t more_data(2) more_data(3) [OF Suc.prems(3)] Suc.prems(4) this]
      show ?thesis using more_data False le by auto
    qed
  qed
qed simp

end

interpretation bounded_files: byte_reader "bounded_read file_read" "\<lambda>s. always_reads (bd_inner s)"
    "bounded_rest (\<lambda>f. drop (cursor f) (contents f))"
  using reliable_files.bounded_read_ok reliable_files.bounded_read_err by unfold_locales

text \<open>
  C11. A decoder behind the bound is read to its end exactly when its output fits: for every decoder
  that does not fail, pieces of any size and every limit \<open>m\<close>, reading returns all of the output when
  it has at most \<open>m\<close> bytes, and otherwise fails with the size-limit error.
\<close>

theorem bounded_decoder_enforces_limit:
  assumes "total_reader rd rinv rest" "rinv r" "0 < chunk"
  shows "\<exists>t. read_fully (bounded_read rd) chunk (Suc (length (rest r))) (bounded_new r (Some m) None) =
    Some (if length (rest r) \<le> m then Inr (rest r) else Inl decoded_size_limit_io, t)"
proof -
  have new: "bd_inner (bounded_new r (Some m) None) = r" "bd_token (bounded_new r (Some m) None) = None"
    "bd_remaining (bounded_new r (Some m) None) = Some m" by (simp_all add: bounded_new_def)
  show ?thesis
    using total_reader.bounded_read_fully [OF assms(1), of "bounded_new r (Some m) None" m chunk "Suc (length (rest r))"] assms(2,3)
    unfolding new by blast
qed

theorem bounded_decoder_enforces_limit_witness:
  "\<exists>t. read_fully (bounded_read file_read) 2 4 (bounded_new (plain_file [1, 2, 3]) (Some 2) None) = Some (Inl decoded_size_limit_io, t)"
proof -
  have e: "drop (cursor (plain_file [1, 2, 3 :: u8])) (contents (plain_file [1, 2, 3])) = [1, 2, 3]" by (simp add: plain_file_def)
  have n: "Suc (length [1, 2, 3 :: u8]) = 4" "(0 :: nat) < 2" by simp_all
  show ?thesis
    using bounded_decoder_enforces_limit [OF reliable_files.total_reader_axioms plain_file_always_reads n(2), of "[1, 2, 3]" 2]
    unfolding e n(1) by (simp del: read_fully.simps)
qed

section \<open>A cancelled job writes nothing more\<close>

context byte_writer
begin

lemma job_write_ok:
  "job_write sha wr bs s = (Inr n, t) \<Longrightarrow> n \<le> length bs \<and> taken (jw_inner t) = taken (jw_inner s) @ take n bs"
  by (auto simp: job_write_def dest: write_ok split: option.splits prod.splits sum.splits bool.splits)

lemma job_write_err: "job_write sha wr bs s = (Inl e, t) \<Longrightarrow> taken (jw_inner t) = taken (jw_inner s)"
  by (auto simp: job_write_def dest: write_err split: option.splits prod.splits sum.splits bool.splits)

end

interpretation job_sinks: byte_writer "job_write sha (limit_write sink_write)" "\<lambda>s. stored (limit_inner (jw_inner s))" for sha
  using limited_sinks.job_write_ok limited_sinks.job_write_err by unfold_locales

text \<open>\<open>write_all\<close> gives up at the first check that sees the cancellation: its error is not
  \<open>Interrupted\<close>, so it is not retried.\<close>

lemma cancelled_write_all_stops:
  assumes "jw_job s = Some c" "cancelled c (checks c)"
  shows "write_all (job_write sha wr) (Suc fuel) (b # bs) s =
    Some (Inl job_cancelled_io, s\<lparr>jw_job := Some (c\<lparr>checks := Suc (checks c)\<rparr>)\<rparr>)"
  using assms by (simp add: job_write_def check_cancelled_def job_cancelled_io_def io_err_def)

section \<open>Deferred hard links\<close>

text \<open>Creating links and their directories only adds to the disk.\<close>

definition only_adds :: "disk \<Rightarrow> disk \<Rightarrow> bool" where
  "only_adds d d' \<longleftrightarrow> (\<forall>q. nodes d q \<noteq> None \<longrightarrow> nodes d' q = nodes d q)"

lemma only_adds_trans: "only_adds d e \<Longrightarrow> only_adds e f \<Longrightarrow> only_adds d f"
  by (metis only_adds_def)

definition same_file :: "disk \<Rightarrow> path \<times> path \<Rightarrow> bool" where
  "same_file d link \<longleftrightarrow> nodes d (snd link) = nodes d (fst link) \<and> nodes d (snd link) \<noteq> None"

lemma same_file_adds: "same_file d link \<Longrightarrow> only_adds d d' \<Longrightarrow> same_file d' link"
  unfolding same_file_def only_adds_def by metis

lemma write_hardlink_effect:
  assumes "write_hardlink source dest d = (r, d')"
  shows "only_adds d d'" "r = Inr u \<Longrightarrow> same_file d' (source, dest)"
proof -
  obtain x d1 where x: "ensure_parent_dir dest d = (x, d1)" by fastforce
  have 1: "only_adds d d1"
    using x by (auto simp: ensure_parent_dir_def disk_create_dir_all_def only_adds_def elim!: call_cases split: option.splits if_splits)
  have 2: "only_adds d1 d'" if "x = Inr v" for v
    using that assms x by (auto simp: write_hardlink_def only_adds_def disk_hard_link_def elim!: call_cases split: option.splits if_splits)
  show "only_adds d d'"
    using 1 2 assms x only_adds_trans by (cases x) (auto simp: write_hardlink_def)
  show "r = Inr u \<Longrightarrow> same_file d' (source, dest)"
    using assms x by (cases x) (auto simp: write_hardlink_def same_file_def dest!: disk_hard_link_ok)
qed

lemma write_hardlinks_effect:
  "write_hardlinks links order d = (r, d') \<Longrightarrow>
     only_adds d d' \<and> (\<forall>u. r = Inr u \<longrightarrow> (\<forall>i \<in> set order. same_file d' (links ! i)))"
proof (induction order arbitrary: d)
  case Nil
  then show ?case by (simp add: only_adds_def)
next
  case (Cons i order)
  obtain x d1 where x: "write_hardlink (fst (links ! i)) (snd (links ! i)) d = (x, d1)" by fastforce
  note w = write_hardlink_effect [OF x]
  show ?case
  proof (cases x)
    case (Inl e)
    then show ?thesis using Cons.prems x w(1) by auto
  next
    case (Inr u)
    have t: "only_adds d1 d'" "\<forall>u. r = Inr u \<longrightarrow> (\<forall>i \<in> set order. same_file d' (links ! i))"
      using Cons.IH [of d1] Cons.prems x Inr by auto
    have "same_file d1 (links ! i)" using w(2) [OF Inr] by simp
    then show ?thesis using t only_adds_trans [OF w(1) t(1)] same_file_adds by auto
  qed
qed


end
