(* ===== verification/Lzx_Bits.thy ===== *)
theory Lzx_Bits
  imports Byte_Reader
begin

text \<open>
  The bit stream of the LZX decoder (\<open>crates/zmanager-wim/src/lzx/bitstream.rs\<close>): 16-bit
  little-endian words, read from the most significant bit on.  The abstraction \<open>bits_left\<close> is the
  list of the bits still to be read; every operation is shown to take from the front of that list
  and to fail exactly when it is too short.
\<close>

unbundle bit_operations_syntax

type_synonym u16 = "16 word"

text \<open>\<open>DecodeFailed\<close>; \<open>Panicked\<close> stands for a failed assertion or an index out of range.\<close>

datatype decode_failed =
    OverreadBlock
  | LzxUnexpectedEof
  | InvalidBlock u8
  | InvalidBlockSize u32
  | InvalidPretreeElement u16
  | InvalidPretreeRle
  | InvalidPathLengths
  | EmptyTree
  | WindowTooSmall
  | ChunkTooLong
  | Panicked

record bitstream =
  bs_buffer :: bytes
  bs_n :: u16
  bs_remaining :: nat

type_synonym 'a bit_step = "(decode_failed, 'a) result \<times> bitstream"

definition bitstream_new :: "bytes \<Rightarrow> bitstream" where
  "bitstream_new buffer = \<lparr>bs_buffer = buffer, bs_n = 0, bs_remaining = 0\<rparr>"

text \<open>\<open>u16::from_le_bytes\<close> and \<open>u16::rotate_left\<close>.\<close>

definition u16_le :: "u8 \<Rightarrow> u8 \<Rightarrow> u16" where
  "u16_le lo hi = push_bit 8 (ucast hi) OR ucast lo"

definition rotate_left :: "nat \<Rightarrow> u16 \<Rightarrow> u16" where
  "rotate_left k n = push_bit (k mod 16) n OR drop_bit (16 - k mod 16) n"

definition advance_buffer :: "bitstream \<Rightarrow> unit bit_step" where
  "advance_buffer self =
     (case bs_buffer self of
        lo # hi # rest \<Rightarrow> (Inr (), self\<lparr>bs_remaining := 16, bs_n := u16_le lo hi, bs_buffer := rest\<rparr>)
      | _ \<Rightarrow> (Inl LzxUnexpectedEof, self))"

definition read_bit :: "bitstream \<Rightarrow> u16 bit_step" where
  "read_bit self =
     and_then_st (if bs_remaining self = 0 then advance_buffer self else (Inr (), self)) (\<lambda>_ self.
       let n = rotate_left 1 (bs_n self)
       in (Inr (n AND 1), self\<lparr>bs_remaining := bs_remaining self - 1, bs_n := n\<rparr>))"

definition read_byte :: "bitstream \<Rightarrow> u8 option \<times> bitstream" where
  "read_byte self =
     (case bs_buffer self of [] \<Rightarrow> (None, self) | b # rest \<Rightarrow> (Some b, self\<lparr>bs_buffer := rest\<rparr>))"

text \<open>The mask \<open>(1 << k) - 1\<close>; \<open>k\<close> is below 16 in the first two uses, and the third computes in 32 bits.\<close>

definition read_bits_oneword :: "nat \<Rightarrow> bitstream \<Rightarrow> u16 bit_step" where
  "read_bits_oneword bits self =
     (if bits > 16 then (Inl Panicked, self)
      else if bits \<le> bs_remaining self then
        let n = rotate_left bits (bs_n self)
        in (Inr (n AND mask bits), self\<lparr>bs_remaining := bs_remaining self - bits, bs_n := n\<rparr>)
      else
        let hi = rotate_left (bs_remaining self) (bs_n self) AND mask (bs_remaining self);
            bits = bits - bs_remaining self
        in and_then_st (advance_buffer self) (\<lambda>_ self.
             let n = rotate_left bits (bs_n self)
             in (Inr (push_bit bits hi OR (n AND mask bits)),
                 self\<lparr>bs_remaining := bs_remaining self - bits, bs_n := n\<rparr>)))"

definition read_bits :: "nat \<Rightarrow> bitstream \<Rightarrow> u32 bit_step" where
  "read_bits bits self =
     (if bits \<le> 16 then and_then_st (read_bits_oneword bits self) (\<lambda>w self. (Inr (ucast w), self))
      else if bits > 32 then (Inl Panicked, self)
      else and_then_st (read_bits_oneword 16 self) (\<lambda>w0 self.
           and_then_st (read_bits_oneword (bits - 16) self) (\<lambda>w1 self.
             (Inr (push_bit (bits - 16) (ucast w0) OR ucast w1), self))))"

definition peek_bits_oneword :: "nat \<Rightarrow> bitstream \<Rightarrow> u16" where
  "peek_bits_oneword bits self =
     (if bits \<le> bs_remaining self then rotate_left bits (bs_n self) AND mask bits
      else
        let hi = rotate_left (bs_remaining self) (bs_n self) AND mask (bs_remaining self);
            bits = bits - bs_remaining self;
            n = (case bs_buffer self of lo # hi # rest \<Rightarrow> u16_le lo hi | _ \<Rightarrow> 0)
        in push_bit bits hi OR (rotate_left bits n AND mask bits))"

definition peek_bits :: "nat \<Rightarrow> bitstream \<Rightarrow> (decode_failed, u32) result" where
  "peek_bits bits self =
     (if bits \<le> 16 then Inr (ucast (peek_bits_oneword bits self))
      else if bits > 32 then Inl Panicked
      else case read_bits_oneword 16 self of
        (Inr w0, advanced) \<Rightarrow> Inr (push_bit (bits - 16) (ucast w0) OR ucast (peek_bits_oneword (bits - 16) advanced))
      | (Inl _, _) \<Rightarrow> Inl Panicked)"

definition u32_of_words :: "u16 \<Rightarrow> u16 \<Rightarrow> u32" where
  "u32_of_words lo hi = push_bit 16 (ucast hi) OR ucast lo"

definition read_u32_le :: "bitstream \<Rightarrow> u32 bit_step" where
  "read_u32_le self =
     and_then_st (read_bits_oneword 16 self) (\<lambda>lo self.
     and_then_st (read_bits_oneword 16 self) (\<lambda>hi self. (Inr (u32_of_words lo hi), self)))"

definition read_u24_be :: "bitstream \<Rightarrow> u32 bit_step" where
  "read_u24_be self =
     and_then_st (read_bits 16 self) (\<lambda>hi self.
     and_then_st (read_bits 8 self) (\<lambda>lo self. (Inr (push_bit 8 hi OR lo), self)))"

definition align :: "bitstream \<Rightarrow> unit bit_step" where
  "align self =
     (if bs_remaining self = 0 then and_then_st (read_bits 16 self) (\<lambda>_ self. (Inr (), self))
      else (Inr (), self\<lparr>bs_remaining := 0\<rparr>))"

definition read_raw :: "nat \<Rightarrow> bitstream \<Rightarrow> bytes bit_step" where
  "read_raw n self =
     (if length (bs_buffer self) < n then (Inl LzxUnexpectedEof, self)
      else (Inr (take n (bs_buffer self)), self\<lparr>bs_buffer := drop n (bs_buffer self)\<rparr>))"

definition remaining_bytes :: "bitstream \<Rightarrow> nat" where
  "remaining_bytes self = length (bs_buffer self)"

section \<open>The bits of the stream\<close>

fun stream_words :: "bytes \<Rightarrow> u16 list" where
  "stream_words (lo # hi # rest) = u16_le lo hi # stream_words rest"
| "stream_words _ = []"

definition high_bits :: "nat \<Rightarrow> u16 \<Rightarrow> bool list" where
  "high_bits k n = map (\<lambda>i. bit n (15 - i)) [0 ..< k]"

definition bits_left :: "bitstream \<Rightarrow> bool list" where
  "bits_left s = high_bits (bs_remaining s) (bs_n s) @ concat (map (high_bits 16) (stream_words (bs_buffer s)))"

definition stream_ok :: "bitstream \<Rightarrow> bool" where
  "stream_ok s \<longleftrightarrow> bs_remaining s \<le> 15"

text \<open>The number that a list of bits spells, most significant bit first.\<close>

definition bits_value :: "bool list \<Rightarrow> 'a::len word" where
  "bits_value xs = horner_sum of_bool 2 (rev xs)"

lemma bit_bits_value:
  "bit (bits_value xs :: 'a::len word) i \<longleftrightarrow> i < LENGTH('a) \<and> i < length xs \<and> xs ! (length xs - 1 - i)"
  by (auto simp: bits_value_def bit_horner_sum_bit_word_iff rev_nth)

lemma length_high_bits [simp]: "length (high_bits k n) = k"
  by (simp add: high_bits_def)

lemma nth_high_bits: "i < k \<Longrightarrow> high_bits k n ! i = bit n (15 - i)"
  by (simp add: high_bits_def)

lemma bit_rotate_left:
  assumes "k \<le> 16" "i < 16"
  shows "bit (rotate_left k n) i = (if i < k mod 16 then bit n (i + 16 - k mod 16) else bit n (i - k mod 16))"
proof -
  have "k mod 16 < 16" by simp
  then show ?thesis using assms(2)
    by (auto simp: rotate_left_def bit_or_iff bit_push_bit_iff bit_drop_bit_eq add.commute dest: bit_imp_le_length)
qed

lemma rotated_low_bits:
  assumes "bits \<le> 16" "bits \<le> k"
  shows "rotate_left bits n AND mask bits = bits_value (take bits (high_bits k n))"
proof (rule bit_word_eqI)
  fix i assume i: "i < LENGTH(16)"
  show "bit (rotate_left bits n AND mask bits) i = bit (bits_value (take bits (high_bits k n)) :: u16) i"
  proof (cases "i < bits")
    case True
    then have "take bits (high_bits k n) ! (bits - 1 - i) = bit n (15 - (bits - 1 - i))"
      using assms(2) by (simp add: nth_high_bits)
    moreover have "bits mod 16 = (if bits = 16 then 0 else bits)" using assms(1) by auto
    moreover have "15 - (bits - 1 - i) = i + 16 - bits" using True assms(1) by simp
    ultimately show ?thesis using True i assms
      by (auto simp: bit_and_iff bit_mask_iff bit_bits_value bit_rotate_left min_absorb2)
  next
    case False
    then show ?thesis using assms(2) by (simp add: bit_and_iff bit_mask_iff bit_bits_value min_absorb2)
  qed
qed

lemma rotated_high_bits:
  assumes "bits \<le> 16" "k + bits \<le> 16"
  shows "high_bits k (rotate_left bits n) = drop bits (high_bits (k + bits) n)"
proof (rule nth_equalityI)
  fix i assume "i < length (high_bits k (rotate_left bits n))"
  then have i: "i < k" by simp
  have "bits mod 16 = bits" using assms i by simp
  then show "high_bits k (rotate_left bits n) ! i = drop bits (high_bits (k + bits) n) ! i"
    using i assms by (auto simp: nth_high_bits bit_rotate_left add.commute [of i])
qed simp

lemma bits_value_append:
  "push_bit (length ys) (bits_value xs) OR bits_value ys = (bits_value (xs @ ys) :: 'a::len word)"
  by (rule bit_word_eqI) (auto simp: bit_or_iff bit_push_bit_iff bit_bits_value nth_append)

lemma ucast_bits_value: "length xs \<le> 16 \<Longrightarrow> ucast (bits_value xs :: u16) = (bits_value xs :: u32)"
  by (rule bit_word_eqI) (auto simp: bit_ucast_iff bit_bits_value)

text \<open>The outcome of an operation that reads \<open>k\<close> bits.\<close>

definition reads :: "nat \<Rightarrow> bitstream \<Rightarrow> 'a::len word bit_step \<Rightarrow> bool" where
  "reads k s r \<longleftrightarrow>
     (case r of
        (Inr w, t) \<Rightarrow> k \<le> length (bits_left s) \<and> w = bits_value (take k (bits_left s)) \<and>
                     bits_left t = drop k (bits_left s) \<and> stream_ok t
      | (Inl e, t) \<Rightarrow> e = LzxUnexpectedEof \<and> length (bits_left s) < k \<and> stream_ok t)"

lemma reads_cases [consumes 1, case_names ok eof]:
  assumes "reads k s r"
  obtains w t where "r = (Inr w, t)" "k \<le> length (bits_left s)" "w = bits_value (take k (bits_left s))"
      "bits_left t = drop k (bits_left s)" "stream_ok t"
    | t where "r = (Inl LzxUnexpectedEof, t)" "length (bits_left s) < k" "stream_ok t"
  using assms by (cases r, cases "fst r") (auto simp: reads_def)

lemma stream_words_short: "length b < 2 \<Longrightarrow> stream_words b = []"
  by (cases b rule: stream_words.cases) auto

lemma advance_buffer_cases:
  obtains (word) lo hi rest where "bs_buffer s = lo # hi # rest"
    "advance_buffer s = (Inr (), s\<lparr>bs_remaining := 16, bs_n := u16_le lo hi, bs_buffer := rest\<rparr>)"
    "concat (map (high_bits 16) (stream_words (bs_buffer s))) = high_bits 16 (u16_le lo hi) @ concat (map (high_bits 16) (stream_words rest))"
  | (short) "advance_buffer s = (Inl LzxUnexpectedEof, s)" "stream_words (bs_buffer s) = []"
  by (cases "bs_buffer s" rule: stream_words.cases) (auto simp: advance_buffer_def)

lemma read_bits_oneword_reads:
  assumes "stream_ok s" "bits \<le> 16"
  shows "reads bits s (read_bits_oneword bits s)"
proof (cases "bits \<le> bs_remaining s")
  case True
  then have "high_bits (bs_remaining s - bits) (rotate_left bits (bs_n s)) = drop bits (high_bits (bs_remaining s) (bs_n s))"
    using assms rotated_high_bits [of bits "bs_remaining s - bits" "bs_n s"] by (simp add: stream_ok_def)
  then show ?thesis using True assms rotated_low_bits [OF assms(2) True, of "bs_n s"]
    by (simp add: reads_def read_bits_oneword_def Let_def bits_left_def stream_ok_def)
next
  case False
  let ?r = "bs_remaining s" and ?k = "bits - bs_remaining s"
  have r: "?r \<le> 15" "?k \<le> 16" "0 < ?k" "?r + ?k = bits" using assms False by (auto simp: stream_ok_def)
  have hi: "rotate_left ?r (bs_n s) AND mask ?r = bits_value (high_bits ?r (bs_n s))"
    using rotated_low_bits [of ?r ?r "bs_n s"] r by simp
  show ?thesis
  proof (cases rule: advance_buffer_cases [of s])
    case (word lo hi rest)
    have lo: "rotate_left ?k (u16_le lo hi) AND mask ?k = bits_value (take ?k (high_bits 16 (u16_le lo hi)))"
      using rotated_low_bits [of ?k 16 "u16_le lo hi"] r by simp
    have "push_bit ?k (bits_value (high_bits ?r (bs_n s))) OR bits_value (take ?k (high_bits 16 (u16_le lo hi))) =
        (bits_value (take bits (bits_left s)) :: u16)"
      using bits_value_append [of "take ?k (high_bits 16 (u16_le lo hi))" "high_bits ?r (bs_n s)"] r word(3) False
      by (simp add: bits_left_def min_absorb2)
    moreover have "high_bits (16 - ?k) (rotate_left ?k (u16_le lo hi)) = drop ?k (high_bits 16 (u16_le lo hi))"
      using rotated_high_bits [of ?k "16 - ?k" "u16_le lo hi"] r by simp
    ultimately show ?thesis using False assms r word hi lo
      by (simp add: reads_def read_bits_oneword_def Let_def bits_left_def stream_ok_def)
  next
    case short
    then show ?thesis using False assms r by (simp add: reads_def read_bits_oneword_def Let_def bits_left_def)
  qed
qed

text \<open>Two reads one after the other are one read.\<close>

lemma reads_then:
  fixes f :: "bitstream \<Rightarrow> 'b::len word bit_step" and g :: "'a::len word \<Rightarrow> 'b word \<Rightarrow> 'c::len word"
  assumes r: "reads j s r" and f: "\<And>t. stream_ok t \<Longrightarrow> reads k t (f t)"
    and g: "\<And>xs ys. length xs = j \<Longrightarrow> length ys = k \<Longrightarrow> g (bits_value xs) (bits_value ys) = bits_value (xs @ ys)"
  shows "reads (j + k) s (and_then_st r (\<lambda>w0 s. and_then_st (f s) (\<lambda>w1 s. (Inr (g w0 w1), s))))"
proof -
  obtain x t where x: "r = (x, t)" by fastforce
  show ?thesis
  proof (cases x)
    case (Inl e)
    then show ?thesis using r x by (auto simp: reads_def)
  next
    case (Inr w)
    obtain y u where y: "f t = (y, u)" by fastforce
    have t: "j \<le> length (bits_left s)" "w = bits_value (take j (bits_left s))" "bits_left t = drop j (bits_left s)" "stream_ok t"
      using r x Inr by (auto simp: reads_def)
    have f': "reads k t (y, u)" using f [OF t(4)] y by simp
    show ?thesis
    proof (cases y)
      case (Inl e)
      then show ?thesis using f' x \<open>x = Inr w\<close> y t by (auto simp: reads_def)
    next
      case (Inr v)
      have "g w v = bits_value (take j (bits_left s) @ take k (drop j (bits_left s)))"
        using f' Inr t g [of "take j (bits_left s)" "take k (drop j (bits_left s))"] by (auto simp: reads_def min_absorb2)
      also have "take j (bits_left s) @ take k (drop j (bits_left s)) = take (j + k) (bits_left s)" by (rule take_add [symmetric])
      finally show ?thesis using f' x \<open>x = Inr w\<close> y Inr t by (auto simp: reads_def add.commute)
    qed
  qed
qed

lemma read_bits_reads:
  assumes "stream_ok s" "bits \<le> 32"
  shows "reads bits s (read_bits bits s)"
proof (cases "bits \<le> 16")
  case True
  then show ?thesis using read_bits_oneword_reads [OF assms(1) True]
    by (auto simp: reads_def read_bits_def ucast_bits_value result_simps split: sum.splits prod.splits)
next
  case False
  have g: "push_bit (bits - 16) (ucast (bits_value xs :: u16)) OR ucast (bits_value ys :: u16) = (bits_value (xs @ ys) :: u32)"
    if "length xs = 16" "length ys = bits - 16" for xs ys
    using that assms(2) bits_value_append [where ?'a = 32, of ys xs] by (simp add: ucast_bits_value)
  have "reads (16 + (bits - 16)) s (and_then_st (read_bits_oneword 16 s) (\<lambda>w0 s. and_then_st (read_bits_oneword (bits - 16) s)
      (\<lambda>w1 s. (Inr (push_bit (bits - 16) (ucast w0) OR ucast w1 :: u32), s))))"
    by (rule reads_then [OF read_bits_oneword_reads [OF assms(1)] read_bits_oneword_reads g]) (use assms(2) in auto)
  then have "reads (16 + (bits - 16)) s (read_bits bits s)" using False assms(2) by (simp add: read_bits_def)
  then show ?thesis using False by simp
qed

text \<open>Peeking sees the same bits, and zeros after the end.\<close>

lemma peek_bits_oneword_spec:
  assumes "stream_ok s" "bits \<le> 16"
  shows "peek_bits_oneword bits s = bits_value (take bits (bits_left s @ replicate 16 False))"
proof (cases "bits \<le> bs_remaining s")
  case True
  then show ?thesis using rotated_low_bits [OF assms(2) True, of "bs_n s"]
    by (simp add: peek_bits_oneword_def bits_left_def)
next
  case False
  let ?r = "bs_remaining s" and ?k = "bits - bs_remaining s"
  let ?n = "case bs_buffer s of lo # hi # rest \<Rightarrow> u16_le lo hi | _ \<Rightarrow> 0"
  have r: "?r \<le> 15" "?k \<le> 16" "0 < ?k" using assms False by (auto simp: stream_ok_def)
  have parts: "rotate_left ?r (bs_n s) AND mask ?r = bits_value (high_bits ?r (bs_n s))"
    "rotate_left ?k ?n AND mask ?k = bits_value (take ?k (high_bits 16 ?n))"
    using rotated_low_bits [of ?r ?r "bs_n s"] rotated_low_bits [of ?k 16 ?n] r by simp_all
  have "take bits (bits_left s @ replicate 16 False) = high_bits ?r (bs_n s) @ take ?k (high_bits 16 ?n)"
  proof (cases rule: advance_buffer_cases [of s])
    case (word lo hi rest)
    then show ?thesis using False r by (simp add: bits_left_def)
  next
    case short
    have "?n = 0" using short(2) by (cases "bs_buffer s" rule: stream_words.cases) auto
    then have "high_bits 16 ?n = replicate 16 False" by (simp add: high_bits_def map_replicate_const)
    then show ?thesis using False r short by (simp add: bits_left_def)
  qed
  then show ?thesis using False r bits_value_append [of "take ?k (high_bits 16 ?n)" "high_bits ?r (bs_n s)"]
    by (simp add: peek_bits_oneword_def Let_def parts min_absorb2)
qed

section \<open>Steps that spend bits\<close>

text \<open>The number of bits that are left, with the odd byte at the end that no word holds.\<close>

definition stream_size :: "bitstream \<Rightarrow> nat" where
  "stream_size s = bs_remaining s + 8 * length (bs_buffer s)"

text \<open>A step that does not panic, keeps the stream well formed and never grows it; when it succeeds, it
  spends at least \<open>k\<close> bits and its result has the property \<open>R\<close>.\<close>

definition bit_ok :: "('a \<Rightarrow> bool) \<Rightarrow> nat \<Rightarrow> bitstream \<Rightarrow> 'a bit_step \<Rightarrow> bool" where
  "bit_ok R k s r \<longleftrightarrow>
     (case r of
        (Inr x, t) \<Rightarrow> R x \<and> stream_ok t \<and> stream_size t + k \<le> stream_size s
      | (Inl e, t) \<Rightarrow> e \<noteq> Panicked \<and> stream_ok t \<and> stream_size t \<le> stream_size s)"

lemma bit_ok_then:
  assumes "bit_ok R j s r" "\<And>x t. R x \<Longrightarrow> stream_ok t \<Longrightarrow> bit_ok R' k t (f x t)"
  shows "bit_ok R' (j + k) s (and_then_st r f)"
proof -
  obtain x t where r: "r = (x, t)" by fastforce
  show ?thesis
  proof (cases x)
    case (Inl e)
    then show ?thesis using assms(1) r by (simp add: bit_ok_def)
  next
    case (Inr y)
    obtain z u where f: "f y t = (z, u)" by fastforce
    have "R y" "stream_ok t" using assms(1) r Inr by (simp_all add: bit_ok_def)
    then have "bit_ok R' k t (z, u)" using assms(2) [of y t] f by simp
    then show ?thesis using assms(1) r Inr f by (cases z) (auto simp: bit_ok_def)
  qed
qed

lemma bit_ok_mono: "bit_ok R k s r \<Longrightarrow> (\<And>x. R x \<Longrightarrow> R' x) \<Longrightarrow> k' \<le> k \<Longrightarrow> bit_ok R' k' s r"
  by (auto simp: bit_ok_def split: sum.splits prod.splits)

lemma bit_ok_return: "stream_ok s \<Longrightarrow> R x \<Longrightarrow> bit_ok R 0 s (Inr x, s)"
  by (simp add: bit_ok_def)

lemma bit_ok_error: "stream_ok s \<Longrightarrow> e \<noteq> Panicked \<Longrightarrow> bit_ok R k s (Inl e, s)"
  by (simp add: bit_ok_def)

lemma advance_buffer_size:
  "stream_size (snd (advance_buffer s)) \<le> stream_size s"
  "fst (advance_buffer s) = Inr () \<Longrightarrow> bs_remaining (snd (advance_buffer s)) = 16 \<and> stream_size (snd (advance_buffer s)) + bs_remaining s = stream_size s"
  by (cases rule: advance_buffer_cases [of s]; simp add: stream_size_def)+

lemma read_bits_oneword_size:
  assumes "bits \<le> 16" "bs_remaining s \<le> 16" "read_bits_oneword bits s = (r, t)"
  shows "stream_size t + (if isl r then 0 else bits) \<le> stream_size s"
proof (cases "bits \<le> bs_remaining s")
  case True
  then show ?thesis using assms by (auto simp: read_bits_oneword_def Let_def stream_size_def)
next
  case False
  then show ?thesis using assms
    by (cases rule: advance_buffer_cases [of s]) (auto simp: read_bits_oneword_def Let_def stream_size_def)
qed

lemma reads_bit_ok:
  assumes "reads k s r" "stream_size (snd r) + (if isl (fst r) then 0 else k) \<le> stream_size s"
  shows "bit_ok (\<lambda>_. True) k s r"
  using assms by (auto simp: bit_ok_def reads_def split: prod.splits sum.splits)

lemma read_bits_oneword_ok: "stream_ok s \<Longrightarrow> bits \<le> 16 \<Longrightarrow> bit_ok (\<lambda>_. True) bits s (read_bits_oneword bits s)"
  using read_bits_oneword_size [of bits s "fst (read_bits_oneword bits s)" "snd (read_bits_oneword bits s)"]
  by (intro reads_bit_ok read_bits_oneword_reads) (auto simp: stream_ok_def)

lemma read_bits_ok':
  assumes "stream_ok s" "bits \<le> 32"
  shows "bit_ok (\<lambda>_. True) bits s (read_bits bits s)"
proof (cases "bits \<le> 16")
  case True
  have "bit_ok (\<lambda>_. True) (bits + 0) s (read_bits bits s)"
    unfolding read_bits_def if_P [OF True]
    by (rule bit_ok_then [OF read_bits_oneword_ok [OF assms(1) True] bit_ok_return]) simp_all
  then show ?thesis by simp
next
  case False
  have "\<not> 32 < bits" using assms(2) by simp
  have "bit_ok (\<lambda>_. True) (16 + (bits - 16 + 0)) s (read_bits bits s)"
    unfolding read_bits_def if_not_P [OF False] if_not_P [OF \<open>\<not> 32 < bits\<close>]
    by (rule bit_ok_then [OF read_bits_oneword_ok bit_ok_then [OF read_bits_oneword_ok bit_ok_return]]) (use assms in simp_all)
  then show ?thesis using False by simp
qed

lemma read_bit_ok: "stream_ok s \<Longrightarrow> bit_ok (\<lambda>_. True) 1 s (read_bit s)"
  by (cases rule: advance_buffer_cases [of s])
     (auto simp: read_bit_def Let_def bit_ok_def stream_ok_def stream_size_def)

lemma read_u32_le_ok: "stream_ok s \<Longrightarrow> bit_ok (\<lambda>_. True) 32 s (read_u32_le s)"
  unfolding read_u32_le_def
  by (rule bit_ok_mono [OF bit_ok_then [OF read_bits_oneword_ok bit_ok_then [OF read_bits_oneword_ok bit_ok_return]]]) simp_all

lemma read_u24_be_ok: "stream_ok s \<Longrightarrow> bit_ok (\<lambda>_. True) 24 s (read_u24_be s)"
  unfolding read_u24_be_def
  by (rule bit_ok_mono [OF bit_ok_then [OF read_bits_ok' bit_ok_then [OF read_bits_ok' bit_ok_return]]]) simp_all

lemma align_ok: "stream_ok s \<Longrightarrow> bit_ok (\<lambda>_. True) 0 s (align s)"
  using bit_ok_then [OF read_bits_ok' [of s 16], of "\<lambda>_. True" 0 "\<lambda>_ s. (Inr (), s)"]
  by (auto simp: align_def bit_ok_return bit_ok_def stream_ok_def stream_size_def split: sum.splits prod.splits)

end
