(* ===== verification/Lzx_Tree.thy ===== *)
theory Lzx_Tree
  imports Complex_Main Lzx_Bits
begin

text \<open>
  The Huffman trees of the LZX decoder (\<open>crates/zmanager-wim/src/lzx/tree.rs\<close>): building the decoding
  table from path lengths, decoding an element, and updating path lengths with a pretree.  The table
  is shown to be that of the canonical code, which exists exactly when the lengths satisfy Kraft's
  equality, and decoding to invert it.
\<close>

section \<open>Trees\<close>

text \<open>A canonical tree is its list of path lengths.\<close>

type_synonym canonical_tree = "nat list"

record tree =
  path_lengths :: "nat list"
  largest_length :: nat
  huffman_tree :: "nat list"

definition canonical_new :: "nat \<Rightarrow> canonical_tree" where
  "canonical_new count = replicate count 0"

text \<open>The loop over the codes for one length, and over the lengths; the state is the position and the
  table.\<close>

fun fill_codes :: "nat list \<Rightarrow> nat \<Rightarrow> nat \<Rightarrow> nat list \<Rightarrow> nat \<times> nat list \<Rightarrow> (decode_failed, nat \<times> nat list) result" where
  "fill_codes lengths len amount [] st = Inr st"
| "fill_codes lengths len amount (code # codes) (pos, table) =
     (if lengths ! code = len then
        if pos + amount \<le> length table
        then fill_codes lengths len amount codes (pos + amount, take pos table @ replicate amount code @ drop (pos + amount) table)
        else Inl InvalidPathLengths
      else fill_codes lengths len amount codes (pos, table))"

fun fill_lengths :: "nat list \<Rightarrow> nat \<Rightarrow> nat list \<Rightarrow> nat \<times> nat list \<Rightarrow> (decode_failed, nat \<times> nat list) result" where
  "fill_lengths lengths largest [] st = Inr st"
| "fill_lengths lengths largest (len # lens) st =
     and_then (fill_codes lengths len (2 ^ (largest - len)) [0 ..< length lengths] st) (fill_lengths lengths largest lens)"

definition create_instance_allow_empty :: "canonical_tree \<Rightarrow> (decode_failed, tree option) result" where
  "create_instance_allow_empty lengths =
     (if lengths = [] then Inl Panicked
      else let largest = foldr max lengths 0 in
        if largest = 0 then Inr None
        else and_then (fill_lengths lengths largest [1 ..< Suc largest] (0, replicate (2 ^ largest) 0)) (\<lambda>(pos, table).
               if pos \<noteq> length table then Inl InvalidPathLengths
               else Inr (Some \<lparr>path_lengths = lengths, largest_length = largest, huffman_tree = table\<rparr>)))"

definition create_instance :: "canonical_tree \<Rightarrow> (decode_failed, tree) result" where
  "create_instance lengths =
     and_then (create_instance_allow_empty lengths) (\<lambda>t. case t of None \<Rightarrow> Inl EmptyTree | Some t \<Rightarrow> Inr t)"

definition tree_decode :: "tree \<Rightarrow> bitstream \<Rightarrow> nat bit_step" where
  "tree_decode self bs =
     (case peek_bits (largest_length self) bs of
        Inl e \<Rightarrow> (Inl e, bs)
      | Inr v \<Rightarrow>
          if unat v < length (huffman_tree self) \<and> huffman_tree self ! unat v < length (path_lengths self)
          then let code = huffman_tree self ! unat v
               in and_then_st (read_bits (path_lengths self ! code) bs) (\<lambda>_ bs. (Inr code, bs))
          else (Inl Panicked, bs))"

section \<open>Updating with a pretree\<close>

fun read_lengths :: "nat \<Rightarrow> nat \<Rightarrow> bitstream \<Rightarrow> nat list bit_step" where
  "read_lengths bits 0 bs = (Inr [], bs)"
| "read_lengths bits (Suc n) bs =
     and_then_st (read_bits bits bs) (\<lambda>w bs.
     and_then_st (read_lengths bits n bs) (\<lambda>ws bs. (Inr (unat w # ws), bs)))"

text \<open>A step on the bit stream beside the path lengths; \<open>get_mut(i..i + n)\<close> followed by filling it.\<close>

definition on_bits :: "(bitstream \<Rightarrow> 'a bit_step) \<Rightarrow> 's \<times> bitstream \<Rightarrow> (decode_failed, 'a) result \<times> 's \<times> bitstream" where
  "on_bits f st = (case f (snd st) of (r, bs) \<Rightarrow> (r, fst st, bs))"

definition fill_run :: "nat \<Rightarrow> nat \<Rightarrow> nat \<Rightarrow> nat list \<times> bitstream \<Rightarrow> (decode_failed, unit) result \<times> nat list \<times> bitstream" where
  "fill_run i n v st =
     (if i + n \<le> length (fst st) then (Inr (), take i (fst st) @ replicate n v @ drop (i + n) (fst st), snd st)
      else (Inl InvalidPretreeRle, st))"

definition delta :: "nat \<Rightarrow> nat \<Rightarrow> nat" where
  "delta old code = (17 + old - code) mod 17"

function update_loop :: "tree \<Rightarrow> nat \<Rightarrow> nat \<Rightarrow> nat list \<times> bitstream \<Rightarrow> (decode_failed, unit) result \<times> nat list \<times> bitstream" where
  "update_loop pretree i until st =
     (if i < until then
        and_then_st (on_bits (tree_decode pretree) st) (\<lambda>code st.
          if code \<le> 16 then
            if i < length (fst st)
            then update_loop pretree (i + 1) until ((fst st)[i := delta (fst st ! i) code], snd st)
            else (Inl Panicked, st)
          else if code = 17 then
            and_then_st (on_bits (read_bits 4) st) (\<lambda>zeros st.
            and_then_st (fill_run i (unat zeros + 4) 0 st) (\<lambda>_ st. update_loop pretree (i + (unat zeros + 4)) until st))
          else if code = 18 then
            and_then_st (on_bits (read_bits 5) st) (\<lambda>zeros st.
            and_then_st (fill_run i (unat zeros + 20) 0 st) (\<lambda>_ st. update_loop pretree (i + (unat zeros + 20)) until st))
          else if code = 19 then
            and_then_st (on_bits (read_bits 1) st) (\<lambda>same st.
            and_then_st (on_bits (tree_decode pretree) st) (\<lambda>code st.
              if code > 16 then (Inl (InvalidPretreeElement (word_of_nat code)), st)
              else if i < length (fst st)
              then and_then_st (fill_run i (unat same + 4) (delta (fst st ! i) code) st) (\<lambda>_ st.
                     update_loop pretree (i + (unat same + 4)) until st)
              else (Inl Panicked, st)))
          else (Inl (InvalidPretreeElement (word_of_nat code)), st))
      else (Inr (), st))"
  by pat_completeness auto
termination by (relation "measure (\<lambda>(pretree, i, until, st). until - i)") auto

declare update_loop.simps [simp del]

definition update_range_with_pretree ::
  "nat \<Rightarrow> nat \<Rightarrow> nat list \<times> bitstream \<Rightarrow> (decode_failed, unit) result \<times> nat list \<times> bitstream" where
  "update_range_with_pretree start until st =
     and_then_st (on_bits (read_lengths 4 20) st) (\<lambda>lengths st.
     case create_instance lengths of
       Inl e \<Rightarrow> (Inl e, st)
     | Inr pretree \<Rightarrow> update_loop pretree start until st)"

section \<open>The canonical code\<close>

text \<open>The codes in the order of the table, each as often as its length leaves open.\<close>

definition codes_of_length :: "nat list \<Rightarrow> nat \<Rightarrow> nat list" where
  "codes_of_length lengths len = filter (\<lambda>code. lengths ! code = len) [0 ..< length lengths]"

definition entries :: "nat list \<Rightarrow> nat \<Rightarrow> nat list \<Rightarrow> nat list" where
  "entries lengths largest codes = concat (map (\<lambda>code. replicate (2 ^ (largest - lengths ! code)) code) codes)"

definition table_codes :: "nat list \<Rightarrow> nat list \<Rightarrow> nat list" where
  "table_codes lengths lens = concat (map (codes_of_length lengths) lens)"

definition all_codes :: "nat list \<Rightarrow> nat list" where
  "all_codes lengths = table_codes lengths [1 ..< Suc (foldr max lengths 0)]"

lemma fill_codes_spec:
  "pos \<le> length table \<Longrightarrow>
     fill_codes lengths len amount codes (pos, table) =
     (let block = concat (map (replicate amount) (filter (\<lambda>code. lengths ! code = len) codes)) in
      if pos + length block \<le> length table
      then Inr (pos + length block, take pos table @ block @ drop (pos + length block) table)
      else Inl InvalidPathLengths)"
proof (induction codes arbitrary: pos table)
  case (Cons code codes)
  show ?case
  proof (cases "lengths ! code = len \<and> pos + amount \<le> length table")
    case True
    then show ?thesis using Cons by (simp add: Let_def add_ac)
  qed (use Cons in \<open>auto simp: Let_def\<close>)
qed (simp add: Let_def)

lemma entries_same_length:
  "\<forall>c \<in> set codes. lengths ! c = len \<Longrightarrow> entries lengths largest codes = concat (map (replicate (2 ^ (largest - len))) codes)"
  by (induction codes) (auto simp: entries_def)

lemma entries_append: "entries lengths largest (xs @ ys) = entries lengths largest xs @ entries lengths largest ys"
  by (simp add: entries_def)

lemma fill_lengths_spec:
  "pos \<le> length table \<Longrightarrow>
     fill_lengths lengths largest lens (pos, table) =
     (let block = entries lengths largest (table_codes lengths lens) in
      if pos + length block \<le> length table
      then Inr (pos + length block, take pos table @ block @ drop (pos + length block) table)
      else Inl InvalidPathLengths)"
proof (induction lens arbitrary: pos table)
  case Nil
  then show ?case by (simp add: table_codes_def entries_def)
next
  case (Cons len lens)
  let ?b = "entries lengths largest (codes_of_length lengths len)"
  have b: "concat (map (replicate (2 ^ (largest - len))) (filter (\<lambda>code. lengths ! code = len) [0 ..< length lengths])) = ?b"
    by (subst entries_same_length [of _ _ len]) (auto simp: codes_of_length_def)
  have t: "entries lengths largest (table_codes lengths (len # lens)) = ?b @ entries lengths largest (table_codes lengths lens)"
    by (simp add: table_codes_def entries_append)
  show ?case
  proof (cases "pos + length ?b \<le> length table")
    case True
    then show ?thesis using fill_codes_spec [OF Cons.prems, of lengths len "2 ^ (largest - len)" "[0 ..< length lengths]"]
        Cons.IH [of "pos + length ?b" "take pos table @ ?b @ drop (pos + length ?b) table"]
      by (simp add: b t Let_def add_ac)
  next
    case False
    then show ?thesis using fill_codes_spec [OF Cons.prems, of lengths len "2 ^ (largest - len)" "[0 ..< length lengths]"]
      by (simp add: b t Let_def)
  qed
qed

section \<open>Kraft's equality\<close>

definition kraft_sum :: "nat list \<Rightarrow> nat \<Rightarrow> nat" where
  "kraft_sum lengths largest = sum_list (map (\<lambda>len. if len = 0 then 0 else 2 ^ (largest - len)) lengths)"

lemma length_entries: "length (entries lengths largest codes) = sum_list (map (\<lambda>code. 2 ^ (largest - lengths ! code)) codes)"
  by (induction codes) (auto simp: entries_def)

lemma in_table_codes: "code \<in> set (table_codes lengths lens) \<longleftrightarrow> code < length lengths \<and> lengths ! code \<in> set lens"
  by (auto simp: table_codes_def codes_of_length_def)

lemma distinct_table_codes: "distinct lens \<Longrightarrow> distinct (table_codes lengths lens)"
  by (induction lens) (auto simp: table_codes_def codes_of_length_def)

lemma le_largest: "i < length lengths \<Longrightarrow> lengths ! i \<le> foldr max lengths (0 :: nat)"
proof (induction lengths arbitrary: i)
  case (Cons x xs)
  then show ?case by (cases i) (auto simp: le_max_iff_disj)
qed simp

lemma in_all_codes: "code \<in> set (all_codes lengths) \<longleftrightarrow> code < length lengths \<and> lengths ! code \<noteq> 0"
  using le_largest [of code lengths] by (auto simp: all_codes_def in_table_codes less_Suc_eq_le simp del: upt_Suc)

lemma distinct_all_codes: "distinct (all_codes lengths)"
  by (simp add: all_codes_def distinct_table_codes del: upt_Suc)

lemma table_length:
  "length (entries lengths (foldr max lengths 0) (all_codes lengths)) = kraft_sum lengths (foldr max lengths 0)"
proof -
  let ?l = "foldr max lengths 0"
  let ?f = "\<lambda>code. 2 ^ (?l - lengths ! code) :: nat"
  have "sum_list (map ?f (all_codes lengths)) = (\<Sum>code | code < length lengths \<and> lengths ! code \<noteq> 0. ?f code)"
    unfolding sum_list_distinct_conv_sum_set [OF distinct_all_codes] by (rule sum.cong) (auto simp: in_all_codes)
  also have "\<dots> = (\<Sum>code < length lengths. if lengths ! code = 0 then 0 else ?f code)"
    by (rule sum.mono_neutral_cong_left) auto
  also have "\<dots> = kraft_sum lengths ?l"
    by (simp add: kraft_sum_def sum_list_sum_nth atLeast0LessThan)
  finally show ?thesis by (simp add: length_entries)
qed

lemma create_instance_Some:
  "create_instance lengths = Inr t \<longleftrightarrow>
     (let largest = foldr max lengths 0 in
      0 < largest \<and> kraft_sum lengths largest = 2 ^ largest \<and>
      t = \<lparr>path_lengths = lengths, largest_length = largest, huffman_tree = entries lengths largest (all_codes lengths)\<rparr>)"
proof -
  let ?l = "foldr max lengths 0"
  let ?e = "entries lengths ?l (all_codes lengths)"
  have f: "fill_lengths lengths ?l [1 ..< Suc ?l] (0, replicate (2 ^ ?l) 0) =
      (if length ?e \<le> 2 ^ ?l then Inr (length ?e, ?e @ drop (length ?e) (replicate (2 ^ ?l) 0)) else Inl InvalidPathLengths)"
    using fill_lengths_spec [of 0 "replicate (2 ^ ?l) 0" lengths ?l "[1 ..< Suc ?l]"]
    by (simp add: Let_def all_codes_def del: upt_Suc)
  have "lengths = [] \<Longrightarrow> ?l = 0" by simp
  then show ?thesis
    unfolding create_instance_def create_instance_allow_empty_def Let_def f
    by (auto simp: result_simps table_length split: if_splits)
qed

lemma create_instance_no_panic:
  assumes "lengths \<noteq> []"
  shows "create_instance_allow_empty lengths \<noteq> Inl Panicked" "create_instance lengths \<noteq> Inl Panicked"
proof -
  let ?l = "foldr max lengths 0"
  show "create_instance_allow_empty lengths \<noteq> Inl Panicked"
    using assms fill_lengths_spec [of 0 "replicate (2 ^ ?l) 0" lengths ?l "[1 ..< Suc ?l]"]
    unfolding create_instance_allow_empty_def by (auto simp: Let_def simp del: upt_Suc split: if_splits)
  then show "create_instance lengths \<noteq> Inl Panicked"
    by (cases "create_instance_allow_empty lengths") (auto simp: create_instance_def split: option.splits)
qed

section \<open>Decoding inverts the canonical code\<close>

text \<open>The code word of an element: where its entries begin, without the bits the length leaves open.\<close>

definition entry_start :: "nat list \<Rightarrow> nat \<Rightarrow> nat list \<Rightarrow> nat \<Rightarrow> nat" where
  "entry_start lengths largest codes code = length (entries lengths largest (takeWhile (\<lambda>c. c \<noteq> code) codes))"

definition nat_bits :: "nat \<Rightarrow> nat \<Rightarrow> bool list" where
  "nat_bits n v = rev (map (bit v) [0 ..< n])"

definition code_word :: "nat list \<Rightarrow> nat \<Rightarrow> bool list" where
  "code_word lengths code =
     (let largest = foldr max lengths 0; len = lengths ! code
      in nat_bits len (entry_start lengths largest (all_codes lengths) code div 2 ^ (largest - len)))"

lemma length_code_word [simp]: "length (code_word lengths code) = lengths ! code"
  by (simp add: code_word_def nat_bits_def Let_def)

definition bits_nat :: "bool list \<Rightarrow> nat" where
  "bits_nat xs = horner_sum of_bool 2 (rev xs)"

lemma bits_nat_append: "bits_nat (xs @ ys) = bits_nat xs * 2 ^ length ys + bits_nat ys"
  by (simp add: bits_nat_def horner_sum_append)

lemma bits_nat_less: "bits_nat xs < 2 ^ length xs"
  using horner_sum_of_bool_2_less [of "rev xs"] by (simp add: bits_nat_def)

lemma bits_nat_nat_bits: "v < 2 ^ n \<Longrightarrow> bits_nat (nat_bits n v) = v"
  by (simp add: bits_nat_def nat_bits_def horner_sum_bit_eq_take_bit take_bit_nat_eq_self)

lemma unat_bits_value: "length xs \<le> LENGTH('a) \<Longrightarrow> unat (bits_value xs :: 'a::len word) = bits_nat xs"
proof -
  assume l: "length xs \<le> LENGTH('a)"
  have e: "(bits_value xs :: 'a word) = word_of_nat (bits_nat xs)"
  proof -
    have "word_of_nat (horner_sum of_bool 2 bs) = (horner_sum of_bool 2 bs :: 'a word)" for bs
      by (induction bs) simp_all
    then show ?thesis by (simp add: bits_value_def bits_nat_def)
  qed
  have "bits_nat xs < 2 ^ LENGTH('a)" using bits_nat_less [of xs] l by (meson less_le_trans one_le_numeral power_increasing)
  then show ?thesis by (simp add: e unat_of_nat take_bit_nat_eq_self)
qed

text \<open>Elements that come first in the table have no longer paths, so an element's entries begin at a
  multiple of their number.\<close>

lemma table_codes_sorted: "sorted lens \<Longrightarrow> sorted (map ((!) lengths) (table_codes lengths lens))"
proof (induction lens)
  case (Cons len lens)
  have "map ((!) lengths) (codes_of_length lengths len) = map (\<lambda>_. len) (codes_of_length lengths len)"
    by (rule map_cong) (simp_all add: codes_of_length_def)
  then have "sorted (map ((!) lengths) (codes_of_length lengths len))" by (simp add: map_replicate_const)
  then show ?case using Cons
    by (auto simp: table_codes_def sorted_append codes_of_length_def)
qed (simp add: table_codes_def)

lemma split_at_code:
  "code \<in> set codes \<Longrightarrow> codes = takeWhile (\<lambda>c. c \<noteq> code) codes @ code # tl (dropWhile (\<lambda>c. c \<noteq> code) codes)"
  by (induction codes) auto

lemma entries_at:
  assumes "code \<in> set codes" "j < 2 ^ (largest - lengths ! code)"
  shows "entry_start lengths largest codes code + j < length (entries lengths largest codes)"
    "entries lengths largest codes ! (entry_start lengths largest codes code + j) = code"
proof -
  let ?p = "entries lengths largest (takeWhile (\<lambda>c. c \<noteq> code) codes)"
  obtain rest where r: "entries lengths largest codes = ?p @ replicate (2 ^ (largest - lengths ! code)) code @ rest"
  proof
    show "entries lengths largest codes = ?p @ replicate (2 ^ (largest - lengths ! code)) code @
        entries lengths largest (tl (dropWhile (\<lambda>c. c \<noteq> code) codes))"
      by (subst split_at_code [OF assms(1)]) (simp add: entries_def)
  qed
  show "entry_start lengths largest codes code + j < length (entries lengths largest codes)"
    "entries lengths largest codes ! (entry_start lengths largest codes code + j) = code"
    unfolding r entry_start_def using assms(2) by (simp_all add: nth_append)
qed

lemma entries_find:
  "v < length (entries lengths largest codes) \<Longrightarrow> distinct codes \<Longrightarrow>
     \<exists>code \<in> set codes. \<exists>j < 2 ^ (largest - lengths ! code). v = entry_start lengths largest codes code + j"
proof (induction codes arbitrary: v)
  case (Cons c codes)
  let ?n = "2 ^ (largest - lengths ! c) :: nat"
  show ?case
  proof (cases "v < ?n")
    case True
    then show ?thesis by (intro bexI [of _ c] exI [of _ v]) (simp_all add: entry_start_def entries_def)
  next
    case False
    have "v - ?n < length (entries lengths largest codes)" using Cons.prems(1) False by (simp add: entries_def)
    then obtain code j where c: "code \<in> set codes" "j < 2 ^ (largest - lengths ! code)"
        "v - ?n = entry_start lengths largest codes code + j"
      using Cons.IH [of "v - ?n"] Cons.prems(2) by force
    then have "entry_start lengths largest (c # codes) code = ?n + entry_start lengths largest codes code"
      using Cons.prems(2) by (auto simp: entry_start_def entries_def)
    then show ?thesis using c False by (intro bexI [of _ code] exI [of _ j]) simp_all
  qed
qed (simp add: entries_def)

lemma dvd_sum_list: "\<forall>x \<in> set xs. (d :: nat) dvd f x \<Longrightarrow> d dvd sum_list (map f xs)"
  by (induction xs) auto

lemma entry_start_dvd:
  assumes "code \<in> set codes" "sorted (map ((!) lengths) codes)" "\<forall>c \<in> set codes. lengths ! c \<le> largest"
  shows "2 ^ (largest - lengths ! code) dvd entry_start lengths largest codes code"
proof -
  let ?p = "takeWhile (\<lambda>c. c \<noteq> code) codes"
  have "sorted (map ((!) lengths) (?p @ code # tl (dropWhile (\<lambda>c. c \<noteq> code) codes)))"
    using split_at_code [OF assms(1)] assms(2) by simp
  then have "\<forall>c \<in> set ?p. lengths ! c \<le> lengths ! code" by (auto simp: sorted_append)
  then have "\<forall>c \<in> set ?p. (2 ^ (largest - lengths ! code) :: nat) dvd 2 ^ (largest - lengths ! c)"
    by (simp add: diff_le_mono2 le_imp_power_dvd)
  then show ?thesis by (simp add: entry_start_def length_entries dvd_sum_list)
qed

lemma code_word_value:
  assumes "code \<in> set (all_codes lengths)" "kraft_sum lengths (foldr max lengths 0) = 2 ^ foldr max lengths 0"
  shows "bits_nat (code_word lengths code) * 2 ^ (foldr max lengths 0 - lengths ! code) =
         entry_start lengths (foldr max lengths 0) (all_codes lengths) code"
proof -
  let ?l = "foldr max lengths 0" and ?len = "lengths ! code"
  let ?start = "entry_start lengths ?l (all_codes lengths) code"
  have len: "?len \<le> ?l" using assms(1) le_largest [of code lengths] unfolding in_all_codes by simp
  have dvd: "2 ^ (?l - ?len) dvd ?start"
  proof (rule entry_start_dvd [OF assms(1)])
    show "sorted (map ((!) lengths) (all_codes lengths))" unfolding all_codes_def by (rule table_codes_sorted) (rule sorted_upt)
    show "\<forall>c \<in> set (all_codes lengths). lengths ! c \<le> ?l"
    proof
      fix c assume "c \<in> set (all_codes lengths)"
      then show "lengths ! c \<le> ?l" unfolding in_all_codes by (simp add: le_largest)
    qed
  qed
  have "?start < 2 ^ ?l"
    using entries_at(1) [OF assms(1), of 0 ?l lengths] table_length [of lengths] assms(2) by simp
  then have "?start < 2 ^ ?len * 2 ^ (?l - ?len)" using len by (simp flip: power_add)
  then have "?start div 2 ^ (?l - ?len) < 2 ^ ?len" by (simp add: less_mult_imp_div_less)
  then show ?thesis using dvd by (simp add: code_word_def Let_def bits_nat_nat_bits dvd_div_mult_self del: upt_Suc)
qed

lemma nat_bits_bits_nat: "nat_bits (length xs) (bits_nat xs) = xs"
  by (rule nth_equalityI) (auto simp: nat_bits_def bits_nat_def rev_nth bit_horner_sum_bit_iff)

lemma bits_nat_inj: "length xs = length ys \<Longrightarrow> bits_nat xs = bits_nat ys \<Longrightarrow> xs = ys"
  by (metis nat_bits_bits_nat)

text \<open>What decoding sees: the element whose entries hold the bits ahead, padded with zeros.\<close>

lemma table_lookup:
  assumes t: "create_instance lengths = Inr t" and xs: "length xs = largest_length t"
  shows "code \<in> set (all_codes lengths) \<Longrightarrow> take (lengths ! code) xs = code_word lengths code \<Longrightarrow> huffman_tree t ! bits_nat xs = code"
    and "\<exists>code \<in> set (all_codes lengths). huffman_tree t ! bits_nat xs = code \<and> take (lengths ! code) xs = code_word lengths code"
proof -
  let ?l = "foldr max lengths 0"
  have ok: "kraft_sum lengths ?l = 2 ^ ?l" "huffman_tree t = entries lengths ?l (all_codes lengths)" "length xs = ?l"
    using t xs unfolding create_instance_Some by (simp_all add: Let_def)
  have split: "bits_nat xs = bits_nat (take n xs) * 2 ^ (?l - n) + bits_nat (drop n xs)" "bits_nat (drop n xs) < 2 ^ (?l - n)" for n
    using bits_nat_append [of "take n xs" "drop n xs"] bits_nat_less [of "drop n xs"] ok(3) by simp_all
  show "huffman_tree t ! bits_nat xs = code" if "code \<in> set (all_codes lengths)" "take (lengths ! code) xs = code_word lengths code"
    using entries_at(2) [OF that(1) split(2)] split(1) [of "lengths ! code"] code_word_value [OF that(1) ok(1)] that(2) ok(2) by simp
  have "bits_nat xs < length (entries lengths ?l (all_codes lengths))"
    using bits_nat_less [of xs] table_length [of lengths] ok by simp
  then obtain code j where c: "code \<in> set (all_codes lengths)" "j < 2 ^ (?l - lengths ! code)"
      "bits_nat xs = entry_start lengths ?l (all_codes lengths) code + j"
    using entries_find [OF _ distinct_all_codes] by blast
  have "bits_nat (take (lengths ! code) xs) = bits_nat xs div 2 ^ (?l - lengths ! code)"
    using split [of "lengths ! code"] by simp
  also have "\<dots> = bits_nat (code_word lengths code)"
    unfolding c(3) code_word_value [OF c(1) ok(1), symmetric] using c(2) by simp
  finally have "take (lengths ! code) xs = code_word lengths code"
    using c(1) ok(3) le_largest [of code lengths] by (intro bits_nat_inj) (auto simp: in_all_codes)
  moreover have "huffman_tree t ! bits_nat xs = code" using entries_at(2) [OF c(1,2)] c(3) ok(2) by simp
  ultimately show "\<exists>code \<in> set (all_codes lengths). huffman_tree t ! bits_nat xs = code \<and> take (lengths ! code) xs = code_word lengths code"
    using c(1) by blast
qed

lemma instance_fields:
  assumes "create_instance lengths = Inr t"
  shows "largest_length t = foldr max lengths 0" "path_lengths t = lengths" "length (huffman_tree t) = 2 ^ largest_length t"
  using assms table_length [of lengths] unfolding create_instance_Some by (simp_all add: Let_def)

lemma largest_le: "\<forall>len \<in> set lengths. len \<le> b \<Longrightarrow> foldr max lengths 0 \<le> (b :: nat)"
  by (induction lengths) auto

text \<open>The bits that decoding looks at: as many as the longest path has, with zeros after the end.\<close>

definition bits_ahead :: "tree \<Rightarrow> bitstream \<Rightarrow> bool list" where
  "bits_ahead t s = take (largest_length t) (bits_left s @ replicate 16 False)"

lemma take_bits_ahead: "n \<le> largest_length t \<Longrightarrow> take n (bits_ahead t s) = take n (bits_left s @ replicate 16 False)"
  unfolding bits_ahead_def take_take by (simp add: min_absorb1 del: take_append)

lemma code_ahead:
  assumes t: "create_instance lengths = Inr t" and l: "\<forall>len \<in> set lengths. len \<le> 16"
    and c: "code \<in> set (all_codes lengths)" "bits_left s = code_word lengths code @ rest"
  shows "huffman_tree t ! bits_nat (bits_ahead t s) = code"
proof (rule table_lookup(1) [OF t _ c(1)])
  show "length (bits_ahead t s) = largest_length t" using largest_le [OF l] instance_fields(1) [OF t] by (simp add: bits_ahead_def)
  show "take (lengths ! code) (bits_ahead t s) = code_word lengths code"
    using c le_largest [of code lengths] instance_fields(1) [OF t] by (simp add: take_bits_ahead in_all_codes)
qed

text \<open>Decoding never panics, returns an element of the tree, consumes exactly its code word, and fails
  only at the end of the stream.\<close>

lemma tree_decode_spec:
  assumes t: "create_instance lengths = Inr t" and l: "\<forall>len \<in> set lengths. len \<le> 16" and s: "stream_ok s"
  shows "case tree_decode t s of
      (Inr code, s') \<Rightarrow> code \<in> set (all_codes lengths) \<and> bits_left s = code_word lengths code @ bits_left s' \<and> stream_ok s'
    | (Inl e, s') \<Rightarrow> e = LzxUnexpectedEof \<and> stream_ok s' \<and>
        \<not> (\<exists>code \<in> set (all_codes lengths). \<exists>rest. bits_left s = code_word lengths code @ rest)"
proof -
  let ?L = "largest_length t" and ?xs = "bits_ahead t s"
  note t' = instance_fields [OF t]
  have L: "?L \<le> 16" and xs: "length ?xs = ?L" using largest_le [OF l] t'(1) by (simp_all add: bits_ahead_def)
  have peek: "peek_bits ?L s = Inr (bits_value ?xs)"
    using peek_bits_oneword_spec [OF s L] L xs ucast_bits_value [of ?xs] by (simp add: peek_bits_def bits_ahead_def)
  have v: "unat (bits_value ?xs :: u32) = bits_nat ?xs" using unat_bits_value [where ?'a = 32, of ?xs] L xs by simp
  obtain code where c: "code \<in> set (all_codes lengths)" "huffman_tree t ! bits_nat ?xs = code"
      "take (lengths ! code) ?xs = code_word lengths code"
    using table_lookup(2) [OF t xs] by blast
  have len: "lengths ! code \<le> ?L" "code < length lengths" using c(1) le_largest [of code lengths] t'(1) by (auto simp: in_all_codes)
  have "bits_nat ?xs < 2 ^ ?L" using bits_nat_less [of ?xs] unfolding xs by assumption
  then have dec: "tree_decode t s = and_then_st (read_bits (lengths ! code) s) (\<lambda>_ s. (Inr code, s))"
    using peek v c(2) len t' by (simp add: tree_decode_def Let_def)
  have cw: "take (lengths ! code) (bits_left s @ replicate 16 False) = code_word lengths code"
    using c(3) take_bits_ahead [OF len(1), of s] by simp
  have none: "lengths ! code \<le> length (bits_left s)"
    if "code' \<in> set (all_codes lengths)" "bits_left s = code_word lengths code' @ rest" for code' rest
    using code_ahead [OF t l that] c(2) that(2) by simp
  have "reads (lengths ! code) s (read_bits (lengths ! code) s)" using read_bits_reads [OF s] len L by simp
  then show ?thesis
  proof (cases rule: reads_cases)
    case (ok w s')
    then have "take (lengths ! code) (bits_left s) = code_word lengths code" using cw by simp
    then show ?thesis using ok dec c(1) by (simp add: result_simps) (metis append_take_drop_id)
  next
    case (eof s')
    then show ?thesis using dec none by (fastforce simp: result_simps)
  qed
qed

text \<open>C25. Decoding an element returns \<open>code\<close> and leaves the bits \<open>rest\<close> exactly when \<open>code\<close> is an element
  with a nonzero path length and the stream begins with its canonical code word.\<close>

theorem lzx_decode_inverts_code:
  assumes t: "create_instance lengths = Inr t" and l: "\<forall>len \<in> set lengths. len \<le> 16" and s: "stream_ok s"
  shows "(\<exists>s'. tree_decode t s = (Inr code, s') \<and> bits_left s' = rest) \<longleftrightarrow>
         code < length lengths \<and> lengths ! code \<noteq> 0 \<and> bits_left s = code_word lengths code @ rest" (is "?l \<longleftrightarrow> ?r")
proof
  assume ?l
  then show ?r using tree_decode_spec [OF t l s] by (auto simp: in_all_codes)
next
  assume r: ?r
  then have c: "code \<in> set (all_codes lengths)" by (simp add: in_all_codes)
  obtain x s' where x: "tree_decode t s = (x, s')" by fastforce
  show ?l
  proof (cases x)
    case (Inl e)
    then show ?thesis using tree_decode_spec [OF t l s] x c r by auto
  next
    case (Inr code')
    then have c': "code' \<in> set (all_codes lengths)" "bits_left s = code_word lengths code' @ bits_left s'"
      using tree_decode_spec [OF t l s] x by auto
    have "code' = code" using code_ahead [OF t l c'] code_ahead [OF t l c, of s rest] r by simp
    then show ?thesis using x Inr r c' by simp
  qed
qed

lemma lzx_decode_inverts_code_witness:
  "\<exists>t s'. create_instance [1, 2, 2] = Inr t \<and> tree_decode t (bitstream_new [0, 128]) = (Inr 1, s') \<and> bits_left s' = replicate 14 False"
proof -
  obtain t where t: "create_instance [1, 2, 2] = Inr t" by (cases "create_instance [1, 2, 2]") (simp_all add: create_instance_def create_instance_allow_empty_def Let_def upt_rec result_simps)
  have b: "bits_left (bitstream_new [0, 128]) = code_word [1, 2, 2] 1 @ replicate 14 False" by code_simp
  have "stream_ok (bitstream_new [0, 128])" by code_simp
  then show ?thesis using lzx_decode_inverts_code [OF t, of "bitstream_new [0, 128]" 1 "replicate 14 False"] b t by auto
qed

lemma kraft_sum_real:
  "(\<Sum>len \<leftarrow> lengths. real (if len = 0 then 0 else 2 ^ (l - len)) / 2 ^ l) = real (kraft_sum lengths l) / 2 ^ l"
  unfolding kraft_sum_def by (induction lengths) (simp_all add: add_divide_distrib)

text \<open>C26. The decoder accepts path lengths exactly when they satisfy Kraft's equality, so exactly when a
  complete prefix code with these lengths exists.\<close>

theorem lzx_tree_exists_iff_kraft:
  "(\<exists>t. create_instance lengths = Inr t) \<longleftrightarrow> (\<Sum>len \<leftarrow> lengths. if len = 0 then 0 else 1 / 2 ^ len) = (1 :: real)"
proof -
  let ?l = "foldr max lengths 0"
  have "(\<Sum>len \<leftarrow> lengths. if len = 0 then 0 else 1 / 2 ^ len) = (\<Sum>len \<leftarrow> lengths. real (if len = 0 then 0 else 2 ^ (?l - len)) / 2 ^ ?l)"
  proof (rule arg_cong [where f = sum_list], rule map_cong [OF refl])
    fix len assume "len \<in> set lengths"
    then have "len \<le> ?l" by (metis in_set_conv_nth le_largest)
    then have "(2 :: real) ^ (?l - len) = 2 ^ ?l / 2 ^ len" by (simp add: power_diff)
    then show "(if len = 0 then 0 else 1 / 2 ^ len) = real (if len = 0 then 0 else 2 ^ (?l - len)) / 2 ^ ?l"
      by simp
  qed
  also have "\<dots> = real (kraft_sum lengths ?l) / 2 ^ ?l" by (rule kraft_sum_real)
  finally have k: "(\<Sum>len \<leftarrow> lengths. if len = 0 then 0 else 1 / 2 ^ len) = real (kraft_sum lengths ?l) / 2 ^ ?l" .
  have "real (kraft_sum lengths ?l) / 2 ^ ?l = 1 \<longleftrightarrow> real (kraft_sum lengths ?l) = real (2 ^ ?l)" by auto
  also have "\<dots> \<longleftrightarrow> kraft_sum lengths ?l = 2 ^ ?l" by (rule of_nat_eq_iff)
  also have "\<dots> \<longleftrightarrow> 0 < ?l \<and> kraft_sum lengths ?l = 2 ^ ?l"
  proof -
    have "kraft_sum lengths ?l = 0" if "?l = 0"
    proof -
      have "\<forall>len \<in> set lengths. len = 0" using that le_largest [of _ lengths] by (metis in_set_conv_nth le_zero_eq)
      then show ?thesis by (simp add: kraft_sum_def)
    qed
    then show ?thesis by (cases "?l = 0") auto
  qed
  finally show ?thesis unfolding k create_instance_Some by (simp add: Let_def)
qed

section \<open>Updates keep the trees well formed\<close>

definition lengths_ok :: "nat \<Rightarrow> nat list \<Rightarrow> bool" where
  "lengths_ok n lengths \<longleftrightarrow> length lengths = n \<and> (\<forall>len \<in> set lengths. len \<le> 16)"

lemma delta_le: "delta old code \<le> 16"
  using pos_mod_bound [of 17 "17 + old - code"] by (simp add: delta_def)

lemma lengths_ok_update: "lengths_ok n ls \<Longrightarrow> v \<le> 16 \<Longrightarrow> lengths_ok n (ls[i := v])"
  using set_update_subset_insert [of ls i v] by (auto simp: lengths_ok_def)

text \<open>Steps on a state beside the bit stream: the state keeps \<open>P\<close>, the stream never grows, a success
  spends \<open>k\<close> bits with a result that has \<open>R\<close>, and a panic occurs in states with \<open>Q\<close> only.\<close>

definition step_ok ::
  "('s \<Rightarrow> bool) \<Rightarrow> ('s \<Rightarrow> bool) \<Rightarrow> ('a \<Rightarrow> 's \<Rightarrow> bool) \<Rightarrow> nat \<Rightarrow> bitstream \<Rightarrow> (decode_failed, 'a) result \<times> 's \<times> bitstream \<Rightarrow> bool" where
  "step_ok P Q R k s r \<longleftrightarrow>
     (case r of
        (Inr x, st, t) \<Rightarrow> R x st \<and> P st \<and> stream_ok t \<and> stream_size t + k \<le> stream_size s
      | (Inl e, st, t) \<Rightarrow> (e = Panicked \<longrightarrow> Q st) \<and> P st \<and> stream_ok t \<and> stream_size t \<le> stream_size s)"

lemma step_ok_then:
  assumes "step_ok P Q R j s r"
    "\<And>x st. R x (fst st) \<Longrightarrow> P (fst st) \<Longrightarrow> stream_ok (snd st) \<Longrightarrow> step_ok P Q R' k (snd st) (f x st)"
  shows "step_ok P Q R' (j + k) s (and_then_st r f)"
proof -
  obtain x st where r: "r = (x, st)" by (metis prod.exhaust)
  show ?thesis
  proof (cases x)
    case (Inl e)
    then show ?thesis using assms(1) r by (cases st) (simp add: step_ok_def)
  next
    case (Inr y)
    obtain z st' where f: "f y st = (z, st')" by (metis prod.exhaust)
    have y: "R y (fst st)" "P (fst st)" "stream_ok (snd st)" "stream_size (snd st) + j \<le> stream_size s"
      using assms(1) r Inr by (auto simp: step_ok_def split: prod.splits)
    then have "step_ok P Q R' k (snd st) (z, st')" using assms(2) f by metis
    then show ?thesis using y(4) r Inr f by (cases z; cases st') (auto simp: step_ok_def)
  qed
qed

lemma step_ok_bits:
  "bit_ok R k (snd st) (f (snd st)) \<Longrightarrow> P (fst st) \<Longrightarrow> step_ok P Q (\<lambda>x _. R x) k (snd st) (on_bits f st)"
  by (auto simp: step_ok_def bit_ok_def on_bits_def split: prod.splits sum.splits)

lemma step_ok_mono:
  "step_ok P Q R k s r \<Longrightarrow> (\<And>x st. P st \<Longrightarrow> R x st \<Longrightarrow> R' x st) \<Longrightarrow> k' \<le> k \<Longrightarrow> step_ok P Q R' k' s r"
  by (auto simp: step_ok_def split: prod.splits sum.splits)

lemma step_ok_return: "P (fst st) \<Longrightarrow> stream_ok (snd st) \<Longrightarrow> R x (fst st) \<Longrightarrow> step_ok P Q R 0 (snd st) (Inr x, st)"
  by (cases st) (simp add: step_ok_def)

lemma step_ok_error: "P (fst st) \<Longrightarrow> stream_ok (snd st) \<Longrightarrow> e \<noteq> Panicked \<Longrightarrow> step_ok P Q R k (snd st) (Inl e, st)"
  by (cases st) (simp add: step_ok_def)

lemma read_bits_ok:
  assumes "stream_ok s" "bits \<le> 32"
  shows "bit_ok (\<lambda>w. unat w < 2 ^ bits) bits s (read_bits bits s)"
  using read_bits_reads [OF assms]
proof (cases rule: reads_cases)
  case (ok w t)
  have "unat w = bits_nat (take bits (bits_left s))"
    using ok(3) unat_bits_value [where ?'a = 32, of "take bits (bits_left s)"] assms(2) by simp
  then have "unat w < 2 ^ bits" using bits_nat_less [of "take bits (bits_left s)"] ok(2) by (simp add: min_absorb2)
  then show ?thesis using read_bits_ok' [OF assms] ok(1) by (simp add: bit_ok_def)
next
  case (eof t)
  then show ?thesis using read_bits_ok' [OF assms] by (simp add: bit_ok_def)
qed

text \<open>A tree built from \<open>n\<close> path lengths; decoding with it returns an element below \<open>n\<close> and spends a bit.\<close>

definition tree_for :: "nat \<Rightarrow> tree \<Rightarrow> bool" where
  "tree_for n t \<longleftrightarrow> (\<exists>lengths. create_instance lengths = Inr t \<and> lengths_ok n lengths)"

lemma tree_decode_ok:
  assumes "tree_for n t" "stream_ok s"
  shows "bit_ok (\<lambda>code. code < n) 1 s (tree_decode t s)"
proof -
  obtain ls where ls: "create_instance ls = Inr t" "\<forall>len \<in> set ls. len \<le> 16" "length ls = n" "path_lengths t = ls"
    using assms(1) instance_fields(2) by (auto simp: tree_for_def lengths_ok_def)
  note spec = tree_decode_spec [OF ls(1,2) assms(2)]
  have L: "\<not> 32 < largest_length t" using largest_le [OF ls(2)] instance_fields(1) [OF ls(1)] by simp
  obtain r u where r: "tree_decode t s = (r, u)" by fastforce
  have rd: "bit_ok (\<lambda>_. True) len s (read_bits len s)" if "len \<in> set ls" for len
    using read_bits_ok' [OF assms(2), of len] ls(2) that by fastforce
  show ?thesis
  proof (cases r)
    case (Inr code)
    then have c: "code < length ls" "ls ! code \<noteq> 0" using spec r by (auto simp: in_all_codes)
    obtain w where "read_bits (ls ! code) s = (Inr w, u)"
      using r Inr ls(4) by (auto simp: tree_decode_def Let_def result_simps split: sum.splits if_splits)
    then show ?thesis using rd [of "ls ! code"] c ls(3) r Inr by (auto simp: bit_ok_def)
  next
    case (Inl e)
    then have e: "e = LzxUnexpectedEof" "stream_ok u" using spec r by auto
    have "u = s \<or> (\<exists>code < length ls. read_bits (ls ! code) s = (Inl e, u))"
      using r Inl ls(4) by (auto simp: tree_decode_def Let_def result_simps split: sum.splits if_splits)
    then have "stream_size u \<le> stream_size s"
    proof (elim disjE exE conjE)
      fix code assume "code < length ls" "read_bits (ls ! code) s = (Inl e, u)"
      then show ?thesis using rd [of "ls ! code"] by (simp add: bit_ok_def)
    qed simp
    then show ?thesis using r Inl e by (simp add: bit_ok_def)
  qed
qed

lemma read_lengths_ok:
  assumes "stream_ok s" "bits \<le> 4"
  shows "bit_ok (lengths_ok k) 0 s (read_lengths bits k s)"
  using assms(1)
proof (induction k arbitrary: s)
  case (Suc k)
  have "(2 :: nat) ^ bits \<le> 2 ^ 4" by (rule power_increasing) (use assms(2) in simp_all)
  then have b: "bit_ok (\<lambda>w. unat w \<le> 16) 0 s (read_bits bits s)"
    by (intro bit_ok_mono [OF read_bits_ok [OF Suc.prems]]) (use assms(2) in auto)
  have "bit_ok (lengths_ok (Suc k)) (0 + (0 + 0)) s (read_lengths bits (Suc k) s)"
    unfolding read_lengths.simps
    by (rule bit_ok_then [OF b bit_ok_then [OF Suc.IH bit_ok_return]]) (auto simp: lengths_ok_def)
  then show ?case by simp
qed (auto intro!: bit_ok_return simp: lengths_ok_def)

text \<open>The same steps beside a state, and a sequence of which only the second part has to spend.\<close>

lemma step_read_ok:
  "bits \<le> 32 \<Longrightarrow> P (fst st) \<Longrightarrow> stream_ok (snd st) \<Longrightarrow> step_ok P Q (\<lambda>w _. unat w < 2 ^ bits) bits (snd st) (on_bits (read_bits bits) st)"
  by (rule step_ok_bits) (rule read_bits_ok)

lemma step_decode_ok:
  "tree_for m t \<Longrightarrow> P (fst st) \<Longrightarrow> stream_ok (snd st) \<Longrightarrow> step_ok P Q (\<lambda>code _. code < m) 1 (snd st) (on_bits (tree_decode t) st)"
  by (rule step_ok_bits) (rule tree_decode_ok)

lemma step_lengths_ok:
  "bits \<le> 4 \<Longrightarrow> P (fst st) \<Longrightarrow> stream_ok (snd st) \<Longrightarrow> step_ok P Q (\<lambda>ls _. lengths_ok m ls) 0 (snd st) (on_bits (read_lengths bits m) st)"
  by (rule step_ok_bits) (rule read_lengths_ok)

lemma step_ok_seq:
  assumes "step_ok P Q R j s r"
    "\<And>x st. R x (fst st) \<Longrightarrow> P (fst st) \<Longrightarrow> stream_ok (snd st) \<Longrightarrow> step_ok P Q R' k (snd st) (f x st)"
  shows "step_ok P Q R' k s (and_then_st r f)"
  by (rule step_ok_mono [OF step_ok_then [OF assms]]) simp_all

abbreviation lengths_step :: "nat \<Rightarrow> bitstream \<Rightarrow> (decode_failed, unit) result \<times> nat list \<times> bitstream \<Rightarrow> bool" where
  "lengths_step n \<equiv> step_ok (lengths_ok n) (\<lambda>_. False) (\<lambda>_ _. True) 0"

lemma fill_run_ok:
  "lengths_ok n (fst st) \<Longrightarrow> stream_ok (snd st) \<Longrightarrow> v \<le> 16 \<Longrightarrow> lengths_step n (snd st) (fill_run i k v st)"
  by (auto simp: step_ok_def fill_run_def lengths_ok_def dest!: in_set_takeD in_set_dropD)

lemma update_loop_ok:
  assumes "tree_for m pretree" "until \<le> n"
  shows "lengths_ok n (fst st) \<Longrightarrow> stream_ok (snd st) \<Longrightarrow> lengths_step n (snd st) (update_loop pretree i until st)"
proof (induction "until - i" arbitrary: i st rule: less_induct)
  case less
  note dec = step_decode_ok [where P = "lengths_ok n", OF assms(1)]
  show ?case
  proof (cases "i < until")
    case True
    have IH: "lengths_step n (snd st') (update_loop pretree i' until st')"
      if "i < i'" "lengths_ok n (fst st')" "stream_ok (snd st')" for i' st'
      using less.hyps [of i' st'] that True by simp
    have run: "lengths_step n (snd st') (and_then_st (fill_run i k v st') (\<lambda>_ st. update_loop pretree (i + k) until st))"
      if "0 < k" "v \<le> 16" "lengths_ok n (fst st')" "stream_ok (snd st')" for k v st'
      by (rule step_ok_seq [OF fill_run_ok [OF that(3,4,2)] IH]) (use that in simp_all)
    have zeros: "lengths_step n (snd st') (and_then_st (on_bits (read_bits b) st') (\<lambda>zeros st.
        and_then_st (fill_run i (unat zeros + k) 0 st) (\<lambda>_ st. update_loop pretree (i + (unat zeros + k)) until st)))"
      if "0 < k" "b \<le> 32" "lengths_ok n (fst st')" "stream_ok (snd st')" for b k st'
      by (rule step_ok_seq [OF step_read_ok [where P = "lengths_ok n", OF that(2-4)] run]) (use that in simp_all)
    have same: "lengths_step n (snd st') (and_then_st (on_bits (read_bits 1) st') (\<lambda>same st.
            and_then_st (on_bits (tree_decode pretree) st) (\<lambda>code st.
              if code > 16 then (Inl (InvalidPretreeElement (word_of_nat code)), st)
              else if i < length (fst st)
              then and_then_st (fill_run i (unat same + 4) (delta (fst st ! i) code) st) (\<lambda>_ st.
                     update_loop pretree (i + (unat same + 4)) until st)
              else (Inl Panicked, st))))"
      if "lengths_ok n (fst st')" "stream_ok (snd st')" for st'
    proof (rule step_ok_seq [OF step_read_ok [where P = "lengths_ok n", OF _ that] step_ok_seq [OF dec]])
      show "lengths_step n (snd st) (if code > 16 then (Inl (InvalidPretreeElement (word_of_nat code)), st)
              else if i < length (fst st)
              then and_then_st (fill_run i (unat same + 4) (delta (fst st ! i) code) st) (\<lambda>_ st.
                     update_loop pretree (i + (unat same + 4)) until st)
              else (Inl Panicked, st))" if "lengths_ok n (fst st)" "stream_ok (snd st)" for same :: u32 and code st
        using run [OF _ delta_le that, of "unat same + 4"] that True assms(2) by (auto simp: step_ok_error lengths_ok_def)
    qed (use that in simp_all)
    have elem: "lengths_step n (snd st) (update_loop pretree (i + 1) until ((fst st)[i := delta (fst st ! i) code], snd st))"
      if "lengths_ok n (fst st)" "stream_ok (snd st)" for code st
      using IH [of "i + 1" "((fst st)[i := delta (fst st ! i) code], snd st)"] that by (simp add: lengths_ok_update delta_le)
    show ?thesis unfolding update_loop.simps [of pretree i until st] if_P [OF True]
    proof (rule step_ok_seq [OF dec [OF less.prems]], goal_cases)
      case (1 code st)
      then show ?case using elem zeros [of 4 4 st] zeros [of 20 5 st] same [of st] True assms(2)
        by (auto simp: step_ok_error lengths_ok_def)
    qed
  next
    case False
    then show ?thesis using less.prems by (subst update_loop.simps) (simp add: step_ok_return)
  qed
qed

lemma create_instance_tree_for: "create_instance ls = Inr t \<Longrightarrow> lengths_ok n ls \<Longrightarrow> tree_for n t"
  by (auto simp: tree_for_def)

lemma update_range_ok:
  assumes "until \<le> n" "lengths_ok n (fst st)" "stream_ok (snd st)"
  shows "lengths_step n (snd st) (update_range_with_pretree start until st)"
proof -
  show ?thesis unfolding update_range_with_pretree_def
  proof (rule step_ok_seq [OF step_lengths_ok [where P = "lengths_ok n", OF _ assms(2,3)]], goal_cases)
    case (2 ls st)
    have "create_instance ls \<noteq> Inl Panicked"
      by (rule create_instance_no_panic(2)) (use 2 in \<open>auto simp: lengths_ok_def\<close>)
    then show ?case using 2 update_loop_ok [OF create_instance_tree_for assms(1)]
      by (cases "create_instance ls") (auto simp: step_ok_error)
  qed simp
qed

end
