(* ===== verification/Lzx_Window.thy ===== *)
theory Lzx_Window
  imports Lzx_Bits
begin

text \<open>
  The sliding window of the LZX decoder (\<open>crates/zmanager-wim/src/lzx/window.rs\<close>): a ring buffer
  whose size is a power of two.  The abstraction \<open>w_contents\<close> is the list of its bytes from the oldest to
  the newest; every operation, on its fast path and where it wraps around, is shown to shift that
  list to the left and to append the bytes it writes.
\<close>

section \<open>Window sizes\<close>

datatype window_size = KB32 | KB64 | KB128 | KB256 | KB512 | MB1 | MB2 | MB4 | MB8 | MB16 | MB32

definition max_chunk_size :: nat where
  "max_chunk_size = 32768"

fun position_slots :: "window_size \<Rightarrow> nat" where
  "position_slots KB32 = 30"
| "position_slots KB64 = 32"
| "position_slots KB128 = 34"
| "position_slots KB256 = 36"
| "position_slots KB512 = 38"
| "position_slots MB1 = 42"
| "position_slots MB2 = 50"
| "position_slots MB4 = 66"
| "position_slots MB8 = 98"
| "position_slots MB16 = 162"
| "position_slots MB32 = 290"

fun window_value :: "window_size \<Rightarrow> nat" where
  "window_value KB32 = 0x8000"
| "window_value KB64 = 0x10000"
| "window_value KB128 = 0x20000"
| "window_value KB256 = 0x40000"
| "window_value KB512 = 0x80000"
| "window_value MB1 = 0x100000"
| "window_value MB2 = 0x200000"
| "window_value MB4 = 0x400000"
| "window_value MB8 = 0x800000"
| "window_value MB16 = 0x1000000"
| "window_value MB32 = 0x2000000"

section \<open>The window\<close>

record window =
  w_pos :: nat
  w_buffer :: bytes

definition is_power_of_two :: "nat \<Rightarrow> bool" where
  "is_power_of_two n \<longleftrightarrow> n \<noteq> 0 \<and> n AND (n - 1) = 0"

definition create_buffer :: "window_size \<Rightarrow> (decode_failed, window) result" where
  "create_buffer self =
     (if window_value self \<ge> max_chunk_size \<and> is_power_of_two (window_value self)
      then Inr \<lparr>w_pos = 0, w_buffer = replicate (window_value self) 0\<rparr>
      else Inl Panicked)"

definition w_advance :: "nat \<Rightarrow> window \<Rightarrow> window" where
  "w_advance delta self =
     (let pos = w_pos self + delta
      in self\<lparr>w_pos := if pos \<ge> length (w_buffer self) then pos - length (w_buffer self) else pos\<rparr>)"

definition w_push :: "u8 \<Rightarrow> window \<Rightarrow> (decode_failed, window) result" where
  "w_push v self =
     (if w_pos self < length (w_buffer self)
      then Inr (w_advance 1 (self\<lparr>w_buffer := (w_buffer self)[w_pos self := v]\<rparr>))
      else Inl Panicked)"

text \<open>\<open>copy_within(start..start + n, dst)\<close>; the ranges of its uses are inside the buffer.\<close>

definition copy_within :: "nat \<Rightarrow> nat \<Rightarrow> nat \<Rightarrow> bytes \<Rightarrow> bytes" where
  "copy_within start n dst b = take dst b @ take n (drop start b) @ drop (dst + n) b"

text \<open>The loop over \<open>i\<close>; the subtraction and the two indices are checked.\<close>

fun copy_loop :: "nat \<Rightarrow> nat \<Rightarrow> nat \<Rightarrow> nat list \<Rightarrow> bytes \<Rightarrow> (decode_failed, bytes) result" where
  "copy_loop msk pos offset [] b = Inr b"
| "copy_loop msk pos offset (i # is) b =
     (if offset > length b + pos + i then Inl Panicked
      else let dst = (pos + i) AND msk; src = (length b + pos + i - offset) AND msk
           in if dst < length b \<and> src < length b then copy_loop msk pos offset is (b[dst := b ! src])
              else Inl Panicked)"

definition copy_from_self :: "nat \<Rightarrow> nat \<Rightarrow> window \<Rightarrow> (decode_failed, window) result" where
  "copy_from_self offset n self =
     (let b = w_buffer self; pos = w_pos self
      in and_then
           (if offset \<le> pos \<and> n \<le> offset \<and> pos + n < length b
            then let start = pos - offset in Inr (copy_within start n pos b)
            else if length b = 0 then Inl Panicked
            else copy_loop (length b - 1) pos offset [0 ..< n] b)
           (\<lambda>b. Inr (w_advance n (self\<lparr>w_buffer := b\<rparr>))))"

definition copy_from_bitstream ::
  "nat \<Rightarrow> window \<times> bitstream \<Rightarrow> (decode_failed, unit) result \<times> window \<times> bitstream" where
  "copy_from_bitstream n st =
     (case st of (self, bs) \<Rightarrow>
        if n > length (w_buffer self) then (Inl WindowTooSmall, st)
        else
          let self = (if w_pos self + n > length (w_buffer self)
                      then let shift = w_pos self + n - length (w_buffer self)
                           in \<lparr>w_pos = w_pos self - shift,
                               w_buffer = copy_within shift (length (w_buffer self) - shift) 0 (w_buffer self)\<rparr>
                      else self)
          in case read_raw n bs of
               (Inl e, bs) \<Rightarrow> (Inl e, self, bs)
             | (Inr data, bs) \<Rightarrow>
                 (Inr (), w_advance n (self\<lparr>w_buffer := take (w_pos self) (w_buffer self) @ data @
                                                        drop (w_pos self + n) (w_buffer self)\<rparr>), bs))"

text \<open>The view of the newest \<open>len\<close> bytes is made contiguous by turning the ring.\<close>

definition shift_for_view :: "nat \<Rightarrow> window \<Rightarrow> window" where
  "shift_for_view len self =
     (if w_pos self \<noteq> 0 \<and> len > w_pos self
      then let shift = len - w_pos self; b = w_buffer self; n = length b - shift
           in (w_advance shift self)\<lparr>w_buffer := drop n b @ take n b\<rparr>
      else self)"

definition past_view :: "nat \<Rightarrow> window \<Rightarrow> (decode_failed, bytes) result \<times> window" where
  "past_view len self =
     (if len > max_chunk_size then (Inl ChunkTooLong, self)
      else
        let self = shift_for_view len self;
            pos = (if w_pos self = 0 then length (w_buffer self) else w_pos self)
        in if pos < len then (Inl Panicked, self)
           else (Inr (take len (drop (pos - len) (w_buffer self))), self))"

section \<open>The contents of the window\<close>

definition window_ok :: "nat \<Rightarrow> window \<Rightarrow> bool" where
  "window_ok k w \<longleftrightarrow> length (w_buffer w) = 2 ^ k \<and> w_pos w < 2 ^ k"

definition w_contents :: "window \<Rightarrow> bytes" where
  "w_contents w = rotate (w_pos w) (w_buffer w)"

text \<open>Writing a byte drops the oldest; a match writes the byte \<open>offset\<close> places back, again and again.\<close>

definition shift_in :: "bytes \<Rightarrow> bytes \<Rightarrow> bytes" where
  "shift_in h new = drop (length new) h @ new"

definition match_step :: "nat \<Rightarrow> bytes \<Rightarrow> bytes" where
  "match_step offset h = shift_in h [h ! ((length h - offset) mod length h)]"

definition lz_match :: "nat \<Rightarrow> nat \<Rightarrow> bytes \<Rightarrow> bytes" where
  "lz_match offset n h = (match_step offset ^^ n) h"

lemma length_shift_in [simp]: "length new \<le> length h \<Longrightarrow> length (shift_in h new) = length h"
  by (simp add: shift_in_def)

lemma length_match_step [simp]: "h \<noteq> [] \<Longrightarrow> length (match_step offset h) = length h"
  by (cases h) (simp_all add: match_step_def)

lemma length_lz_match [simp]: "h \<noteq> [] \<Longrightarrow> length (lz_match offset n h) = length h"
  unfolding lz_match_def by (induction n) (simp_all, metis length_match_step length_0_conv)

lemma length_w_contents: "window_ok k w \<Longrightarrow> length (w_contents w) = 2 ^ k"
  by (simp add: w_contents_def window_ok_def)

lemma window_size_power: "\<exists>k. window_value ws = 2 ^ k \<and> 15 \<le> k"
proof -
  let ?k = "(case ws of KB32 \<Rightarrow> 15 | KB64 \<Rightarrow> 16 | KB128 \<Rightarrow> 17 | KB256 \<Rightarrow> 18 | KB512 \<Rightarrow> 19 | MB1 \<Rightarrow> 20
      | MB2 \<Rightarrow> 21 | MB4 \<Rightarrow> 22 | MB8 \<Rightarrow> 23 | MB16 \<Rightarrow> 24 | MB32 \<Rightarrow> 25) :: nat"
  have "window_value ws = 2 ^ ?k \<and> 15 \<le> ?k" by (cases ws) simp_all
  then show ?thesis by blast
qed

lemma and_power_minus: "x AND (2 ^ k - 1) = x mod 2 ^ k" for x :: nat
  by (simp add: take_bit_eq_mask mask_eq_exp_minus_1 flip: take_bit_eq_mod)

lemma create_buffer_ok:
  obtains w k where "create_buffer ws = Inr w" "window_ok k w" "15 \<le> k" "window_value ws = 2 ^ k" "w_contents w = replicate (2 ^ k) 0"
proof -
  obtain k where k: "window_value ws = 2 ^ k" "15 \<le> k" using window_size_power by blast
  have "(2 :: nat) ^ 15 \<le> 2 ^ k" using k(2) by (intro power_increasing) simp_all
  moreover have "(2 :: nat) ^ k AND (2 ^ k - 1) = 0" by (simp only: and_power_minus mod_self)
  ultimately have "create_buffer ws = Inr \<lparr>w_pos = 0, w_buffer = replicate (2 ^ k) 0\<rparr>"
    using k(1) by (simp add: create_buffer_def max_chunk_size_def is_power_of_two_def)
  then show ?thesis using that k by (simp add: window_ok_def w_contents_def)
qed

section \<open>The operations on the contents\<close>

lemma ring_push:
  assumes "b \<noteq> []"
  shows "rotate (Suc p) (b[p mod length b := v]) = shift_in (rotate p b) [v]"
proof -
  let ?q = "p mod length b"
  have q: "?q < length b" using assms by simp
  have "rotate p b = b ! ?q # drop (Suc ?q) b @ take ?q b" using q by (simp add: rotate_drop_take Cons_nth_drop_Suc)
  moreover have "rotate p (b[?q := v]) = v # drop (Suc ?q) b @ take ?q b"
    using q Cons_nth_drop_Suc [of ?q "b[?q := v]"] by (simp add: rotate_drop_take)
  ultimately show ?thesis by (simp add: shift_in_def)
qed

lemma w_advance_pos: "window_ok k w \<Longrightarrow> n \<le> 2 ^ k \<Longrightarrow> w_pos (w_advance n w) = (w_pos w + n) mod 2 ^ k"
  by (auto simp: w_advance_def window_ok_def Let_def mod_if)

lemma w_advance_buffer [simp]: "w_buffer (w_advance n w) = w_buffer w"
  by (simp add: w_advance_def Let_def)

lemma w_advance_ok: "window_ok k w \<Longrightarrow> n \<le> 2 ^ k \<Longrightarrow> window_ok k (w_advance n w)"
  using w_advance_pos [of k w n] by (simp add: window_ok_def)

lemma contents_advance:
  "window_ok k w \<Longrightarrow> n \<le> 2 ^ k \<Longrightarrow> w_contents (w_advance n w) = rotate (w_pos w + n) (w_buffer w)"
  using w_advance_pos [of k w n] rotate_conv_mod [of "w_pos w + n" "w_buffer w"] by (simp add: w_contents_def window_ok_def)

lemma w_push_contents:
  assumes "window_ok k w"
  obtains w' where "w_push v w = Inr w'" "window_ok k w'" "w_contents w' = shift_in (w_contents w) [v]"
proof
  let ?w = "w\<lparr>w_buffer := (w_buffer w)[w_pos w := v]\<rparr>"
  have ok: "window_ok k ?w" "w_buffer w \<noteq> []" "w_pos w < length (w_buffer w)" using assms by (auto simp: window_ok_def)
  show "w_push v w = Inr (w_advance 1 ?w)" using ok(3) by (simp add: w_push_def)
  show "window_ok k (w_advance 1 ?w)" by (rule w_advance_ok [OF ok(1)]) simp
  show "w_contents (w_advance 1 ?w) = shift_in (w_contents w) [v]"
    using contents_advance [OF ok(1), of 1] ring_push [OF ok(2), of "w_pos w" v] ok(3) by (simp add: w_contents_def)
qed

text \<open>The loop of a match, one byte at a time.\<close>

lemma copy_loop_ring:
  assumes "length b = 2 ^ k" "offset \<le> 2 ^ k"
  shows "\<exists>b'. copy_loop (2 ^ k - 1) pos offset [i ..< i + n] b = Inr b' \<and> length b' = 2 ^ k \<and>
           rotate (pos + i + n) b' = lz_match offset n (rotate (pos + i) b)"
  using assms(1)
proof (induction n arbitrary: i b)
  case 0
  then show ?case by (simp add: lz_match_def)
next
  case (Suc n)
  let ?N = "2 ^ k :: nat"
  let ?dst = "(pos + i) mod ?N" and ?src = "(?N + pos + i - offset) mod ?N"
  let ?b = "b[?dst := b ! ?src]"
  have ne: "b \<noteq> []" using Suc.prems by auto
  have step: "copy_loop (?N - 1) pos offset [i ..< i + Suc n] b = copy_loop (?N - 1) pos offset [Suc i ..< Suc i + n] ?b"
  proof -
    have "[i ..< i + Suc n] = i # [Suc i ..< Suc i + n]" by (simp add: upt_conv_Cons del: upt_Suc)
    then show ?thesis using Suc.prems assms(2) by (simp add: Let_def and_power_minus [unfolded One_nat_def] del: upt_Suc)
  qed
  have "(pos + i + (?N - offset) mod ?N) mod ?N = (pos + i + (?N - offset)) mod ?N" by (rule mod_add_right_eq)
  also have "pos + i + (?N - offset) = ?N + pos + i - offset" using assms(2) by simp
  finally have "(pos + i + (?N - offset) mod ?N) mod ?N = ?src" .
  then have "rotate (pos + i) b ! ((?N - offset) mod ?N) = b ! ?src"
    using nth_rotate [of "(?N - offset) mod ?N" b "pos + i"] Suc.prems by simp
  then have "rotate (Suc (pos + i)) ?b = match_step offset (rotate (pos + i) b)"
    using ring_push [OF ne, of "pos + i" "b ! ?src"] Suc.prems by (simp add: match_step_def)
  then show ?case using Suc.IH [of ?b "Suc i"] Suc.prems step
    by (simp add: lz_match_def funpow_swap1 del: upt_Suc)
qed

text \<open>The block copy of the fast path writes the same bytes.\<close>

lemma lz_match_disjoint:
  assumes "n \<le> offset" "offset \<le> length h" "h \<noteq> []"
  shows "lz_match offset n h = shift_in h (take n (drop (length h - offset) h))"
  using assms(1)
proof (induction n)
  case 0
  then show ?case by (simp add: lz_match_def shift_in_def)
next
  case (Suc n)
  let ?d = "length h - offset"
  have m: "min (length h - ?d) n = n" "?d + n < length h" "0 < offset" "?d < length h - n" using Suc.prems assms(2,3) by auto
  then have "lz_match offset n h = drop n h @ take n (drop ?d h)" using Suc by (simp add: shift_in_def)
  moreover have "(drop n h @ take n (drop ?d h)) ! ?d = h ! (n + ?d)" using m Suc.prems by (simp add: nth_append)
  moreover have "?d mod length h = ?d" using m assms(3) by simp
  ultimately have "lz_match offset (Suc n) h = drop 1 (drop n h @ take n (drop ?d h)) @ [h ! (n + ?d)]"
    using m assms by (simp add: lz_match_def match_step_def shift_in_def)
  also have "\<dots> = drop (Suc n) h @ take n (drop ?d h) @ [h ! (n + ?d)]" using m by simp
  also have "take n (drop ?d h) @ [h ! (n + ?d)] = take (Suc n) (drop ?d h)"
    using m(2) by (simp add: take_Suc_conv_app_nth add.commute)
  finally show ?case using m Suc.prems assms(2) by (simp add: shift_in_def min_absorb2)
qed

lemma drop_contents: "window_ok k w \<Longrightarrow> w_contents w = drop (w_pos w) (w_buffer w) @ take (w_pos w) (w_buffer w)"
  by (simp add: w_contents_def window_ok_def rotate_drop_take)

text \<open>Overwriting a range of the ring that does not wrap around.\<close>

lemma overwrite_contents:
  assumes ok: "window_ok k w" and fits: "w_pos w + length new \<le> 2 ^ k"
    and w': "w' = w\<lparr>w_buffer := take (w_pos w) (w_buffer w) @ new @ drop (w_pos w + length new) (w_buffer w)\<rparr>"
  shows "window_ok k w'" "window_ok k (w_advance (length new) w')"
    "w_contents (w_advance (length new) w') = shift_in (w_contents w) new"
proof -
  let ?b = "w_buffer w" and ?p = "w_pos w"
  show ok': "window_ok k w'" using ok fits by (simp add: w' window_ok_def)
  show "window_ok k (w_advance (length new) w')" by (rule w_advance_ok [OF ok']) (use fits in simp)
  have "w_contents (w_advance (length new) w') = rotate (?p + length new) (w_buffer w')"
    using contents_advance [OF ok', of "length new"] fits by (simp add: w')
  also have "\<dots> = drop (?p + length new) ?b @ take ?p ?b @ new"
  proof (cases "?p + length new = 2 ^ k")
    case True
    then show ?thesis using ok by (simp add: w' window_ok_def rotate_drop_take)
  next
    case False
    then have "?p + length new < 2 ^ k" using fits by simp
    then show ?thesis using ok by (simp add: w' window_ok_def rotate_drop_take)
  qed
  also have "\<dots> = shift_in (w_contents w) new"
    using ok fits unfolding drop_contents [OF ok] by (simp add: shift_in_def window_ok_def add.commute)
  finally show "w_contents (w_advance (length new) w') = shift_in (w_contents w) new" .
qed

lemma copy_from_self_contents:
  assumes ok: "window_ok k w" and off: "offset \<le> 2 ^ k" and n: "n \<le> 2 ^ k"
  obtains w' where "copy_from_self offset n w = Inr w'" "window_ok k w'" "w_contents w' = lz_match offset n (w_contents w)"
proof (cases "offset \<le> w_pos w \<and> n \<le> offset \<and> w_pos w + n < length (w_buffer w)")
  case True
  let ?b = "w_buffer w" and ?p = "w_pos w"
  let ?new = "take n (drop (?p - offset) ?b)"
  have len: "length ?b = 2 ^ k" "?p < 2 ^ k" using ok by (simp_all add: window_ok_def)
  have new: "length ?new = n" using True len by (auto simp: min_def)
  let ?w = "w\<lparr>w_buffer := copy_within (?p - offset) n ?p ?b\<rparr>"
  have "w_contents w \<noteq> []" using length_w_contents [OF ok] by auto
  then have "lz_match offset n (w_contents w) = shift_in (w_contents w) (take n (drop (2 ^ k - offset) (w_contents w)))"
    using lz_match_disjoint [of n offset "w_contents w"] True off length_w_contents [OF ok] by simp
  also have "take n (drop (2 ^ k - offset) (w_contents w)) = ?new"
    using True len unfolding drop_contents [OF ok] by (auto simp: drop_take min_def)
  finally have "w_contents (w_advance n ?w) = lz_match offset n (w_contents w)" "window_ok k (w_advance n ?w)"
    using overwrite_contents(2,3) [OF ok, of ?new ?w] new True len by (simp_all add: copy_within_def)
  then show ?thesis using that True by (simp add: copy_from_self_def Let_def)
next
  case False
  let ?b = "w_buffer w" and ?p = "w_pos w"
  have len: "length ?b = 2 ^ k" "?p < 2 ^ k" using ok by (simp_all add: window_ok_def)
  obtain b' where b: "copy_loop (2 ^ k - 1) ?p offset [0 ..< n] ?b = Inr b'" "length b' = 2 ^ k"
      "rotate (?p + n) b' = lz_match offset n (w_contents w)"
    using copy_loop_ring [OF len(1) off, of ?p 0 n] by (auto simp: w_contents_def)
  let ?w = "w\<lparr>w_buffer := b'\<rparr>"
  have ok': "window_ok k ?w" using b(2) len by (simp add: window_ok_def)
  have "copy_from_self offset n w = Inr (w_advance n ?w)" using b(1) len(1)
    unfolding copy_from_self_def Let_def if_not_P [OF False] by simp
  then show ?thesis using that w_advance_ok [OF ok' n] contents_advance [OF ok' n] b(3) by simp
qed

lemma copy_from_bitstream_contents:
  assumes ok: "window_ok k w" and n: "n \<le> 2 ^ k" "n \<le> length (bs_buffer bs)"
  obtains w' where "copy_from_bitstream n (w, bs) = (Inr (), w', bs\<lparr>bs_buffer := drop n (bs_buffer bs)\<rparr>)"
    "window_ok k w'" "w_contents w' = shift_in (w_contents w) (take n (bs_buffer bs))"
proof (cases "w_pos w + n > 2 ^ k")
  case True
  let ?b = "w_buffer w" and ?p = "w_pos w" and ?new = "take n (bs_buffer bs)"
  let ?s = "?p + n - 2 ^ k"
  have len: "length ?b = 2 ^ k" "?p < 2 ^ k" "?s \<le> ?p" "length ?new = n" using ok n by (auto simp: window_ok_def)
  let ?w = "\<lparr>w_pos = ?p - ?s, w_buffer = copy_within ?s (2 ^ k - ?s) 0 ?b\<rparr>"
  have w: "window_ok k ?w" "?p - ?s + n = 2 ^ k" using len True n(1) by (auto simp: window_ok_def copy_within_def)
  let ?w' = "?w\<lparr>w_buffer := take (?p - ?s) (w_buffer ?w) @ ?new @ drop (?p - ?s + n) (w_buffer ?w)\<rparr>"
  have "w_buffer ?w' = take (?p - ?s) (drop ?s ?b) @ ?new"
    using len w(2) n(1) by (simp add: copy_within_def)
  moreover have "w_contents (w_advance n ?w') = w_buffer ?w'" "window_ok k (w_advance n ?w')"
  proof -
    have ok': "window_ok k ?w'" using w len by (simp add: window_ok_def copy_within_def)
    show "w_contents (w_advance n ?w') = w_buffer ?w'"
      using contents_advance [OF ok' n(1)] w(2) ok' by (simp add: window_ok_def rotate_drop_take)
    show "window_ok k (w_advance n ?w')" by (rule w_advance_ok [OF ok' n(1)])
  qed
  moreover have "shift_in (w_contents w) ?new = take (?p - ?s) (drop ?s ?b) @ ?new"
    unfolding drop_contents [OF ok] using len True by (simp add: shift_in_def drop_take add.commute)
  moreover have "copy_from_bitstream n (w, bs) = (Inr (), w_advance n ?w', bs\<lparr>bs_buffer := drop n (bs_buffer bs)\<rparr>)"
    using True n len(1) by (simp add: copy_from_bitstream_def read_raw_def Let_def)
  ultimately show ?thesis using that by simp
next
  case False
  let ?new = "take n (bs_buffer bs)"
  have "length ?new = n" "length (w_buffer w) = 2 ^ k" using n(2) ok by (simp_all add: window_ok_def)
  then show ?thesis using that overwrite_contents [OF ok, of ?new] False n
    by (simp add: copy_from_bitstream_def read_raw_def Let_def)
qed

lemma shift_for_view_contents:
  assumes ok: "window_ok k w" and n: "n \<le> 2 ^ k"
  shows "window_ok k (shift_for_view n w)" "w_contents (shift_for_view n w) = w_contents w"
    "w_pos (shift_for_view n w) = 0 \<or> n \<le> w_pos (shift_for_view n w)"
proof (atomize (full), cases "w_pos w \<noteq> 0 \<and> n > w_pos w")
  case True
  let ?b = "w_buffer w" and ?p = "w_pos w" and ?s = "n - w_pos w"
  have len: "length ?b = 2 ^ k" "?p < 2 ^ k" using ok by (simp_all add: window_ok_def)
  let ?w = "shift_for_view n w"
  have s: "?s \<le> 2 ^ k" "?s < 2 ^ k" "?p + ?s = n" using True len n by auto
  have w: "?w = (w_advance ?s w)\<lparr>w_buffer := rotate (2 ^ k - ?s) ?b\<rparr>"
  proof -
    have "(2 ^ k - ?s) mod 2 ^ k = 2 ^ k - ?s" by (rule mod_less, rule diff_less) (use True in auto)
    then have "rotate (2 ^ k - ?s) ?b = drop (2 ^ k - ?s) ?b @ take (2 ^ k - ?s) ?b" unfolding rotate_drop_take len(1) by simp
    then show ?thesis unfolding shift_for_view_def Let_def if_P [OF True] len(1) by simp
  qed
  have pos: "w_pos ?w = n mod 2 ^ k" using w_advance_pos [OF ok s(1)] s(3) by (simp add: w)
  have "w_contents ?w = rotate n (rotate (2 ^ k - ?s) ?b)"
    using pos len(1) rotate_conv_mod [of n "rotate (2 ^ k - ?s) ?b"] by (simp add: w_contents_def w)
  also have "\<dots> = rotate (?p + length ?b) ?b" using s len(1) by (simp add: rotate_rotate add.commute)
  also have "\<dots> = w_contents w" using rotate_conv_mod [of "?p + length ?b" ?b] len by (simp add: w_contents_def)
  finally have "w_contents ?w = w_contents w" .
  moreover have "w_pos ?w = 0 \<or> n \<le> w_pos ?w" using pos n by (cases "n = 2 ^ k") simp_all
  moreover have "window_ok k ?w" using pos len(1) by (simp add: window_ok_def w)
  ultimately show "window_ok k ?w \<and> w_contents ?w = w_contents w \<and> (w_pos ?w = 0 \<or> n \<le> w_pos ?w)" by blast
qed (use ok in \<open>auto simp: shift_for_view_def\<close>)

lemma past_view_contents:
  assumes ok: "window_ok k w" and n: "n \<le> max_chunk_size" "max_chunk_size \<le> 2 ^ k"
  obtains w' where "past_view n w = (Inr (drop (2 ^ k - n) (w_contents w)), w')" "window_ok k w'" "w_contents w' = w_contents w"
proof
  let ?w = "shift_for_view n w"
  have n': "n \<le> 2 ^ k" using n by simp
  note s = shift_for_view_contents [OF ok n']
  let ?q = "if w_pos ?w = 0 then 2 ^ k else w_pos ?w"
  have l: "length (w_buffer ?w) = 2 ^ k" "n \<le> ?q" using s(1,3) n' by (auto simp: window_ok_def)
  have "take n (drop (?q - n) (w_buffer ?w)) = drop (2 ^ k - n) (w_contents ?w)"
  proof (cases "w_pos ?w = 0")
    case True
    then show ?thesis using l unfolding drop_contents [OF s(1)] by simp
  next
    case False
    have "w_pos ?w < 2 ^ k" using s(1) by (simp add: window_ok_def)
    then have "2 ^ k - n - (2 ^ k - w_pos ?w) = w_pos ?w - n" "2 ^ k - w_pos ?w \<le> 2 ^ k - n" using False l(2) by auto
    then show ?thesis using False l unfolding drop_contents [OF s(1)] by (simp add: drop_take)
  qed
  then show "past_view n w = (Inr (drop (2 ^ k - n) (w_contents w)), ?w)"
    using l n(1) s(2) unfolding past_view_def Let_def l(1) by simp
qed (use shift_for_view_contents [OF ok, of n] n in simp_all)

section \<open>Writing tokens\<close>

text \<open>What the decoder writes: a literal byte, a match, or raw bytes.\<close>

datatype token = Literal u8 | Match nat nat | Raw bytes

fun expand :: "token \<Rightarrow> bytes \<Rightarrow> bytes" where
  "expand (Literal v) h = shift_in h [v]"
| "expand (Match offset n) h = lz_match offset n h"
| "expand (Raw data) h = shift_in h data"

fun token_length :: "token \<Rightarrow> nat" where
  "token_length (Literal v) = 1"
| "token_length (Match offset n) = n"
| "token_length (Raw data) = length data"

fun token_ok :: "nat \<Rightarrow> token \<Rightarrow> bool" where
  "token_ok cap (Literal v) \<longleftrightarrow> True"
| "token_ok cap (Match offset n) \<longleftrightarrow> offset \<le> cap \<and> n \<le> cap"
| "token_ok cap (Raw data) \<longleftrightarrow> length data \<le> cap"

text \<open>A window as the decoder uses it: an implementation whose three ways to write refine the history.\<close>

locale sliding_window =
  fixes cap :: nat and inv :: "'w \<Rightarrow> bool" and history :: "'w \<Rightarrow> bytes"
    and put :: "u8 \<Rightarrow> 'w \<Rightarrow> (decode_failed, 'w) result"
    and copy :: "nat \<Rightarrow> nat \<Rightarrow> 'w \<Rightarrow> (decode_failed, 'w) result"
    and load :: "nat \<Rightarrow> 'w \<times> bitstream \<Rightarrow> (decode_failed, unit) result \<times> 'w \<times> bitstream"
  assumes history_length: "inv w \<Longrightarrow> length (history w) = cap"
    and cap_pos: "0 < cap"
    and put_history: "inv w \<Longrightarrow> \<exists>w'. put v w = Inr w' \<and> inv w' \<and> history w' = shift_in (history w) [v]"
    and copy_history: "inv w \<Longrightarrow> offset \<le> cap \<Longrightarrow> n \<le> cap \<Longrightarrow>
      \<exists>w'. copy offset n w = Inr w' \<and> inv w' \<and> history w' = lz_match offset n (history w)"
    and load_history: "inv w \<Longrightarrow> n \<le> cap \<Longrightarrow> n \<le> length (bs_buffer bs) \<Longrightarrow>
      \<exists>w'. load n (w, bs) = (Inr (), w', bs\<lparr>bs_buffer := drop n (bs_buffer bs)\<rparr>) \<and> inv w' \<and>
           history w' = shift_in (history w) (take n (bs_buffer bs))"
begin

fun write_token :: "token \<Rightarrow> 'w \<Rightarrow> (decode_failed, 'w) result" where
  "write_token (Literal v) w = put v w"
| "write_token (Match offset n) w = copy offset n w"
| "write_token (Raw data) w =
     (case load (length data) (w, bitstream_new data) of (r, w', _) \<Rightarrow> and_then r (\<lambda>_. Inr w'))"

fun write_tokens :: "token list \<Rightarrow> 'w \<Rightarrow> (decode_failed, 'w) result" where
  "write_tokens [] w = Inr w"
| "write_tokens (t # ts) w = and_then (write_token t w) (write_tokens ts)"

lemma write_token_history:
  assumes "inv w" "token_ok cap t"
  shows "\<exists>w'. write_token t w = Inr w' \<and> inv w' \<and> history w' = expand t (history w)"
proof (cases t)
  case (Raw data)
  then show ?thesis using load_history [OF assms(1), of "length data" "bitstream_new data"] assms(2)
    by (auto simp: bitstream_new_def)
qed (use assms put_history copy_history in auto)

lemma write_tokens_history:
  assumes "inv w" "\<forall>t \<in> set ts. token_ok cap t"
  shows "\<exists>w'. write_tokens ts w = Inr w' \<and> inv w' \<and> history w' = fold expand ts (history w)"
  using assms
proof (induction ts arbitrary: w)
  case (Cons t ts)
  then obtain w' where w': "write_token t w = Inr w'" "inv w'" "history w' = expand t (history w)"
    using write_token_history [of w t] by auto
  then show ?case using Cons.IH [of w'] Cons.prems(2) by auto
qed auto

end

interpretation ring: sliding_window "2 ^ k" "window_ok k" w_contents w_push copy_from_self copy_from_bitstream for k
proof
  show "length (w_contents w) = 2 ^ k" if "window_ok k w" for w using that by (rule length_w_contents)
  show "\<exists>w'. w_push v w = Inr w' \<and> window_ok k w' \<and> w_contents w' = shift_in (w_contents w) [v]" if "window_ok k w" for v w
    using w_push_contents [OF that] by metis
  show "\<exists>w'. copy_from_self offset n w = Inr w' \<and> window_ok k w' \<and> w_contents w' = lz_match offset n (w_contents w)"
    if "window_ok k w" "offset \<le> 2 ^ k" "n \<le> 2 ^ k" for w offset n
    using copy_from_self_contents [OF that] by metis
  show "\<exists>w'. copy_from_bitstream n (w, bs) = (Inr (), w', bs\<lparr>bs_buffer := drop n (bs_buffer bs)\<rparr>) \<and> window_ok k w' \<and>
      w_contents w' = shift_in (w_contents w) (take n (bs_buffer bs))"
    if "window_ok k w" "n \<le> 2 ^ k" "n \<le> length (bs_buffer bs)" for w n bs
    using copy_from_bitstream_contents [OF that] by metis
qed simp

text \<open>Whatever the offset, a match keeps the window well formed, and it panics only when the offset exceeds
  the window.\<close>

lemma copy_loop_length: "copy_loop msk pos offset is b = Inr b' \<Longrightarrow> length b' = length b"
  by (induction "is" arbitrary: b) (auto simp: Let_def split: if_splits)

lemma copy_from_self_ok:
  assumes ok: "window_ok k w" and n: "n \<le> 2 ^ k"
  shows "copy_from_self offset n w = Inr w' \<Longrightarrow> window_ok k w'"
    and "copy_from_self offset n w = Inl e \<Longrightarrow> 2 ^ k < offset"
proof -
  have len: "length (w_buffer w) = 2 ^ k" "w_pos w < 2 ^ k" using ok by (simp_all add: window_ok_def)
  assume "copy_from_self offset n w = Inr w'"
  then obtain b where b: "w' = w_advance n (w\<lparr>w_buffer := b\<rparr>)" "length b = 2 ^ k"
    using len by (auto simp: copy_from_self_def Let_def copy_within_def result_simps dest: copy_loop_length split: if_splits)
  then show "window_ok k w'" using w_advance_ok [of k "w\<lparr>w_buffer := b\<rparr>" n] len n by (simp add: window_ok_def)
next
  assume "copy_from_self offset n w = Inl e"
  then show "2 ^ k < offset" using copy_from_self_contents [OF ok _ n, of offset] by (metis not_le sum.distinct(1))
qed

end
