(* ===== verification/Lzx_E8.thy ===== *)
theory Lzx_E8
  imports Lzx_Bits
begin

text \<open>
  The E8 filter of the LZX decoder (\<open>postprocess\<close> in \<open>crates/zmanager-wim/src/lzx.rs\<close>), which turns the
  absolute targets of x86 call instructions back into relative ones.  The loop is shown equal to a
  walk over the bytes, and to undo the translation of the encoder except for one value.
\<close>

section \<open>The filter\<close>

text \<open>\<open>i32::from_le_bytes\<close> and \<open>to_le_bytes\<close>; an \<open>i32\<close> is its 32 bits, read as signed by \<open>sint\<close>.\<close>

definition i32_of_le :: "bytes \<Rightarrow> u32" where
  "i32_of_le bs = ucast (bs ! 0) OR push_bit 8 (ucast (bs ! 1)) OR push_bit 16 (ucast (bs ! 2)) OR push_bit 24 (ucast (bs ! 3))"

definition i32_to_le :: "u32 \<Rightarrow> bytes" where
  "i32_to_le w = [ucast w, ucast (drop_bit 8 w), ucast (drop_bit 16 w), ucast (drop_bit 24 w)]"

definition e8_value :: "u32 \<Rightarrow> nat \<Rightarrow> u32 \<Rightarrow> u32" where
  "e8_value translation_size current_pointer abs_val =
     (if - sint (word_of_nat current_pointer :: u32) \<le> sint abs_val \<and> sint abs_val < sint translation_size
      then if 0 < sint abs_val then abs_val - word_of_nat current_pointer else abs_val + translation_size
      else abs_val)"

fun find_e8 :: "bytes \<Rightarrow> nat option" where
  "find_e8 [] = None"
| "find_e8 (b # bs) = (if b = 0xE8 then Some 0 else map_option Suc (find_e8 bs))"

function postprocess_loop :: "u32 \<Rightarrow> nat \<Rightarrow> nat \<Rightarrow> bytes \<Rightarrow> bytes" where
  "postprocess_loop translation_size chunk_offset processed idata =
     (case find_e8 (drop processed idata) of
        None \<Rightarrow> idata
      | Some p \<Rightarrow>
          let pos = processed + p in
          if length idata - pos \<le> 10 then idata
          else
            let target = i32_to_le (e8_value translation_size (chunk_offset + pos) (i32_of_le (take 4 (drop (pos + 1) idata))))
            in postprocess_loop translation_size chunk_offset (pos + 5) (take (pos + 1) idata @ target @ drop (pos + 5) idata))"
  by pat_completeness auto
termination
  by (relation "measure (\<lambda>(ts, off, processed, idata). length idata - processed)") (auto simp: i32_to_le_def)

declare postprocess_loop.simps [simp del]

definition postprocess :: "u32 \<Rightarrow> nat \<Rightarrow> bytes \<Rightarrow> bytes" where
  "postprocess translation_size chunk_offset idata = postprocess_loop translation_size chunk_offset 0 idata"

section \<open>The filter as a walk\<close>

fun e8_walk :: "(nat \<Rightarrow> u32 \<Rightarrow> u32) \<Rightarrow> nat \<Rightarrow> bytes \<Rightarrow> bytes" where
  "e8_walk f i [] = []"
| "e8_walk f i (b # bs) =
     (if length bs < 10 then b # bs
      else if b = 0xE8 then b # i32_to_le (f i (i32_of_le (take 4 bs))) @ e8_walk f (i + 5) (drop 4 bs)
      else b # e8_walk f (i + 1) bs)"

text \<open>The call targets that the walk meets, with their positions.\<close>

fun e8_targets :: "nat \<Rightarrow> bytes \<Rightarrow> (nat \<times> u32) list" where
  "e8_targets i [] = []"
| "e8_targets i (b # bs) =
     (if length bs < 10 then []
      else if b = 0xE8 then (i, i32_of_le (take 4 bs)) # e8_targets (i + 5) (drop 4 bs)
      else e8_targets (i + 1) bs)"

lemma length_i32_to_le [simp]: "length (i32_to_le w) = 4"
  by (simp add: i32_to_le_def)

lemma find_e8_None: "find_e8 bs = None \<longleftrightarrow> 0xE8 \<notin> set bs"
  by (induction bs) auto

lemma find_e8_Some: "find_e8 bs = Some p \<Longrightarrow> p < length bs \<and> bs ! p = 0xE8 \<and> 0xE8 \<notin> set (take p bs)"
  by (induction bs arbitrary: p) (auto split: if_splits)

lemma e8_walk_short: "length bs \<le> 10 \<Longrightarrow> e8_walk f i bs = bs"
  by (cases bs) simp_all

lemma e8_walk_skip: "0xE8 \<notin> set pre \<Longrightarrow> e8_walk f i (pre @ ys) = pre @ e8_walk f (i + length pre) ys"
  by (induction pre arbitrary: i) (auto simp: e8_walk_short)

lemma postprocess_loop_walk:
  "processed \<le> length idata \<Longrightarrow>
     postprocess_loop ts off processed idata = take processed idata @ e8_walk (e8_value ts) (off + processed) (drop processed idata)"
proof (induction ts off processed idata rule: postprocess_loop.induct)
  case (1 ts off processed idata)
  let ?d = "drop processed idata"
  show ?case
  proof (cases "find_e8 ?d")
    case None
    then have "e8_walk (e8_value ts) (off + processed) ?d = ?d"
      using e8_walk_skip [of ?d _ _ "[]"] by (simp add: find_e8_None)
    then show ?thesis using None by (subst postprocess_loop.simps) simp
  next
    case (Some p)
    let ?pos = "processed + p"
    have p: "p < length ?d" "idata ! ?pos = 0xE8" "0xE8 \<notin> set (take p ?d)" using find_e8_Some [OF Some] 1(2) by auto
    have d: "?d = take p ?d @ 0xE8 # drop (?pos + 1) idata"
      using p id_take_nth_drop [of p ?d] by (simp add: add.commute)
    have walk: "e8_walk (e8_value ts) (off + processed) ?d =
        take p ?d @ e8_walk (e8_value ts) (off + ?pos) (0xE8 # drop (?pos + 1) idata)"
      by (subst d, subst e8_walk_skip [OF p(3)]) (use p in \<open>simp add: min_absorb2 add.assoc\<close>)
    show ?thesis
    proof (cases "length idata - ?pos \<le> 10")
      case True
      then have "e8_walk (e8_value ts) (off + ?pos) (0xE8 # drop (?pos + 1) idata) = 0xE8 # drop (?pos + 1) idata"
        using p(1) by (intro e8_walk_short) simp
      then show ?thesis using Some True walk d by (subst postprocess_loop.simps) simp
    next
      case False
      let ?t = "i32_to_le (e8_value ts (off + ?pos) (i32_of_le (take 4 (drop (?pos + 1) idata))))"
      let ?i = "take (?pos + 1) idata @ ?t @ drop (?pos + 5) idata"
      have "postprocess_loop ts off processed idata = postprocess_loop ts off (?pos + 5) ?i"
        using Some False by (subst postprocess_loop.simps) (simp add: Let_def)
      also have "\<dots> = take (?pos + 5) ?i @ e8_walk (e8_value ts) (off + (?pos + 5)) (drop (?pos + 5) ?i)"
        using 1(1) [OF Some refl False refl] False by simp
      also have "take (?pos + 5) ?i = take processed idata @ take p ?d @ 0xE8 # ?t"
        using False p by (simp add: take_add take_Suc_conv_app_nth)
      also have "drop (?pos + 5) ?i = drop (?pos + 5) idata" using False by simp
      finally show ?thesis unfolding walk using False by (simp add: add.commute add.left_commute)
    qed
  qed
qed

section \<open>The encoder's translation\<close>

lemma i32_of_to_le [simp]: "i32_of_le (i32_to_le w) = w"
proof (rule bit_word_eqI)
  fix n assume "n < LENGTH(32)"
  then consider "n < 8" | "8 \<le> n" "n < 16" | "16 \<le> n" "n < 24" | "24 \<le> n" "n < 32" by fastforce
  then show "bit (i32_of_le (i32_to_le w)) n = bit w n"
    by cases (auto simp: i32_of_le_def i32_to_le_def bit_or_iff bit_push_bit_iff bit_ucast_iff bit_drop_bit_eq)
qed

lemma i32_to_of_le:
  assumes "length bs = 4"
  shows "i32_to_le (i32_of_le bs) = bs"
proof -
  obtain a b c d where bs: "bs = [a, b, c, d]" using assms by (auto simp: length_Suc_conv eval_nat_numeral)
  have "ucast (i32_of_le bs) = a" "ucast (drop_bit 8 (i32_of_le bs)) = b" "ucast (drop_bit 16 (i32_of_le bs)) = c"
      "ucast (drop_bit 24 (i32_of_le bs)) = d"
    by (rule bit_word_eqI;
        auto simp: bs i32_of_le_def bit_or_iff bit_push_bit_iff bit_ucast_iff bit_drop_bit_eq dest: bit_imp_le_length; fail)+
  then show ?thesis by (simp add: i32_to_le_def bs)
qed

lemma length_e8_walk [simp]: "length (e8_walk f i bs) = length bs"
  by (induction f i bs rule: e8_walk.induct) auto

lemma e8_walk_walk: "e8_walk f i (e8_walk g i bs) = e8_walk (\<lambda>p v. f p (g p v)) i bs"
  by (induction g i bs rule: e8_walk.induct) auto

lemma e8_walk_id_iff: "e8_walk f i bs = bs \<longleftrightarrow> (\<forall>(p, v) \<in> set (e8_targets i bs). f p v = v)"
proof (induction f i bs rule: e8_walk.induct)
  case (2 f i b bs)
  show ?case
  proof (cases "length bs < 10 \<or> b \<noteq> 0xE8")
    case False
    let ?v = "i32_of_le (take 4 bs)"
    have t: "length (take 4 bs) = 4" using False by simp
    have "e8_walk f i (b # bs) = b # bs \<longleftrightarrow> i32_to_le (f i ?v) @ e8_walk f (i + 5) (drop 4 bs) = take 4 bs @ drop 4 bs"
      using False by simp
    also have "\<dots> \<longleftrightarrow> i32_to_le (f i ?v) = take 4 bs \<and> e8_walk f (i + 5) (drop 4 bs) = drop 4 bs"
      using t by (intro append_eq_append_conv) simp
    also have "i32_to_le (f i ?v) = take 4 bs \<longleftrightarrow> f i ?v = ?v" using i32_to_of_le [OF t] i32_of_to_le by metis
    finally show ?thesis using 2 False by simp
  qed (use 2 in auto)
qed simp

text \<open>The translation of the format's specification: a relative target inside the file becomes absolute.\<close>

definition e8_encode :: "u32 \<Rightarrow> nat \<Rightarrow> u32 \<Rightarrow> u32" where
  "e8_encode translation_size p v =
     (if - int p \<le> sint v \<and> sint v < sint translation_size
      then if sint v + int p < sint translation_size then v + word_of_nat p else v - translation_size
      else v)"

lemma sint_of_small: "- (2 ^ 31) \<le> x \<Longrightarrow> x < 2 ^ 31 \<Longrightarrow> sint (word_of_int x :: u32) = x"
  by (simp add: sint_sbintrunc' signed_take_bit_int_eq_self)

lemma sint_bounds: "- (2 ^ 31) \<le> sint w \<and> sint w < 2 ^ 31" for w :: u32
  using sint_ge [of w] sint_lt [of w] by simp

lemma e8_value_encode_iff:
  assumes ts: "0 < sint ts" and p: "p < 2 ^ 31"
  shows "e8_value ts p (e8_encode ts p v) = v \<longleftrightarrow> sint v \<noteq> - int p"
proof -
  have sp: "sint (word_of_nat p :: u32) = int p" using sint_of_small [of "int p"] p by simp
  note b = sint_bounds [of v] sint_bounds [of ts]
  consider (out) "\<not> (- int p \<le> sint v \<and> sint v < sint ts)"
    | (add) "- int p \<le> sint v" "sint v < sint ts" "sint v + int p < sint ts"
    | (sub) "- int p \<le> sint v" "sint v < sint ts" "sint ts \<le> sint v + int p" by linarith
  then show ?thesis
  proof cases
    case out
    then have "e8_encode ts p v = v" "e8_value ts p v = v" by (auto simp: e8_encode_def e8_value_def sp)
    then show ?thesis using out ts by auto
  next
    case add
    have e: "sint (v + word_of_nat p) = sint v + int p"
    proof -
      have "v + word_of_nat p = word_of_int (sint v + int p)" by simp
      then show ?thesis using sint_of_small [of "sint v + int p"] add b by simp
    qed
    have "v + word_of_nat p + ts \<noteq> v" if "sint v = - int p"
    proof -
      have "(word_of_int (sint (v + word_of_nat p)) :: u32) = word_of_int 0" unfolding e that by simp
      then have "v + word_of_nat p = 0" by simp
      then show ?thesis using add(2) by auto
    qed
    then show ?thesis using add e ts sp by (auto simp: e8_encode_def e8_value_def)
  next
    case sub
    have "sint (v - ts) = sint v - sint ts"
    proof -
      have "v - ts = word_of_int (sint v - sint ts)" by simp
      then show ?thesis using sint_of_small [of "sint v - sint ts"] sub b p ts by simp
    qed
    then show ?thesis using sub ts sp by (auto simp: e8_encode_def e8_value_def)
  qed
qed

lemma e8_targets_bound: "(p, v) \<in> set (e8_targets i bs) \<Longrightarrow> p < i + length bs"
  by (induction i bs rule: e8_targets.induct) (auto split: if_splits)

lemma postprocess_encode_iff:
  assumes ts: "0 < sint translation_size" and p: "chunk_offset + length idata \<le> 2 ^ 31"
  shows "postprocess translation_size chunk_offset (e8_walk (e8_encode translation_size) chunk_offset idata) = idata \<longleftrightarrow>
         (\<forall>(p, v) \<in> set (e8_targets chunk_offset idata). sint v \<noteq> - int p)"
proof -
  have "postprocess translation_size chunk_offset (e8_walk (e8_encode translation_size) chunk_offset idata) =
      e8_walk (\<lambda>p v. e8_value translation_size p (e8_encode translation_size p v)) chunk_offset idata"
    by (simp add: postprocess_def postprocess_loop_walk e8_walk_walk)
  then have "?thesis \<longleftrightarrow>
      (\<forall>(p, v) \<in> set (e8_targets chunk_offset idata). e8_value translation_size p (e8_encode translation_size p v) = v) =
      (\<forall>(p, v) \<in> set (e8_targets chunk_offset idata). sint v \<noteq> - int p)"
    by (simp add: e8_walk_id_iff)
  moreover have "e8_value translation_size q (e8_encode translation_size q v) = v \<longleftrightarrow> sint v \<noteq> - int q"
    if "(q, v) \<in> set (e8_targets chunk_offset idata)" for q v
    using e8_targets_bound [OF that] p by (intro e8_value_encode_iff [OF ts]) simp
  ultimately show ?thesis by fastforce
qed

text \<open>C27. On a chunk that an encoder has translated by the rule of the format's specification, the filter
  gives the original bytes back exactly when no call in it has the target \<open>- p\<close> at its own position
  \<open>p\<close>, that is, the absolute target zero, which the filter takes for a negative one.\<close>

theorem e8_filter_inverts_encoder:
  assumes ts: "0 < sint translation_size" and p: "chunk_offset + length idata \<le> 2 ^ 31"
  shows "postprocess translation_size chunk_offset (e8_walk (e8_encode translation_size) chunk_offset idata) = idata \<longleftrightarrow>
         (\<forall>(p, v) \<in> set (e8_targets chunk_offset idata). sint v \<noteq> - int p)"
  by (rule postprocess_encode_iff [OF assms])

lemma e8_filter_inverts_encoder_witness:
  "postprocess 12000000 0 (e8_walk (e8_encode 12000000) 0 ([0xE8, 5] @ replicate 10 0)) = [0xE8, 5] @ replicate 10 0 \<and>
   postprocess 12000000 0 (e8_walk (e8_encode 12000000) 0 ([0xE8, 0] @ replicate 10 0)) \<noteq> [0xE8, 0] @ replicate 10 0"
proof -
  have ts: "0 < sint (12000000 :: u32)" by code_simp
  have a: "\<forall>(p, v) \<in> set (e8_targets 0 ([0xE8, 5] @ replicate 10 0)). sint v \<noteq> - int p" by code_simp
  have b: "\<not> (\<forall>(p, v) \<in> set (e8_targets 0 ([0xE8, 0] @ replicate 10 0)). sint v \<noteq> - int p)" by code_simp
  show ?thesis
    using e8_filter_inverts_encoder [OF ts, of 0 "[0xE8, 5] @ replicate 10 0"]
      e8_filter_inverts_encoder [OF ts, of 0 "[0xE8, 0] @ replicate 10 0"] a b by (simp del: replicate.simps)
qed

end
