(* ===== verification/Lzx_Decoder.thy ===== *)
theory Lzx_Decoder
  imports Lzx_Tree Lzx_Window Lzx_E8
begin

text \<open>
  The LZX decoder (\<open>crates/zmanager-wim/src/lzx.rs\<close> and \<open>lzx/block.rs\<close>): block headers, the decoding
  of literals and matches and the decompression loop, in both dialects (CAB and WIM).  The decoder is
  shown to return on every chunk, to write what its tokens mean, to keep its offsets inside the
  window, and to stay well formed.
\<close>

section \<open>The slot tables\<close>

definition footer_bits :: "nat list" where
  "footer_bits =
    [0, 0, 0, 0, 1, 1, 2, 2, 3, 3, 4, 4, 5, 5, 6, 6, 7, 7, 8, 8, 9, 9, 10, 10, 11, 11, 12, 12, 13, 13, 14, 14,
     15, 15, 16, 16, 17, 17, 17, 17, 17, 17, 17, 17, 17, 17, 17, 17, 17, 17, 17, 17, 17, 17, 17, 17, 17, 17,
     17, 17, 17, 17, 17, 17, 17, 17, 17, 17, 17, 17, 17, 17, 17, 17, 17, 17, 17, 17, 17, 17, 17, 17, 17, 17,
     17, 17, 17, 17, 17, 17, 17, 17, 17, 17, 17, 17, 17, 17, 17, 17, 17, 17, 17, 17, 17, 17, 17, 17, 17, 17,
     17, 17, 17, 17, 17, 17, 17, 17, 17, 17, 17, 17, 17, 17, 17, 17, 17, 17, 17, 17, 17, 17, 17, 17, 17, 17,
     17, 17, 17, 17, 17, 17, 17, 17, 17, 17, 17, 17, 17, 17, 17, 17, 17, 17, 17, 17, 17, 17, 17, 17, 17, 17,
     17, 17, 17, 17, 17, 17, 17, 17, 17, 17, 17, 17, 17, 17, 17, 17, 17, 17, 17, 17, 17, 17, 17, 17, 17, 17,
     17, 17, 17, 17, 17, 17, 17, 17, 17, 17, 17, 17, 17, 17, 17, 17, 17, 17, 17, 17, 17, 17, 17, 17, 17, 17,
     17, 17, 17, 17, 17, 17, 17, 17, 17, 17, 17, 17, 17, 17, 17, 17, 17, 17, 17, 17, 17, 17, 17, 17, 17, 17,
     17, 17, 17, 17, 17, 17, 17, 17, 17, 17, 17, 17, 17, 17, 17, 17, 17, 17, 17, 17, 17, 17, 17, 17, 17, 17,
     17, 17, 17, 17, 17, 17, 17, 17, 17, 17, 17, 17, 17, 17, 17, 17, 17, 17, 17, 17, 17, 17, 17, 17]"

definition base_position :: "nat list" where
  "base_position =
    [0, 1, 2, 3, 4, 6, 8, 12, 16, 24, 32, 48, 64, 96, 128, 192, 256, 384, 512, 768, 1024, 1536, 2048, 3072,
     4096, 6144, 8192, 12288, 16384, 24576, 32768, 49152, 65536, 98304, 131072, 196608, 262144, 393216,
     524288, 655360, 786432, 917504, 1048576, 1179648, 1310720, 1441792, 1572864, 1703936, 1835008, 1966080,
     2097152, 2228224, 2359296, 2490368, 2621440, 2752512, 2883584, 3014656, 3145728, 3276800, 3407872,
     3538944, 3670016, 3801088, 3932160, 4063232, 4194304, 4325376, 4456448, 4587520, 4718592, 4849664,
     4980736, 5111808, 5242880, 5373952, 5505024, 5636096, 5767168, 5898240, 6029312, 6160384, 6291456,
     6422528, 6553600, 6684672, 6815744, 6946816, 7077888, 7208960, 7340032, 7471104, 7602176, 7733248,
     7864320, 7995392, 8126464, 8257536, 8388608, 8519680, 8650752, 8781824, 8912896, 9043968, 9175040,
     9306112, 9437184, 9568256, 9699328, 9830400, 9961472, 10092544, 10223616, 10354688, 10485760, 10616832,
     10747904, 10878976, 11010048, 11141120, 11272192, 11403264, 11534336, 11665408, 11796480, 11927552,
     12058624, 12189696, 12320768, 12451840, 12582912, 12713984, 12845056, 12976128, 13107200, 13238272,
     13369344, 13500416, 13631488, 13762560, 13893632, 14024704, 14155776, 14286848, 14417920, 14548992,
     14680064, 14811136, 14942208, 15073280, 15204352, 15335424, 15466496, 15597568, 15728640, 15859712,
     15990784, 16121856, 16252928, 16384000, 16515072, 16646144, 16777216, 16908288, 17039360, 17170432,
     17301504, 17432576, 17563648, 17694720, 17825792, 17956864, 18087936, 18219008, 18350080, 18481152,
     18612224, 18743296, 18874368, 19005440, 19136512, 19267584, 19398656, 19529728, 19660800, 19791872,
     19922944, 20054016, 20185088, 20316160, 20447232, 20578304, 20709376, 20840448, 20971520, 21102592,
     21233664, 21364736, 21495808, 21626880, 21757952, 21889024, 22020096, 22151168, 22282240, 22413312,
     22544384, 22675456, 22806528, 22937600, 23068672, 23199744, 23330816, 23461888, 23592960, 23724032,
     23855104, 23986176, 24117248, 24248320, 24379392, 24510464, 24641536, 24772608, 24903680, 25034752,
     25165824, 25296896, 25427968, 25559040, 25690112, 25821184, 25952256, 26083328, 26214400, 26345472,
     26476544, 26607616, 26738688, 26869760, 27000832, 27131904, 27262976, 27394048, 27525120, 27656192,
     27787264, 27918336, 28049408, 28180480, 28311552, 28442624, 28573696, 28704768, 28835840, 28966912,
     29097984, 29229056, 29360128, 29491200, 29622272, 29753344, 29884416, 30015488, 30146560, 30277632,
     30408704, 30539776, 30670848, 30801920, 30932992, 31064064, 31195136, 31326208, 31457280, 31588352,
     31719424, 31850496, 31981568, 32112640, 32243712, 32374784, 32505856, 32636928, 32768000, 32899072,
     33030144, 33161216, 33292288, 33423360]"

section \<open>Blocks\<close>

text \<open>The three recent offsets are 32-bit numbers; they are read from the stream or computed from the
  tables, where they stay below \<open>2 ^ 26\<close>.\<close>

type_synonym offsets = "nat \<times> nat \<times> nat"

record decoder_state =
  ds_window_size :: window_size
  ds_main_tree :: canonical_tree
  ds_length_tree :: canonical_tree
  wim_mode :: bool
  wim_default_block_size :: nat

datatype decoded =
    DSingle u8
  | DMatch nat nat
  | DRead nat

datatype block_kind =
    Verbatim tree "tree option"
  | AlignedOffset tree tree "tree option"
  | Uncompressed offsets

record block =
  blk_remaining :: nat
  blk_size :: nat
  blk_kind :: block_kind

type_synonym 'a block_step = "(decode_failed, 'a) result \<times> decoder_state \<times> bitstream"

definition update_main_tree :: "nat \<Rightarrow> nat \<Rightarrow> decoder_state \<times> bitstream \<Rightarrow> unit block_step" where
  "update_main_tree start until st =
     (case update_range_with_pretree start until (ds_main_tree (fst st), snd st) of
        (r, lengths, bs) \<Rightarrow> (r, (fst st)\<lparr>ds_main_tree := lengths\<rparr>, bs))"

definition update_length_tree :: "nat \<Rightarrow> nat \<Rightarrow> decoder_state \<times> bitstream \<Rightarrow> unit block_step" where
  "update_length_tree start until st =
     (case update_range_with_pretree start until (ds_length_tree (fst st), snd st) of
        (r, lengths, bs) \<Rightarrow> (r, (fst st)\<lparr>ds_length_tree := lengths\<rparr>, bs))"

definition read_main_and_length_trees :: "decoder_state \<times> bitstream \<Rightarrow> unit block_step" where
  "read_main_and_length_trees st =
     and_then_st (update_main_tree 0 256 st) (\<lambda>_ st.
     and_then_st (update_main_tree 256 (256 + 8 * position_slots (ds_window_size (fst st))) st) (\<lambda>_ st.
     update_length_tree 0 249 st))"

definition read_block_size :: "decoder_state \<times> bitstream \<Rightarrow> nat block_step" where
  "read_block_size st =
     (if wim_mode (fst st) then
        and_then_st (on_bits (read_bits 1) st) (\<lambda>flag st.
          if flag \<noteq> 0 then (Inr (wim_default_block_size (fst st)), st)
          else and_then_st (on_bits (read_bits 16) st) (\<lambda>n st. (Inr (unat n), st)))
      else and_then_st (on_bits read_u24_be st) (\<lambda>n st. (Inr (unat n), st)))"

text \<open>A computation that reads nothing, such as building a tree, among the steps.\<close>

definition lift_result :: "('e, 'a) result \<Rightarrow> 's \<Rightarrow> ('e, 'a) result \<times> 's" where
  "lift_result r st = (r, st)"

definition read_trees :: "decoder_state \<times> bitstream \<Rightarrow> (tree \<times> tree option) block_step" where
  "read_trees st =
     and_then_st (read_main_and_length_trees st) (\<lambda>_ st.
     and_then_st (lift_result (create_instance (ds_main_tree (fst st))) st) (\<lambda>main st.
     and_then_st (lift_result (create_instance_allow_empty (ds_length_tree (fst st))) st) (\<lambda>len st.
     (Inr (main, len), st))))"

definition read_offsets :: "bitstream \<Rightarrow> offsets bit_step" where
  "read_offsets bs =
     and_then_st (read_u32_le bs) (\<lambda>r0 bs.
     and_then_st (read_u32_le bs) (\<lambda>r1 bs.
     and_then_st (read_u32_le bs) (\<lambda>r2 bs. (Inr (unat r0, unat r1, unat r2), bs))))"

definition read_kind :: "u8 \<Rightarrow> decoder_state \<times> bitstream \<Rightarrow> block_kind block_step" where
  "read_kind tag st =
     (if tag = 1 then
        and_then_st (read_trees st) (\<lambda>(main, len) st. (Inr (Verbatim main len), st))
      else if tag = 2 then
        and_then_st (on_bits (read_lengths 3 8) st) (\<lambda>lengths st.
        and_then_st (lift_result (create_instance lengths) st) (\<lambda>aligned st.
        and_then_st (read_trees st) (\<lambda>(main, len) st. (Inr (AlignedOffset aligned main len), st))))
      else if tag = 3 then
        and_then_st (on_bits align st) (\<lambda>_ st.
        and_then_st (on_bits read_offsets st) (\<lambda>r st. (Inr (Uncompressed r), st)))
      else (Inl (InvalidBlock tag), st))"

definition block_read :: "decoder_state \<times> bitstream \<Rightarrow> block block_step" where
  "block_read st =
     and_then_st (on_bits (read_bits 3) st) (\<lambda>tag st.
     and_then_st (read_block_size st) (\<lambda>size st.
       if size = 0 then (Inl (InvalidBlockSize 0), st)
       else and_then_st (read_kind (ucast tag) st) (\<lambda>kind st.
              (Inr \<lparr>blk_remaining = size, blk_size = size, blk_kind = kind\<rparr>, st))))"

section \<open>Decoding an element\<close>

type_synonym 'a element_step = "(decode_failed, 'a) result \<times> offsets \<times> bitstream"

definition match_length :: "tree option \<Rightarrow> nat \<Rightarrow> bitstream \<Rightarrow> nat bit_step" where
  "match_length length_tree header bs =
     (if header = 7 then
        (case length_tree of
           None \<Rightarrow> (Inl EmptyTree, bs)
         | Some t \<Rightarrow> and_then_st (tree_decode t bs) (\<lambda>n bs. (Inr (n + 7 + 2), bs)))
      else (Inr (header + 2), bs))"

definition formatted_offset :: "tree option \<Rightarrow> nat \<Rightarrow> bitstream \<Rightarrow> nat bit_step" where
  "formatted_offset aligned_offset_tree slot bs =
     (if slot < length footer_bits \<and> slot < length base_position then
        let offset_bits = footer_bits ! slot in
        case aligned_offset_tree of
          Some t \<Rightarrow>
            if offset_bits \<ge> 3 then
              and_then_st (read_bits (offset_bits - 3) bs) (\<lambda>v bs.
              and_then_st (tree_decode t bs) (\<lambda>a bs. (Inr (base_position ! slot + unat (push_bit 3 v) + a), bs)))
            else and_then_st (read_bits offset_bits bs) (\<lambda>v bs. (Inr (base_position ! slot + unat v + 0), bs))
        | None \<Rightarrow> and_then_st (read_bits offset_bits bs) (\<lambda>v bs. (Inr (base_position ! slot + unat v), bs))
      else (Inl Panicked, bs))"

text \<open>The offset of a match and the queue of recent offsets.\<close>

definition match_offset :: "tree option \<Rightarrow> nat \<Rightarrow> offsets \<times> bitstream \<Rightarrow> nat element_step" where
  "match_offset aligned_offset_tree slot st =
     (case st of ((r0, r1, r2), bs) \<Rightarrow>
        if slot = 0 then (Inr r0, st)
        else if slot = 1 then (Inr r1, (r1, r0, r2), bs)
        else if slot = 2 then (Inr r2, (r2, r1, r0), bs)
        else and_then_st (on_bits (formatted_offset aligned_offset_tree slot) st) (\<lambda>f st.
               if f < 2 then (Inl Panicked, st)
               else (Inr (f - 2), (f - 2, r0, r1), snd st)))"

definition decode_element :: "tree option \<Rightarrow> tree \<Rightarrow> tree option \<Rightarrow> offsets \<times> bitstream \<Rightarrow> decoded element_step" where
  "decode_element aligned_offset_tree main_tree length_tree st =
     and_then_st (on_bits (tree_decode main_tree) st) (\<lambda>main_element st.
       if main_element < 256 then (Inr (DSingle (word_of_nat main_element)), st)
       else and_then_st (on_bits (match_length length_tree ((main_element - 256) mod 8)) st) (\<lambda>n st.
            and_then_st (match_offset aligned_offset_tree ((main_element - 256) div 8) st) (\<lambda>offset st.
            (Inr (DMatch offset n), st))))"

definition block_decode_element :: "block \<Rightarrow> offsets \<times> bitstream \<Rightarrow> decoded element_step" where
  "block_decode_element self st =
     (case blk_kind self of
        Verbatim main_tree length_tree \<Rightarrow> decode_element None main_tree length_tree st
      | AlignedOffset aligned_offset_tree main_tree length_tree \<Rightarrow>
          decode_element (Some aligned_offset_tree) main_tree length_tree st
      | Uncompressed new_r \<Rightarrow> (Inr (DRead (blk_remaining self)), new_r, snd st))"

section \<open>The decoder\<close>

record post_process =
  data_chunk :: bytes
  e8_translation_size :: u32

record lzxd =
  lz_window :: window
  lz_state :: decoder_state
  lz_r :: offsets
  lz_first_chunk_read :: bool
  lz_chunk_offset :: nat
  lz_postprocess :: "post_process option"
  lz_current_block :: block

type_synonym 'a lzx_step = "(decode_failed, 'a) result \<times> lzxd \<times> bitstream"

definition wim_default_size :: nat where
  "wim_default_size = 32768"

definition wim_e8_translation_size :: u32 where
  "wim_e8_translation_size = 12000000"

definition lzxd_new :: "window_size \<Rightarrow> (decode_failed, lzxd) result" where
  "lzxd_new ws =
     and_then (create_buffer ws) (\<lambda>w. Inr
       \<lparr>lz_window = w,
        lz_state = \<lparr>ds_window_size = ws, ds_main_tree = canonical_new (256 + 8 * position_slots ws),
                    ds_length_tree = canonical_new 249, wim_mode = False, wim_default_block_size = 0\<rparr>,
        lz_r = (1, 1, 1), lz_first_chunk_read = False, lz_chunk_offset = 0, lz_postprocess = None,
        lz_current_block = \<lparr>blk_remaining = 0, blk_size = 0, blk_kind = Uncompressed (1, 1, 1)\<rparr>\<rparr>)"

definition new_post_process :: "u32 \<Rightarrow> post_process" where
  "new_post_process n = \<lparr>data_chunk = replicate max_chunk_size 0, e8_translation_size = n\<rparr>"

definition lzxd_new_wim :: "window_size \<Rightarrow> (decode_failed, lzxd) result" where
  "lzxd_new_wim ws =
     and_then (lzxd_new ws) (\<lambda>l. Inr (l
       \<lparr>lz_state := (lz_state l)\<lparr>wim_mode := True, wim_default_block_size := wim_default_size\<rparr>,
        lz_first_chunk_read := True, lz_postprocess := Some (new_post_process wim_e8_translation_size)\<rparr>))"

definition try_read_first_chunk :: "lzxd \<times> bitstream \<Rightarrow> unit lzx_step" where
  "try_read_first_chunk st =
     (if lz_first_chunk_read (fst st) then (Inr (), st)
      else
        let st = ((fst st)\<lparr>lz_first_chunk_read := True\<rparr>, snd st) in
        and_then_st (on_bits read_bit st) (\<lambda>e8 st.
          if e8 \<noteq> 0 then
            and_then_st (on_bits (read_bits 32) st) (\<lambda>n st.
              (Inr (), (fst st)\<lparr>lz_postprocess := Some (new_post_process n)\<rparr>, snd st))
          else (Inr (), (fst st)\<lparr>lz_postprocess := None\<rparr>, snd st)))"

text \<open>One iteration of the loop of \<open>decompress_next\<close>: the next block when the current one is used up, an
  element of it, and writing it to the window.\<close>

definition realign :: "block \<Rightarrow> bitstream \<Rightarrow> bitstream" where
  "realign b bs =
     (case blk_kind b of
        Uncompressed _ \<Rightarrow> if blk_size b mod 2 \<noteq> 0 then snd (read_byte bs) else bs
      | _ \<Rightarrow> bs)"

definition next_lzx_block :: "lzxd \<times> bitstream \<Rightarrow> unit lzx_step" where
  "next_lzx_block st =
     (case st of (self, bs) \<Rightarrow>
        if blk_remaining (lz_current_block self) = 0 then
          (case block_read (lz_state self, realign (lz_current_block self) bs) of
             (Inl e, state, bs) \<Rightarrow> (Inl e, self\<lparr>lz_state := state\<rparr>, bs)
           | (Inr b, state, bs) \<Rightarrow> (Inr (), self\<lparr>lz_state := state, lz_current_block := b\<rparr>, bs))
        else (Inr (), st))"

definition decode_next :: "lzxd \<times> bitstream \<Rightarrow> decoded lzx_step" where
  "decode_next st =
     and_then_st (next_lzx_block st) (\<lambda>_ st.
       case block_decode_element (lz_current_block (fst st)) (lz_r (fst st), snd st) of
         (d, r, bs) \<Rightarrow> (d, (fst st)\<lparr>lz_r := r\<rparr>, bs))"

text \<open>Writing an element; the result is how far the output advanced.\<close>

definition lift_window :: "(decode_failed, window) result \<Rightarrow> lzxd \<times> bitstream \<Rightarrow> unit lzx_step" where
  "lift_window r st =
     (case r of Inl e \<Rightarrow> (Inl e, st) | Inr w \<Rightarrow> (Inr (), (fst st)\<lparr>lz_window := w\<rparr>, snd st))"

fun write_decoded :: "decoded \<Rightarrow> lzxd \<times> bitstream \<Rightarrow> nat lzx_step" where
  "write_decoded (DSingle v) st =
     and_then_st (lift_window (w_push v (lz_window (fst st))) st) (\<lambda>_ st. (Inr 1, st))"
| "write_decoded (DMatch offset n) st =
     and_then_st (lift_window (copy_from_self offset n (lz_window (fst st))) st) (\<lambda>_ st. (Inr n, st))"
| "write_decoded (DRead n) st =
     (let n = min (remaining_bytes (snd st)) n
      in case copy_from_bitstream n (lz_window (fst st), snd st) of
           (r, w, bs) \<Rightarrow> and_then_st (r, (fst st)\<lparr>lz_window := w\<rparr>, bs) (\<lambda>_ st. (Inr n, st)))"

definition consume_block :: "nat \<Rightarrow> lzxd \<times> bitstream \<Rightarrow> nat lzx_step" where
  "consume_block advance st =
     (if advance = 0 then (Inl LzxUnexpectedEof, st)
      else let b = lz_current_block (fst st) in
        if advance \<le> blk_remaining b
        then (Inr advance, (fst st)\<lparr>lz_current_block := b\<lparr>blk_remaining := blk_remaining b - advance\<rparr>\<rparr>, snd st)
        else (Inl OverreadBlock, st))"

definition decompress_step :: "lzxd \<times> bitstream \<Rightarrow> nat lzx_step" where
  "decompress_step st =
     and_then_st (decode_next st) (\<lambda>d st.
     and_then_st (write_decoded d st) consume_block)"

text \<open>The loop compares lengths for equality and so has no bound of its own; not returning is \<open>None\<close>.\<close>

partial_function (option) decompress_loop :: "nat \<Rightarrow> nat \<Rightarrow> lzxd \<times> bitstream \<Rightarrow> nat lzx_step option" where
  "decompress_loop output_len decoded_len st =
     (if decoded_len = output_len then Some (Inr decoded_len, st)
      else case decompress_step st of
             (Inl e, st) \<Rightarrow> Some (Inl e, st)
           | (Inr advance, st) \<Rightarrow> decompress_loop output_len (decoded_len + advance) st)"

section \<open>Decompressing a chunk\<close>

text \<open>\<open>decompress_next\<close> itself: the loop, the view of what it wrote, and the filter.\<close>

definition finish_chunk :: "nat \<Rightarrow> lzxd \<Rightarrow> (decode_failed, bytes) result \<times> lzxd" where
  "finish_chunk decoded_len self =
     (let chunk_offset = lz_chunk_offset self; self = self\<lparr>lz_chunk_offset := chunk_offset + decoded_len\<rparr>
      in case past_view decoded_len (lz_window self) of
           (Inl e, w) \<Rightarrow> (Inl e, self\<lparr>lz_window := w\<rparr>)
         | (Inr view, w) \<Rightarrow>
             let self = self\<lparr>lz_window := w\<rparr> in
             case lz_postprocess self of
               None \<Rightarrow> (Inr view, self)
             | Some pp \<Rightarrow>
                 if 0x40000000 \<le> chunk_offset \<or> decoded_len \<le> 10 then (Inr view, self)
                 else if length (data_chunk pp) < decoded_len then (Inl Panicked, self)
                 else let out = postprocess (e8_translation_size pp) chunk_offset view
                      in (Inr out, self\<lparr>lz_postprocess := Some (pp\<lparr>data_chunk := out @ drop decoded_len (data_chunk pp)\<rparr>)\<rparr>))"

definition decompress_next :: "bytes \<Rightarrow> nat \<Rightarrow> lzxd \<Rightarrow> ((decode_failed, bytes) result \<times> lzxd) option" where
  "decompress_next chunk output_len self =
     (case try_read_first_chunk (self, bitstream_new chunk) of
        (Inl e, self, bs) \<Rightarrow> Some (Inl e, self)
      | (Inr _, st) \<Rightarrow>
          (case decompress_loop output_len 0 st of
             None \<Rightarrow> None
           | Some (Inl e, self, bs) \<Rightarrow> Some (Inl e, self)
           | Some (Inr decoded_len, self, bs) \<Rightarrow> Some (finish_chunk decoded_len self)))"

definition lzxd_reset :: "lzxd \<Rightarrow> (decode_failed, lzxd) result" where
  "lzxd_reset self =
     and_then (lzxd_new (ds_window_size (lz_state self))) (\<lambda>l. Inr
       (if wim_mode (lz_state self) then
          l\<lparr>lz_state := (lz_state l)\<lparr>wim_mode := True, wim_default_block_size := wim_default_block_size (lz_state self)\<rparr>,
            lz_first_chunk_read := True, lz_postprocess := Some (new_post_process wim_e8_translation_size)\<rparr>
        else l))"

section \<open>The tables agree with their formulas\<close>

lemma length_tables [simp]: "length footer_bits = 290" "length base_position = 290"
  by (simp_all add: footer_bits_def base_position_def)

lemma footer_bits_formula:
  "slot < 290 \<Longrightarrow> footer_bits ! slot = (if slot < 4 then 0 else if slot \<ge> 36 then 17 else (slot - 2) div 2)"
proof -
  have e: "footer_bits = map (\<lambda>slot. if slot < 4 then 0 else if slot \<ge> 36 then 17 else (slot - 2) div 2) [0 ..< 290]"
    by (simp add: footer_bits_def upt_rec)
  assume "slot < 290"
  then show ?thesis by (subst e) simp
qed

lemma base_position_formula:
  "Suc slot < 290 \<Longrightarrow> base_position ! Suc slot = base_position ! slot + 2 ^ (footer_bits ! slot)"
proof -
  have "tl base_position = map2 (\<lambda>b f. b + 2 ^ f) (butlast base_position) (butlast footer_bits)"
    by (simp add: base_position_def footer_bits_def)
  moreover assume s: "Suc slot < 290"
  ultimately have "tl base_position ! slot = butlast base_position ! slot + 2 ^ (butlast footer_bits ! slot)" by simp
  then show ?thesis using s by (simp add: nth_tl nth_butlast)
qed

lemma base_position_mono: "i \<le> j \<Longrightarrow> j < 290 \<Longrightarrow> base_position ! i \<le> base_position ! j"
proof (induction j rule: dec_induct)
  case (step j)
  then show ?case using base_position_formula [of j] by simp
qed simp

text \<open>Every offset of a window's slots lies inside the window.\<close>

lemma slot_in_window:
  assumes "slot < position_slots ws"
  shows "slot < 290" "base_position ! slot + 2 ^ (footer_bits ! slot) \<le> window_value ws"
proof -
  let ?n = "position_slots ws - 1"
  have n: "position_slots ws \<le> 290" "slot \<le> ?n" "0 < position_slots ws" using assms by (cases ws; simp)+
  then show "slot < 290" using assms by simp
  have top: "base_position ! ?n + 2 ^ (footer_bits ! ?n) = window_value ws"
    by (cases ws) (simp_all add: base_position_def footer_bits_def)
  show "base_position ! slot + 2 ^ (footer_bits ! slot) \<le> window_value ws"
  proof (cases "slot = ?n")
    case False
    then have "Suc slot \<le> ?n" using n by simp
    then have "base_position ! Suc slot \<le> base_position ! ?n" using n by (intro base_position_mono) simp_all
    then show ?thesis using base_position_formula [of slot] \<open>Suc slot \<le> ?n\<close> n top by simp
  qed (use top in simp)
qed

lemma base_position_ge: "3 \<le> slot \<Longrightarrow> slot < 290 \<Longrightarrow> 3 \<le> base_position ! slot"
  using base_position_mono [of 3 slot] by (simp add: base_position_def)

section \<open>The state of the decoder stays well formed\<close>

definition main_elements :: "window_size \<Rightarrow> nat" where
  "main_elements ws = 256 + 8 * position_slots ws"

definition state_ok :: "window_size \<Rightarrow> decoder_state \<Rightarrow> bool" where
  "state_ok ws d \<longleftrightarrow>
     ds_window_size d = ws \<and> lengths_ok (main_elements ws) (ds_main_tree d) \<and> lengths_ok 249 (ds_length_tree d)"

fun kind_ok :: "window_size \<Rightarrow> block_kind \<Rightarrow> bool" where
  "kind_ok ws (Verbatim main len) \<longleftrightarrow> tree_for (main_elements ws) main \<and> (\<forall>t \<in> set_option len. tree_for 249 t)"
| "kind_ok ws (AlignedOffset aligned main len) \<longleftrightarrow>
     tree_for 8 aligned \<and> tree_for (main_elements ws) main \<and> (\<forall>t \<in> set_option len. tree_for 249 t)"
| "kind_ok ws (Uncompressed r) \<longleftrightarrow> True"

abbreviation state_step :: "window_size \<Rightarrow> ('a \<Rightarrow> decoder_state \<Rightarrow> bool) \<Rightarrow> nat \<Rightarrow> bitstream \<Rightarrow> 'a block_step \<Rightarrow> bool" where
  "state_step ws \<equiv> step_ok (state_ok ws) (\<lambda>_. False)"

lemma update_main_tree_ok:
  assumes "until \<le> main_elements ws" "state_ok ws (fst st)" "stream_ok (snd st)"
  shows "state_step ws (\<lambda>_ _. True) 0 (snd st) (update_main_tree start until st)"
proof -
  have "lengths_step (main_elements ws) (snd st) (update_range_with_pretree start until (ds_main_tree (fst st), snd st))"
    using update_range_ok [OF assms(1), of "(ds_main_tree (fst st), snd st)"] assms(2,3) by (simp add: state_ok_def)
  then show ?thesis using assms(2)
    by (auto simp: update_main_tree_def step_ok_def state_ok_def split: prod.splits sum.splits)
qed

lemma update_length_tree_ok:
  assumes "until \<le> 249" "state_ok ws (fst st)" "stream_ok (snd st)"
  shows "state_step ws (\<lambda>_ _. True) 0 (snd st) (update_length_tree start until st)"
proof -
  have "lengths_step 249 (snd st) (update_range_with_pretree start until (ds_length_tree (fst st), snd st))"
    using update_range_ok [OF assms(1), of "(ds_length_tree (fst st), snd st)"] assms(2,3) by (simp add: state_ok_def)
  then show ?thesis using assms(2)
    by (auto simp: update_length_tree_def step_ok_def state_ok_def split: prod.splits sum.splits)
qed

lemma read_main_and_length_trees_ok:
  assumes "state_ok ws (fst st)" "stream_ok (snd st)"
  shows "state_step ws (\<lambda>_ _. True) 0 (snd st) (read_main_and_length_trees st)"
  unfolding read_main_and_length_trees_def
  by (rule step_ok_seq [OF update_main_tree_ok step_ok_seq [OF update_main_tree_ok update_length_tree_ok]])
     (use assms in \<open>auto simp: main_elements_def state_ok_def\<close>)

lemma lift_result_ok:
  "P (fst st) \<Longrightarrow> stream_ok (snd st) \<Longrightarrow> r \<noteq> Inl Panicked \<Longrightarrow> (\<And>x. r = Inr x \<Longrightarrow> R x (fst st)) \<Longrightarrow> step_ok P Q R 0 (snd st) (lift_result r st)"
  by (cases r; cases st) (auto simp: lift_result_def step_ok_def)

lemma allow_empty_tree_for:
  "create_instance_allow_empty ls = Inr t \<Longrightarrow> lengths_ok n ls \<Longrightarrow> \<forall>t \<in> set_option t. tree_for n t"
  using create_instance_tree_for [of ls _ n] by (cases t) (auto simp: create_instance_def)

lemma read_trees_ok:
  assumes "state_ok ws (fst st)" "stream_ok (snd st)"
  shows "state_step ws (\<lambda>(main, len) _. tree_for (main_elements ws) main \<and> (\<forall>t \<in> set_option len. tree_for 249 t)) 0
           (snd st) (read_trees st)"
  unfolding read_trees_def
proof (rule step_ok_seq [OF read_main_and_length_trees_ok [OF assms]], goal_cases)
  case (1 x st)
  have "create_instance (ds_main_tree (fst st)) \<noteq> Inl Panicked"
    by (rule create_instance_no_panic) (use 1 in \<open>auto simp: state_ok_def lengths_ok_def main_elements_def\<close>)
  then have main: "state_step ws (\<lambda>t _. tree_for (main_elements ws) t) 0 (snd st) (lift_result (create_instance (ds_main_tree (fst st))) st)"
    using 1 by (intro lift_result_ok) (auto simp: state_ok_def intro: create_instance_tree_for)
  show ?case
  proof (rule step_ok_seq [OF main], goal_cases)
    case (1 main st)
    have "create_instance_allow_empty (ds_length_tree (fst st)) \<noteq> Inl Panicked"
      by (rule create_instance_no_panic) (use 1 in \<open>auto simp: state_ok_def lengths_ok_def\<close>)
    then have len: "state_step ws (\<lambda>t _. \<forall>t \<in> set_option t. tree_for 249 t) 0 (snd st) (lift_result (create_instance_allow_empty (ds_length_tree (fst st))) st)"
      using 1 by (intro lift_result_ok) (auto simp: state_ok_def dest: allow_empty_tree_for)
    show ?case by (rule step_ok_seq [OF len step_ok_return]) (use 1 in simp_all)
  qed
qed

lemma read_offsets_ok: "stream_ok s \<Longrightarrow> bit_ok (\<lambda>_. True) 0 s (read_offsets s)"
  unfolding read_offsets_def
  by (rule bit_ok_mono [OF bit_ok_then [OF read_u32_le_ok bit_ok_then [OF read_u32_le_ok bit_ok_then [OF read_u32_le_ok bit_ok_return]]]])
     simp_all

lemma read_block_size_ok:
  assumes "state_ok ws (fst st)" "stream_ok (snd st)"
  shows "state_step ws (\<lambda>_ _. True) 0 (snd st) (read_block_size st)"
proof (cases "wim_mode (fst st)")
  case True
  show ?thesis unfolding read_block_size_def if_P [OF True]
  proof (rule step_ok_seq [OF step_read_ok [where P = "state_ok ws", OF _ assms]], goal_cases)
    case (2 flag st)
    have "state_step ws (\<lambda>_ _. True) 0 (snd st) (and_then_st (on_bits (read_bits 16) st) (\<lambda>n st. (Inr (unat n), st)))"
      by (rule step_ok_seq [OF step_read_ok [where P = "state_ok ws"] step_ok_return]) (use 2 in simp_all)
    then show ?case using 2 by (simp add: step_ok_return)
  qed simp
next
  case False
  show ?thesis unfolding read_block_size_def if_not_P [OF False]
    by (rule step_ok_seq [OF step_ok_bits [where P = "state_ok ws" and f = read_u24_be, OF read_u24_be_ok] step_ok_return]) (use assms in simp_all)
qed

lemma read_kind_ok:
  assumes "state_ok ws (fst st)" "stream_ok (snd st)"
  shows "state_step ws (\<lambda>k _. kind_ok ws k) 0 (snd st) (read_kind tag st)"
proof -
  have ver: "state_step ws (\<lambda>k _. kind_ok ws k) 0 (snd st) (and_then_st (read_trees st) (\<lambda>(main, len) st. (Inr (Verbatim main len), st)))"
    by (rule step_ok_seq [OF read_trees_ok [OF assms]]) (auto intro!: step_ok_return)
  have ali: "state_step ws (\<lambda>k _. kind_ok ws k) 0 (snd st)
      (and_then_st (on_bits (read_lengths 3 8) st) (\<lambda>lengths st.
        and_then_st (lift_result (create_instance lengths) st) (\<lambda>aligned st.
        and_then_st (read_trees st) (\<lambda>(main, len) st. (Inr (AlignedOffset aligned main len), st)))))"
  proof (rule step_ok_seq [OF step_lengths_ok [where P = "state_ok ws", OF _ assms]], goal_cases)
    case (2 ls st)
    have "create_instance ls \<noteq> Inl Panicked" by (rule create_instance_no_panic) (use 2 in \<open>auto simp: lengths_ok_def\<close>)
    then have "state_step ws (\<lambda>t _. tree_for 8 t) 0 (snd st) (lift_result (create_instance ls) st)"
      using 2 by (intro lift_result_ok) (auto intro: create_instance_tree_for)
    then show ?case
      by (rule step_ok_seq, intro step_ok_seq [OF read_trees_ok]) (auto intro!: step_ok_return)
  qed simp
  have unc: "state_step ws (\<lambda>k _. kind_ok ws k) 0 (snd st)
      (and_then_st (on_bits align st) (\<lambda>_ st. and_then_st (on_bits read_offsets st) (\<lambda>r st. (Inr (Uncompressed r), st))))"
    by (rule step_ok_seq [OF step_ok_bits [where P = "state_ok ws" and f = align, OF align_ok]
          step_ok_seq [OF step_ok_bits [where P = "state_ok ws" and f = read_offsets, OF read_offsets_ok] step_ok_return]]) (use assms in simp_all)
  show ?thesis unfolding read_kind_def using ver ali unc assms by (auto simp: step_ok_error)
qed

lemma block_read_ok:
  assumes "state_ok ws (fst st)" "stream_ok (snd st)"
  shows "state_step ws (\<lambda>b _. kind_ok ws (blk_kind b) \<and> 0 < blk_remaining b) 0 (snd st) (block_read st)"
  unfolding block_read_def
proof (rule step_ok_seq [OF step_read_ok [where P = "state_ok ws", OF _ assms] step_ok_seq [OF read_block_size_ok]], goal_cases)
  case (4 tag st' size st)
  have "state_step ws (\<lambda>b _. kind_ok ws (blk_kind b) \<and> 0 < blk_remaining b) 0 (snd st) (and_then_st (read_kind (ucast tag) st) (\<lambda>kind st.
              (Inr \<lparr>blk_remaining = size, blk_size = size, blk_kind = kind\<rparr>, st)))" if "size \<noteq> 0"
    by (rule step_ok_seq [OF read_kind_ok step_ok_return]) (use 4 that in simp_all)
  then show ?case using 4 by (simp add: step_ok_error)
qed simp_all

section \<open>Elements\<close>

fun offsets_in :: "window_size \<Rightarrow> offsets \<Rightarrow> bool" where
  "offsets_in ws (r0, r1, r2) \<longleftrightarrow> r0 \<le> window_value ws \<and> r1 \<le> window_value ws \<and> r2 \<le> window_value ws"

lemma bit_ok_seq:
  assumes "bit_ok R j s r" "\<And>x t. R x \<Longrightarrow> stream_ok t \<Longrightarrow> bit_ok R' k t (f x t)"
  shows "bit_ok R' k s (and_then_st r f)"
  by (rule bit_ok_mono [OF bit_ok_then [OF assms]]) simp_all

lemma unat_shifted: "unat v < 2 ^ 29 \<Longrightarrow> unat (push_bit 3 v) = unat v * 8" for v :: u32
  by (simp add: push_bit_eq_mult unat_word_ariths(2) mult.commute)

lemma formatted_offset_ok:
  assumes slot: "slot < 290" and t: "\<forall>t \<in> set_option aligned. tree_for 8 t" and s: "stream_ok s"
  shows "bit_ok (\<lambda>f. base_position ! slot \<le> f \<and> f < base_position ! slot + 2 ^ (footer_bits ! slot)) 0 s
           (formatted_offset aligned slot s)"
proof -
  let ?b = "footer_bits ! slot" and ?base = "base_position ! slot"
  have b: "?b \<le> 17" using footer_bits_formula [OF slot] by auto
  have plain: "bit_ok (\<lambda>f. ?base \<le> f \<and> f < ?base + 2 ^ ?b) 0 s (and_then_st (read_bits ?b s) (\<lambda>v bs. (Inr (?base + unat v), bs)))"
    by (rule bit_ok_seq [OF read_bits_ok bit_ok_return]) (use b s in simp_all)
  have "bit_ok (\<lambda>f. ?base \<le> f \<and> f < ?base + 2 ^ ?b) 0 s
      (and_then_st (read_bits (?b - 3) s) (\<lambda>v bs. and_then_st (tree_decode t bs) (\<lambda>a bs. (Inr (?base + unat (push_bit 3 v) + a), bs))))"
    if "3 \<le> ?b" "tree_for 8 t" for t
  proof (rule bit_ok_seq [OF read_bits_ok bit_ok_seq [OF tree_decode_ok [OF that(2)] bit_ok_return]], goal_cases)
    case (5 v s' a s'')
    have pow: "(2 :: nat) ^ ?b = 2 ^ (?b - 3) * 8" using that(1) power_add [of "2 :: nat" "?b - 3" 3] by simp
    have "(2 :: nat) ^ (?b - 3) \<le> 2 ^ 29" by (rule power_increasing) (use b in simp_all)
    then have "unat (push_bit 3 v) = unat v * 8" using 5 by (intro unat_shifted) simp
    then show ?case using 5 pow by simp
  qed (use s b in simp_all)
  then show ?thesis using plain slot t by (cases aligned) (simp_all add: formatted_offset_def Let_def)
qed

text \<open>A match leaves its offset in front of the queue; a computed one lies inside the window.\<close>

lemma match_offset_ok:
  assumes slot: "slot < position_slots ws" and t: "\<forall>t \<in> set_option aligned. tree_for 8 t" and s: "stream_ok (snd st)"
    and good: "good \<longrightarrow> offsets_in ws (fst st)"
  shows "step_ok (\<lambda>r. good \<longrightarrow> offsets_in ws r) (\<lambda>_. False) (\<lambda>offset r. offset = fst r) 0 (snd st) (match_offset aligned slot st)"
proof -
  obtain r0 r1 r2 bs where st: "st = ((r0, r1, r2), bs)" by (metis prod.exhaust)
  note w = slot_in_window [OF slot]
  show ?thesis
  proof (cases "slot < 3")
    case True
    then have "slot = 0 \<or> slot = 1 \<or> slot = 2" by auto
    then show ?thesis using s good by (auto simp: st match_offset_def step_ok_def)
  next
    case False
    have "step_ok (\<lambda>r. good \<longrightarrow> offsets_in ws r) (\<lambda>_. False) (\<lambda>offset r. offset = fst r) 0 (snd st)
      (and_then_st (on_bits (formatted_offset aligned slot) st) (\<lambda>f st.
               if f < 2 then (Inl Panicked, st)
               else (Inr (f - 2), (f - 2, r0, r1), snd st)))"
    proof (rule step_ok_seq [OF step_ok_bits [where f = "formatted_offset aligned slot", OF formatted_offset_ok [OF w(1) t s]]], goal_cases)
      case (2 f st')
      then show ?case using w base_position_ge [of slot] False good st by (auto simp: step_ok_def)
    qed (use good in simp)
    then show ?thesis using False by (simp add: st match_offset_def)
  qed
qed

lemma match_length_ok:
  assumes "header < 8" "\<forall>t \<in> set_option len. tree_for 249 t" "stream_ok s"
  shows "bit_ok (\<lambda>n. 2 \<le> n \<and> n \<le> 257) 0 s (match_length len header s)"
proof -
  have "bit_ok (\<lambda>n. 2 \<le> n \<and> n \<le> 257) 0 s (and_then_st (tree_decode t s) (\<lambda>n bs. (Inr (n + 7 + 2), bs)))" if "tree_for 249 t" for t
  proof (rule bit_ok_seq [OF tree_decode_ok [OF that assms(3)] bit_ok_return])
    show "2 \<le> n + 7 + 2 \<and> n + 7 + 2 \<le> 257" if "n < 249" for n :: nat using that by linarith
  qed
  then show ?thesis using assms by (cases len) (auto simp: match_length_def bit_ok_error intro: bit_ok_return)
qed

fun element_ok :: "decoded \<Rightarrow> offsets \<Rightarrow> bool" where
  "element_ok (DSingle v) r \<longleftrightarrow> True"
| "element_ok (DMatch offset n) r \<longleftrightarrow> offset = fst r \<and> 2 \<le> n \<and> n \<le> 257"
| "element_ok (DRead n) r \<longleftrightarrow> False"

lemma decode_element_ok:
  assumes t: "\<forall>t \<in> set_option aligned. tree_for 8 t" "tree_for (main_elements ws) main" "\<forall>t \<in> set_option len. tree_for 249 t"
    and s: "stream_ok (snd st)" and good: "good \<longrightarrow> offsets_in ws (fst st)"
  shows "step_ok (\<lambda>r. good \<longrightarrow> offsets_in ws r) (\<lambda>_. False) element_ok 1 (snd st) (decode_element aligned main len st)"
proof -
  let ?P = "\<lambda>r. good \<longrightarrow> offsets_in ws r"
  have "step_ok ?P (\<lambda>_. False) element_ok (1 + 0) (snd st) (decode_element aligned main len st)"
    unfolding decode_element_def
  proof (rule step_ok_then [OF step_decode_ok [where P = ?P, OF t(2) good s]], goal_cases)
    case (1 e st)
    have "step_ok ?P (\<lambda>_. False) element_ok 0 (snd st)
        (and_then_st (on_bits (match_length len ((e - 256) mod 8)) st) (\<lambda>n st.
            and_then_st (match_offset aligned ((e - 256) div 8) st) (\<lambda>offset st. (Inr (DMatch offset n), st))))" if "256 \<le> e"
    proof (rule step_ok_seq [OF step_ok_bits [where P = ?P and f = "match_length len ((e - 256) mod 8)", OF match_length_ok]], goal_cases)
      case (5 n st)
      have "(e - 256) div 8 < position_slots ws" using 1(1) that by (simp add: main_elements_def less_mult_imp_div_less)
      then show ?case
        by (intro step_ok_seq [OF match_offset_ok [OF _ t(1) 5(3,2)] step_ok_return]) (use 5 in simp_all)
    qed (use 1 t(3) in simp_all)
    then show ?case using 1 by (auto intro!: step_ok_return)
  qed
  then show ?thesis by simp
qed

section \<open>The loop\<close>

definition lz_ok :: "window_size \<Rightarrow> lzxd \<Rightarrow> bool" where
  "lz_ok ws l \<longleftrightarrow>
     (\<exists>k \<ge> 15. window_value ws = 2 ^ k \<and> window_ok k (lz_window l)) \<and> state_ok ws (lz_state l) \<and>
     kind_ok ws (blk_kind (lz_current_block l)) \<and>
     (\<forall>pp \<in> set_option (lz_postprocess l). length (data_chunk pp) = max_chunk_size)"

abbreviation lzx_ok :: "window_size \<Rightarrow> ('a \<Rightarrow> lzxd \<Rightarrow> bool) \<Rightarrow> nat \<Rightarrow> bitstream \<Rightarrow> 'a lzx_step \<Rightarrow> bool" where
  "lzx_ok ws \<equiv> step_ok (lz_ok ws) (\<lambda>l. \<not> offsets_in ws (lz_r l))"

lemma and_then_st_assoc: "and_then_st (and_then_st r f) g = and_then_st r (\<lambda>x s. and_then_st (f x s) g)"
  by (cases "(r, f)" rule: and_then_st.cases) auto

lemma read_byte_size: "stream_ok bs \<Longrightarrow> stream_ok (snd (read_byte bs)) \<and> stream_size (snd (read_byte bs)) \<le> stream_size bs"
  by (auto simp: read_byte_def stream_ok_def stream_size_def split: list.splits)

lemma realign_size:
  "stream_ok bs \<Longrightarrow> stream_ok (realign b bs) \<and> stream_size (realign b bs) \<le> stream_size bs"
  using read_byte_size [of bs] by (auto simp: realign_def split: block_kind.splits)

lemma next_lzx_block_ok:
  assumes "lz_ok ws (fst st)" "stream_ok (snd st)"
  shows "lzx_ok ws (\<lambda>_ l. 0 < blk_remaining (lz_current_block l)) 0 (snd st) (next_lzx_block st)"
proof -
  obtain self bs where st: "st = (self, bs)" by fastforce
  let ?bs = "realign (lz_current_block self) bs"
  have bs: "stream_ok ?bs" "stream_size ?bs \<le> stream_size bs" using assms(2) realign_size by (simp_all add: st)
  obtain r d t where r: "block_read (lz_state self, ?bs) = (r, d, t)" by (metis prod.exhaust)
  have "state_step ws (\<lambda>b _. kind_ok ws (blk_kind b) \<and> 0 < blk_remaining b) 0 ?bs (r, d, t)"
    using block_read_ok [of ws "(lz_state self, ?bs)"] bs(1) assms(1) r by (simp add: lz_ok_def st)
  then show ?thesis using assms bs(2) r
    by (cases r) (auto simp: st next_lzx_block_def step_ok_def lz_ok_def)
qed

text \<open>What is written keeps the decoder well formed; a panic shows an offset beyond the window.\<close>

lemma write_single_ok:
  assumes "lz_ok ws (fst st)" "stream_ok (snd st)"
  shows "lzx_ok ws (\<lambda>_ _. True) 0 (snd st) (write_decoded (DSingle v) st)"
proof -
  obtain k where k: "15 \<le> k" "window_value ws = 2 ^ k" "window_ok k (lz_window (fst st))" using assms(1) by (auto simp: lz_ok_def)
  obtain w where "w_push v (lz_window (fst st)) = Inr w" "window_ok k w" using w_push_contents [OF k(3)] by metis
  then show ?thesis using assms k by (cases st) (auto simp: lift_window_def step_ok_def lz_ok_def)
qed

lemma write_match_ok:
  assumes "lz_ok ws (fst st)" "stream_ok (snd st)" "offset = fst (lz_r (fst st))" "n \<le> 257"
  shows "lzx_ok ws (\<lambda>_ _. True) 0 (snd st) (write_decoded (DMatch offset n) st)"
proof -
  obtain k where k: "15 \<le> k" "window_value ws = 2 ^ k" "window_ok k (lz_window (fst st))" using assms(1) by (auto simp: lz_ok_def)
  have "(2 :: nat) ^ 15 \<le> 2 ^ k" using k(1) by (intro power_increasing) simp_all
  then have n: "n \<le> 2 ^ k" using assms(4) by simp
  note c = copy_from_self_ok [OF k(3) n, of offset]
  show ?thesis
  proof (cases "copy_from_self offset n (lz_window (fst st))")
    case (Inl e)
    then have "\<not> offsets_in ws (lz_r (fst st))" using c(2) k(2) assms(3) by (cases "lz_r (fst st)") auto
    then show ?thesis using Inl assms by (cases st) (auto simp: lift_window_def step_ok_def)
  next
    case (Inr w)
    then show ?thesis using c(1) assms k by (cases st) (auto simp: lift_window_def step_ok_def lz_ok_def)
  qed
qed

lemma consume_block_ok:
  assumes "lz_ok ws (fst st)" "stream_ok (snd st)"
  shows "lzx_ok ws (\<lambda>adv _. 0 < adv) 0 (snd st) (consume_block adv st)"
  using assms by (cases st) (auto simp: consume_block_def Let_def step_ok_def lz_ok_def)

lemma write_read_ok:
  assumes "lz_ok ws (fst st)" "stream_ok (snd st)"
  shows "lzx_ok ws (\<lambda>adv _. 0 < adv) 1 (snd st) (and_then_st (write_decoded (DRead n) st) consume_block)"
proof -
  obtain l bs where st: "st = (l, bs)" by fastforce
  obtain k where k: "15 \<le> k" "window_value ws = 2 ^ k" "window_ok k (lz_window l)" using assms(1) by (auto simp: lz_ok_def st)
  let ?n = "min (length (bs_buffer bs)) n"
  show ?thesis
  proof (cases "?n \<le> 2 ^ k")
    case True
    obtain w where w: "copy_from_bitstream ?n (lz_window l, bs) = (Inr (), w, bs\<lparr>bs_buffer := drop ?n (bs_buffer bs)\<rparr>)" "window_ok k w"
      using copy_from_bitstream_contents [OF k(3) True, of bs] by (metis min.cobounded1)
    let ?st = "(l\<lparr>lz_window := w\<rparr>, bs\<lparr>bs_buffer := drop ?n (bs_buffer bs)\<rparr>)"
    have e: "and_then_st (write_decoded (DRead n) st) consume_block = consume_block ?n ?st"
      using w(1) by (simp add: st remaining_bytes_def Let_def)
    have "lz_ok ws (fst ?st)" "stream_ok (snd ?st)" using assms w(2) k by (auto simp: st lz_ok_def stream_ok_def)
    then have "lzx_ok ws (\<lambda>adv _. 0 < adv) 0 (snd ?st) (consume_block ?n ?st)" by (rule consume_block_ok)
    moreover have "stream_size (snd ?st) + 8 * ?n = stream_size bs" by (simp add: stream_size_def)
    moreover have "?n = adv" if "consume_block ?n ?st = (Inr adv, s)" for adv s
      using that by (auto simp: consume_block_def Let_def split: if_splits)
    ultimately have "lzx_ok ws (\<lambda>adv _. 0 < adv) 1 bs (consume_block ?n ?st)"
      by (cases "consume_block ?n ?st") (auto simp: step_ok_def split: sum.splits)
    then show ?thesis unfolding e by (simp add: st)
  next
    case False
    then have "copy_from_bitstream ?n (lz_window l, bs) = (Inl WindowTooSmall, lz_window l, bs)"
      using k(3) unfolding copy_from_bitstream_def window_ok_def prod.case by (subst if_P) (simp_all add: not_le)
    then show ?thesis using assms by (simp add: st remaining_bytes_def Let_def step_ok_def)
  qed
qed

text \<open>After a block has been chosen: an element of it, written and accounted for.\<close>

definition element_step :: "lzxd \<times> bitstream \<Rightarrow> nat lzx_step" where
  "element_step st =
     and_then_st (case block_decode_element (lz_current_block (fst st)) (lz_r (fst st), snd st) of
                    (d, r, bs) \<Rightarrow> (d, (fst st)\<lparr>lz_r := r\<rparr>, bs)) (\<lambda>d st.
     and_then_st (write_decoded d st) consume_block)"

lemma decompress_step_eq: "decompress_step st = and_then_st (next_lzx_block st) (\<lambda>_. element_step)"
  by (simp add: decompress_step_def decode_next_def element_step_def [abs_def] and_then_st_assoc)

lemma element_step_ok:
  assumes "lz_ok ws (fst st)" "stream_ok (snd st)"
  shows "lzx_ok ws (\<lambda>adv _. 0 < adv) 1 (snd st) (element_step st)"
proof -
  let ?b = "lz_current_block (fst st)"
  have compressed: ?thesis
    if e: "block_decode_element ?b (lz_r (fst st), snd st) = decode_element aligned main len (lz_r (fst st), snd st)"
      and t: "\<forall>t \<in> set_option aligned. tree_for 8 t" "tree_for (main_elements ws) main" "\<forall>t \<in> set_option len. tree_for 249 t"
    for aligned main len
  proof -
    let ?d = "case decode_element aligned main len (lz_r (fst st), snd st) of (d, r, bs) \<Rightarrow> (d, (fst st)\<lparr>lz_r := r\<rparr>, bs)"
    have "step_ok (\<lambda>r. False \<longrightarrow> offsets_in ws r) (\<lambda>_. False) element_ok 1 (snd st) (decode_element aligned main len (lz_r (fst st), snd st))"
      using decode_element_ok [OF t, of "(lz_r (fst st), snd st)" False] assms(2) by simp
    then have d: "lzx_ok ws (\<lambda>d l. element_ok d (lz_r l)) 1 (snd st) ?d"
      using assms(1) by (auto simp: step_ok_def lz_ok_def split: prod.splits sum.splits)
    have "lzx_ok ws (\<lambda>adv _. 0 < adv) (1 + 0) (snd st) (element_step st)"
      unfolding element_step_def e
    proof (rule step_ok_then [OF d], goal_cases)
      case (1 d st)
      then have "lzx_ok ws (\<lambda>_ _. True) 0 (snd st) (write_decoded d st)"
        by (cases d) (auto simp del: write_decoded.simps intro: write_single_ok write_match_ok)
      then show ?case by (rule step_ok_seq [OF _ consume_block_ok])
    qed
    then show ?thesis by simp
  qed
  have kind: "kind_ok ws (blk_kind ?b)" using assms(1) by (simp add: lz_ok_def)
  show ?thesis
  proof (cases "blk_kind ?b")
    case (Verbatim main len)
    show ?thesis by (rule compressed [of None main len]) (use Verbatim kind in \<open>simp_all add: block_decode_element_def\<close>)
  next
    case (AlignedOffset aligned main len)
    show ?thesis by (rule compressed [of "Some aligned" main len]) (use AlignedOffset kind in \<open>simp_all add: block_decode_element_def\<close>)
  next
    case (Uncompressed r)
    let ?st = "((fst st)\<lparr>lz_r := r\<rparr>, snd st)"
    have "lz_ok ws (fst ?st)" using assms(1) by (simp add: lz_ok_def)
    then have "lzx_ok ws (\<lambda>adv _. 0 < adv) 1 (snd ?st) (and_then_st (write_decoded (DRead (blk_remaining ?b)) ?st) consume_block)"
      using assms(2) by (intro write_read_ok) simp_all
    then show ?thesis using Uncompressed by (simp add: element_step_def block_decode_element_def del: write_decoded.simps)
  qed
qed

lemma decompress_step_ok:
  assumes "lz_ok ws (fst st)" "stream_ok (snd st)"
  shows "lzx_ok ws (\<lambda>adv _. 0 < adv) 1 (snd st) (decompress_step st)"
  unfolding decompress_step_eq by (rule step_ok_seq [OF next_lzx_block_ok [OF assms] element_step_ok])

text \<open>Every iteration spends a bit, so the loop returns.\<close>

lemma decompress_loop_returns:
  assumes "lz_ok ws (fst st)" "stream_ok (snd st)"
  shows "\<exists>r st'. decompress_loop n m st = Some (r, st') \<and> lz_ok ws (fst st') \<and> stream_ok (snd st') \<and>
           (r = Inl Panicked \<longrightarrow> \<not> offsets_in ws (lz_r (fst st'))) \<and> (\<forall>k. r = Inr k \<longrightarrow> k = n)"
  using assms
proof (induction "stream_size (snd st)" arbitrary: m st rule: less_induct)
  case less
  obtain r st' where r: "decompress_step st = (r, st')" by (metis prod.exhaust)
  note ok = decompress_step_ok [OF less.prems]
  show ?case
  proof (cases "m = n")
    case True
    then show ?thesis using less.prems by (subst decompress_loop.simps) auto
  next
    case False
    show ?thesis
    proof (cases r)
      case (Inl e)
      then show ?thesis using ok r False by (subst decompress_loop.simps) (auto simp: step_ok_def split: prod.splits)
    next
      case (Inr adv)
      then have "lz_ok ws (fst st')" "stream_ok (snd st')" "stream_size (snd st') < stream_size (snd st)"
        using ok r by (auto simp: step_ok_def split: prod.splits)
      then show ?thesis using less.hyps [of st' "m + adv"] r Inr False by (subst decompress_loop.simps) auto
    qed
  qed
qed

section \<open>Decompressing returns\<close>

lemma try_read_first_chunk_ok:
  assumes "lz_ok ws (fst st)" "stream_ok (snd st)"
  shows "lzx_ok ws (\<lambda>_ _. True) 0 (snd st) (try_read_first_chunk st)"
proof (cases "lz_first_chunk_read (fst st)")
  case True
  then show ?thesis using assms by (simp add: try_read_first_chunk_def step_ok_return)
next
  case False
  let ?st = "((fst st)\<lparr>lz_first_chunk_read := True\<rparr>, snd st)"
  have ok: "lz_ok ws (fst ?st)" "stream_ok (snd ?st)" using assms by (simp_all add: lz_ok_def)
  have "lzx_ok ws (\<lambda>_ _. True) 0 (snd ?st) (and_then_st (on_bits read_bit ?st) (\<lambda>e8 st.
          if e8 \<noteq> 0 then
            and_then_st (on_bits (read_bits 32) st) (\<lambda>n st.
              (Inr (), (fst st)\<lparr>lz_postprocess := Some (new_post_process n)\<rparr>, snd st))
          else (Inr (), (fst st)\<lparr>lz_postprocess := None\<rparr>, snd st)))"
  proof (rule step_ok_seq [OF step_ok_bits [where f = read_bit and P = "lz_ok ws", OF read_bit_ok [OF ok(2)] ok(1)]], goal_cases)
    case (1 e8 st)
    have "lzx_ok ws (\<lambda>_ _. True) 0 (snd st) (and_then_st (on_bits (read_bits 32) st) (\<lambda>n st.
              (Inr (), (fst st)\<lparr>lz_postprocess := Some (new_post_process n)\<rparr>, snd st)))"
      by (rule step_ok_seq [OF step_read_ok [where P = "lz_ok ws", OF _ 1(2,3)]])
         (auto simp: step_ok_def lz_ok_def new_post_process_def)
    then show ?case using 1 by (auto simp: step_ok_def lz_ok_def)
  qed
  then show ?thesis using False by (simp add: try_read_first_chunk_def Let_def)
qed

lemma length_postprocess [simp]: "length (postprocess ts off bs) = length bs"
  by (simp add: postprocess_def postprocess_loop_walk)

text \<open>The bytes that the filter makes of those that the loop wrote.\<close>

definition filtered :: "lzxd \<Rightarrow> bytes \<Rightarrow> bytes" where
  "filtered l view =
     (case lz_postprocess l of
        None \<Rightarrow> view
      | Some pp \<Rightarrow> if 0x40000000 \<le> lz_chunk_offset l \<or> length view \<le> 10 then view
                   else postprocess (e8_translation_size pp) (lz_chunk_offset l) view)"

lemma finish_chunk_outcome:
  assumes ok: "lz_ok ws l"
  obtains l' where "lz_ok ws l'" "lz_r l' = lz_r l"
    "finish_chunk n l =
       (if n \<le> max_chunk_size then Inr (filtered l (drop (window_value ws - n) (w_contents (lz_window l)))) else Inl ChunkTooLong, l')"
proof -
  obtain k where k: "15 \<le> k" "window_value ws = 2 ^ k" "window_ok k (lz_window l)" using ok by (auto simp: lz_ok_def)
  have "(2 :: nat) ^ 15 \<le> 2 ^ k" using k(1) by (intro power_increasing) simp_all
  then have m: "max_chunk_size \<le> 2 ^ k" by (simp add: max_chunk_size_def)
  show ?thesis
  proof (cases "n \<le> max_chunk_size")
    case True
    let ?v = "drop (2 ^ k - n) (w_contents (lz_window l))"
    obtain w where w: "past_view n (lz_window l) = (Inr ?v, w)" "window_ok k w"
      using past_view_contents [OF k(3) True m] by metis
    have v: "length ?v = n" using length_w_contents [OF k(3)] True m by simp
    have pp: "lz_postprocess l = Some pp \<Longrightarrow> length (data_chunk pp) = max_chunk_size" for pp using ok by (simp add: lz_ok_def)
    let ?l = "snd (finish_chunk n l)"
    have "lz_ok ws ?l" "lz_r ?l = lz_r l" "finish_chunk n l = (Inr (filtered l ?v), ?l)"
      using ok w k True v pp
      by (auto simp: finish_chunk_def Let_def filtered_def lz_ok_def window_ok_def split: option.splits)
    then show ?thesis using that [of ?l] True k(2) by simp
  next
    case False
    then have "past_view n (lz_window l) = (Inl ChunkTooLong, lz_window l)" by (simp add: past_view_def)
    then have "finish_chunk n l = (Inl ChunkTooLong, l\<lparr>lz_chunk_offset := lz_chunk_offset l + n\<rparr>)"
      by (simp add: finish_chunk_def Let_def)
    then show ?thesis using that [of "l\<lparr>lz_chunk_offset := lz_chunk_offset l + n\<rparr>"] ok False by (simp add: lz_ok_def)
  qed
qed

lemma lzxd_new_ok:
  obtains l where "lzxd_new ws = Inr l" "lz_ok ws l" "w_contents (lz_window l) = replicate (window_value ws) 0"
    "lz_r l = (1, 1, 1)" "lz_chunk_offset l = 0"
proof -
  obtain w k where w: "create_buffer ws = Inr w" "window_ok k w" "15 \<le> k" "window_value ws = 2 ^ k" "w_contents w = replicate (2 ^ k) 0"
    by (rule create_buffer_ok)
  then show ?thesis using that
    by (auto simp: lzxd_new_def lz_ok_def state_ok_def main_elements_def canonical_new_def lengths_ok_def)
qed

lemma lzxd_new_wim_ok:
  obtains l where "lzxd_new_wim ws = Inr l" "lz_ok ws l" "w_contents (lz_window l) = replicate (window_value ws) 0"
    "lz_r l = (1, 1, 1)" "lz_chunk_offset l = 0"
proof -
  obtain l where l: "lzxd_new ws = Inr l" "lz_ok ws l" "w_contents (lz_window l) = replicate (window_value ws) 0"
    "lz_r l = (1, 1, 1)" "lz_chunk_offset l = 0" by (rule lzxd_new_ok)
  then show ?thesis using that by (auto simp: lzxd_new_wim_def lz_ok_def state_ok_def new_post_process_def)
qed

lemma stream_ok_new [simp]: "stream_ok (bitstream_new chunk)"
  by (simp add: bitstream_new_def stream_ok_def)

text \<open>C21. Decompressing a chunk always returns: with any bytes and any requested length, the decoder ends
  with output or an error and stays well formed; and it panics only in a state with a recent offset
  beyond the window, which only the header of an uncompressed block can bring in.\<close>

theorem lzx_decompress_returns:
  assumes "lz_ok ws l"
  shows "\<exists>r l'. decompress_next chunk n l = Some (r, l') \<and> lz_ok ws l' \<and>
           (r = Inl Panicked \<longrightarrow> \<not> offsets_in ws (lz_r l'))"
proof -
  obtain r l1 s1 where f: "try_read_first_chunk (l, bitstream_new chunk) = (r, l1, s1)" by (metis prod.exhaust)
  have ok: "lzx_ok ws (\<lambda>_ _. True) 0 (bitstream_new chunk) (r, l1, s1)"
    using try_read_first_chunk_ok [of ws "(l, bitstream_new chunk)"] assms f by simp
  show ?thesis
  proof (cases r)
    case (Inl e)
    then show ?thesis using f ok by (auto simp: decompress_next_def step_ok_def)
  next
    case (Inr u)
    then have "lz_ok ws l1" "stream_ok s1" using ok by (auto simp: step_ok_def)
    then obtain r2 st2 where s: "decompress_loop n 0 (l1, s1) = Some (r2, st2)" "lz_ok ws (fst st2)"
        "r2 = Inl Panicked \<longrightarrow> \<not> offsets_in ws (lz_r (fst st2))"
      using decompress_loop_returns [of ws "(l1, s1)" n 0] by auto
    show ?thesis
    proof (cases r2)
      case (Inl e)
      then show ?thesis using f \<open>r = Inr u\<close> s by (cases st2) (auto simp: decompress_next_def)
    next
      case k: (Inr k)
      obtain l3 where "lz_ok ws l3" "fst (finish_chunk k (fst st2)) \<noteq> Inl Panicked" "snd (finish_chunk k (fst st2)) = l3"
        by (rule finish_chunk_outcome [OF s(2), of k]) (auto split: if_splits)
      then show ?thesis using f Inr s(1) k by (cases st2) (auto simp: decompress_next_def intro!: exI [of _ l3] prod_eqI)
    qed
  qed
qed

lemma lzx_decompress_returns_witness:
  "\<exists>l r l'. lzxd_new_wim KB32 = Inr l \<and> decompress_next [1, 2, 3] 5 l = Some (r, l') \<and> lz_ok KB32 l'"
proof -
  obtain l where l: "lzxd_new_wim KB32 = Inr l" "lz_ok KB32 l" by (rule lzxd_new_wim_ok)
  show ?thesis using lzx_decompress_returns [OF l(2), of "[1, 2, 3]" 5] l(1) by blast
qed

section \<open>What is written\<close>

text \<open>The token of an element; raw bytes come from the stream.\<close>

fun token_of :: "decoded \<Rightarrow> bitstream \<Rightarrow> token" where
  "token_of (DSingle v) bs = Literal v"
| "token_of (DMatch offset n) bs = Match offset n"
| "token_of (DRead n) bs = Raw (take n (bs_buffer bs))"

text \<open>The iterations of the loop, with the tokens they decode.\<close>

inductive runs :: "lzxd \<times> bitstream \<Rightarrow> token list \<Rightarrow> lzxd \<times> bitstream \<Rightarrow> bool" where
  no_token: "runs st [] st"
| a_token: "decode_next st = (Inr d, st1) \<Longrightarrow> write_decoded d st1 = (Inr n, st2) \<Longrightarrow> consume_block n st2 = (Inr m, st3) \<Longrightarrow>
    runs st3 ts st' \<Longrightarrow> runs st (token_of d (snd st1) # ts) st'"

inductive_cases runs_ConsE: "runs st (t # ts) st'"

text \<open>Which tokens are decoded does not depend on the window.\<close>

lemma decode_next_window:
  "decode_next (l\<lparr>lz_window := w\<rparr>, bs) = (case decode_next (l, bs) of (r, l', bs') \<Rightarrow> (r, l'\<lparr>lz_window := w\<rparr>, bs'))"
proof -
  have b: "next_lzx_block (l\<lparr>lz_window := w\<rparr>, bs) = (case next_lzx_block (l, bs) of (r, l', bs') \<Rightarrow> (r, l'\<lparr>lz_window := w\<rparr>, bs'))"
    by (auto simp: next_lzx_block_def split: prod.splits sum.splits)
  obtain r l1 s1 where "next_lzx_block (l, bs) = (r, l1, s1)" by (metis prod.exhaust)
  then show ?thesis using b by (cases r) (auto simp: decode_next_def split: prod.splits)
qed

lemma decode_next_keeps_window:
  assumes "decode_next st = (r, st')"
  shows "lz_window (fst st') = lz_window (fst st)"
  using assms
  by (cases st) (auto simp: decode_next_def next_lzx_block_def result_simps split: prod.splits sum.splits if_splits
      elim!: and_then_st.elims)

lemma write_decoded_length:
  assumes "write_decoded d st = (Inr n, st')"
  shows "n = token_length (token_of d (snd st))"
  using assms by (cases d) (auto simp: result_simps Let_def remaining_bytes_def split: prod.splits)

lemma write_decoded_contents:
  assumes ok: "window_ok k (lz_window (fst st))" and t: "token_ok (2 ^ k) (token_of d (snd st))"
    and w: "write_decoded d st = (Inr n, st')"
  shows "window_ok k (lz_window (fst st'))"
    "w_contents (lz_window (fst st')) = expand (token_of d (snd st)) (w_contents (lz_window (fst st)))"
proof (atomize (full), cases d)
  case (DSingle v)
  then show "window_ok k (lz_window (fst st')) \<and>
      w_contents (lz_window (fst st')) = expand (token_of d (snd st)) (w_contents (lz_window (fst st)))"
    using ring.put_history [OF ok, of v] w by (auto simp: lift_window_def)
next
  case (DMatch offset m)
  then show "window_ok k (lz_window (fst st')) \<and>
      w_contents (lz_window (fst st')) = expand (token_of d (snd st)) (w_contents (lz_window (fst st)))"
    using ring.copy_history [OF ok, of offset m] t w by (auto simp: lift_window_def)
next
  case (DRead m)
  let ?n = "min (length (bs_buffer (snd st))) m"
  have n: "?n \<le> 2 ^ k" "take ?n (bs_buffer (snd st)) = take m (bs_buffer (snd st))" using t DRead by (auto simp: min_def)
  obtain w' where "copy_from_bitstream ?n (lz_window (fst st), snd st) =
        (Inr (), w', (snd st)\<lparr>bs_buffer := drop ?n (bs_buffer (snd st))\<rparr>)" "window_ok k w'"
      "w_contents w' = shift_in (w_contents (lz_window (fst st))) (take ?n (bs_buffer (snd st)))"
    using ring.load_history [OF ok n(1), of "snd st"] by auto
  then show "window_ok k (lz_window (fst st')) \<and>
      w_contents (lz_window (fst st')) = expand (token_of d (snd st)) (w_contents (lz_window (fst st)))"
    using w DRead n(2) by (auto simp: Let_def remaining_bytes_def)
qed

lemma consume_block_fields:
  "consume_block n st = (Inr m, st') \<Longrightarrow> m = n \<and> lz_window (fst st') = lz_window (fst st) \<and> snd st' = snd st"
  by (auto simp: consume_block_def Let_def split: if_splits)

lemma runs_contents:
  assumes "runs st ts st'" "window_ok k (lz_window (fst st))" "\<forall>t \<in> set ts. token_ok (2 ^ k) t"
  shows "window_ok k (lz_window (fst st')) \<and> w_contents (lz_window (fst st')) = fold expand ts (w_contents (lz_window (fst st)))"
  using assms
proof (induction rule: runs.induct)
  case (a_token st d st1 n st2 m st3 ts st')
  have "lz_window (fst st1) = lz_window (fst st)" by (rule decode_next_keeps_window [OF a_token.hyps(1)])
  moreover have "lz_window (fst st3) = lz_window (fst st2)" using consume_block_fields [OF a_token.hyps(3)] by simp
  ultimately show ?case using a_token.IH write_decoded_contents [of k st1 d n st2] a_token.hyps(2) a_token.prems by simp
qed simp

lemma decompress_step_runs:
  assumes "decompress_step st = (Inr n, st')"
  obtains t where "\<And>ts st''. runs st' ts st'' \<Longrightarrow> runs st (t # ts) st''" "n = token_length t"
proof -
  obtain d st1 m st2 where s: "decode_next st = (Inr d, st1)" "write_decoded d st1 = (Inr m, st2)" "consume_block m st2 = (Inr n, st')"
    using assms by (auto simp: decompress_step_def result_simps)
  then show ?thesis using that runs.a_token [OF s] write_decoded_length [OF s(2)] consume_block_fields [OF s(3)] by metis
qed

lemma decompress_loop_runs:
  assumes "lz_ok ws (fst st)" "stream_ok (snd st)" "decompress_loop n m st = Some (Inr k, st')"
  shows "\<exists>ts. runs st ts st' \<and> m + sum_list (map token_length ts) = n \<and> k = n"
  using assms
proof (induction "stream_size (snd st)" arbitrary: m st rule: less_induct)
  case less
  show ?case
  proof (cases "m = n")
    case True
    then show ?thesis using less.prems(3) by (subst (asm) decompress_loop.simps) (auto intro!: exI [of _ "[]"] no_token)
  next
    case False
    obtain r st1 where r: "decompress_step st = (r, st1)" by (metis prod.exhaust)
    then obtain adv where adv: "r = Inr adv" "decompress_loop n (m + adv) st1 = Some (Inr k, st')"
      using less.prems(3) False by (subst (asm) decompress_loop.simps) (auto split: sum.splits)
    have "lz_ok ws (fst st1)" "stream_ok (snd st1)" "stream_size (snd st1) < stream_size (snd st)"
      using decompress_step_ok [OF less.prems(1,2)] r adv(1) by (auto simp: step_ok_def split: prod.splits)
    then obtain ts where ts: "runs st1 ts st'" "m + adv + sum_list (map token_length ts) = n" "k = n"
      using less.hyps [of st1 "m + adv"] adv(2) by auto
    obtain t where t: "\<And>ts st''. runs st1 ts st'' \<Longrightarrow> runs st (t # ts) st''" "adv = token_length t"
      using decompress_step_runs [of st adv st1] r adv(1) by metis
    show ?thesis using t ts by (intro exI [of _ "t # ts"]) auto
  qed
qed

text \<open>C20. A chunk that decompresses gives as many bytes as were asked for: the tokens of the loop, each a
  literal, a match or raw bytes, write exactly that many bytes, and when their offsets lie inside the
  window, the output is what the tokens mean on the history of earlier output, through the E8 filter
  of the stream.\<close>

theorem lzx_decompress_correct:
  assumes ok: "lz_ok ws l" and r: "decompress_next chunk n l = Some (Inr out, l')"
  shows "\<exists>st ts st'. try_read_first_chunk (l, bitstream_new chunk) = (Inr (), st) \<and> runs st ts st' \<and>
           sum_list (map token_length ts) = n \<and> length out = n \<and> n \<le> max_chunk_size \<and>
           ((\<forall>t \<in> set ts. token_ok (window_value ws) t) \<longrightarrow>
              out = filtered (fst st') (drop (window_value ws - n) (fold expand ts (w_contents (lz_window l)))))"
proof -
  obtain x st where f: "try_read_first_chunk (l, bitstream_new chunk) = (x, st)" by (metis prod.exhaust)
  then have x: "x = Inr ()" using r by (cases x) (auto simp: decompress_next_def split: prod.splits)
  have st: "lz_ok ws (fst st)" "stream_ok (snd st)" "lz_window (fst st) = lz_window l"
  proof -
    show "lz_ok ws (fst st)" "stream_ok (snd st)"
      using try_read_first_chunk_ok [of ws "(l, bitstream_new chunk)"] ok f x by (auto simp: step_ok_def split: prod.splits)
    show "lz_window (fst st) = lz_window l"
      using f x by (auto simp: try_read_first_chunk_def Let_def result_simps on_bits_def split: prod.splits if_splits)
  qed
  obtain k st' where loop: "decompress_loop n 0 st = Some (Inr k, st')" "finish_chunk k (fst st') = (Inr out, l')"
    using r f x by (auto simp: decompress_next_def split: option.splits prod.splits sum.splits)
  obtain ts where ts: "runs st ts st'" "sum_list (map token_length ts) = n" "k = n"
    using decompress_loop_runs [OF st(1,2) loop(1)] by auto
  have ok': "lz_ok ws (fst st')" using decompress_loop_returns [OF st(1,2), of n 0] loop(1) by auto
  obtain i where i: "window_value ws = 2 ^ i" "window_ok i (lz_window l)" using ok by (auto simp: lz_ok_def)
  obtain j where j: "window_value ws = 2 ^ j" "window_ok j (lz_window (fst st'))" using ok' by (auto simp: lz_ok_def)
  have "15 \<le> i" using ok i by (auto simp: lz_ok_def)
  have out: "n \<le> max_chunk_size" "out = filtered (fst st') (drop (window_value ws - n) (w_contents (lz_window (fst st'))))"
  proof -
    obtain l3 where "finish_chunk n (fst st') = (if n \<le> max_chunk_size then
        Inr (filtered (fst st') (drop (window_value ws - n) (w_contents (lz_window (fst st'))))) else Inl ChunkTooLong, l3)"
      by (rule finish_chunk_outcome [OF ok'])
    then show "n \<le> max_chunk_size" "out = filtered (fst st') (drop (window_value ws - n) (w_contents (lz_window (fst st'))))"
      using loop(2) ts(3) by (simp_all split: if_splits)
  qed
  have "(2 :: nat) ^ 15 \<le> window_value ws" unfolding i(1) by (rule power_increasing) (use \<open>15 \<le> i\<close> in simp_all)
  then have "length out = n"
    using out length_w_contents [OF j(2)] j(1) by (simp add: filtered_def max_chunk_size_def split: option.splits)
  moreover have "w_contents (lz_window (fst st')) = fold expand ts (w_contents (lz_window l))"
    if "\<forall>t \<in> set ts. token_ok (window_value ws) t"
    using runs_contents [OF ts(1), of i] i st(3) that by simp
  ultimately show ?thesis using f x ts out by (intro exI [of _ st] exI [of _ ts] exI [of _ st']) simp
qed

section \<open>Stored chunks\<close>

text \<open>A WIM chunk with one uncompressed block of the default size, as an encoder writes it: block type 3,
  the default-size flag, padding, and three recent offsets of one.\<close>

definition stored_header :: bytes where
  "stored_header = [0x00, 0x70, 1, 0, 0, 0, 1, 0, 0, 0, 1, 0, 0, 0]"

lemmas read_eval = read_bits_def read_bits_oneword_def bitstream_new_def advance_buffer_def u16_le_def rotate_left_def
  mask_eq_exp_minus_1 Let_def

lemma stored_kind: "read_bits 3 (bitstream_new (stored_header @ data)) =
   (Inr 3, \<lparr>bs_buffer = [1, 0, 0, 0, 1, 0, 0, 0, 1, 0, 0, 0] @ data, bs_n = 0x8003, bs_remaining = 13\<rparr>)"
  by (simp add: read_eval stored_header_def)

lemma stored_flag: "read_bits 1 \<lparr>bs_buffer = b, bs_n = 0x8003, bs_remaining = 13\<rparr> =
   (Inr 1, \<lparr>bs_buffer = b, bs_n = 0x0007, bs_remaining = 12\<rparr>)"
  by (simp add: read_eval)

lemma stored_offset: "read_u32_le \<lparr>bs_buffer = 1 # 0 # 0 # 0 # b, bs_n = n, bs_remaining = 0\<rparr> =
   (Inr 1, \<lparr>bs_buffer = b, bs_n = 0, bs_remaining = 0\<rparr>)"
  by (simp add: read_eval read_u32_le_def u32_of_words_def)

lemma block_read_stored:
  assumes "wim_mode d" "wim_default_block_size d = wim_default_size"
  shows "block_read (d, bitstream_new (stored_header @ data)) =
    (Inr \<lparr>blk_remaining = wim_default_size, blk_size = wim_default_size, blk_kind = Uncompressed (1, 1, 1)\<rparr>, d,
     \<lparr>bs_buffer = data, bs_n = 0, bs_remaining = 0\<rparr>)"
  using assms stored_flag
  by (simp add: block_read_def on_bits_def stored_kind read_block_size_def read_kind_def align_def read_offsets_def stored_offset
      wim_default_size_def)

lemma stored_step:
  assumes new: "lzxd_new_wim ws = Inr l" and data: "data \<noteq> []" "length data \<le> wim_default_size"
  obtains l' s' where "decompress_step (l, bitstream_new (stored_header @ data)) = (Inr (length data), l', s')"
    "w_contents (lz_window l') = shift_in (w_contents (lz_window l)) data"
    "lz_postprocess l' = Some (new_post_process wim_e8_translation_size)" "lz_chunk_offset l' = 0"
proof -
  obtain w k where w: "create_buffer ws = Inr w" "window_ok k w" "15 \<le> k" by (rule create_buffer_ok)
  have "(2 :: nat) ^ 15 \<le> 2 ^ k" using w(3) by (intro power_increasing) simp_all
  then have n: "length data \<le> 2 ^ k" using data(2) by (simp add: wim_default_size_def)
  let ?s = "\<lparr>bs_buffer = data, bs_n = 0, bs_remaining = 0\<rparr>"
  obtain w' where w': "copy_from_bitstream (length data) (w, ?s) = (Inr (), w', ?s\<lparr>bs_buffer := drop (length data) data\<rparr>)"
      "w_contents w' = shift_in (w_contents w) (take (length data) data)"
    using copy_from_bitstream_contents [OF w(2) n, of ?s] by auto
  show ?thesis
    by (rule that) (use new w(1) w' data in
      \<open>auto simp: lzxd_new_wim_def lzxd_new_def decompress_step_def decode_next_def next_lzx_block_def realign_def
        block_read_stored block_decode_element_def remaining_bytes_def consume_block_def min_absorb1\<close>)
qed

lemma stored_chunk_decompresses:
  assumes l: "lzxd_new_wim ws = Inr l" and data: "data \<noteq> []" "length data \<le> max_chunk_size"
    and e8: "\<forall>(p, v) \<in> set (e8_targets 0 data). sint v \<noteq> - int p"
  shows "\<exists>l'. decompress_next (stored_header @ e8_walk (e8_encode wim_e8_translation_size) 0 data) (length data) l = Some (Inr data, l')"
proof -
  let ?enc = "e8_walk (e8_encode wim_e8_translation_size) 0 data"
  have ok: "lz_ok ws l" "w_contents (lz_window l) = replicate (window_value ws) 0" 
    by (rule lzxd_new_wim_ok [of ws], use l in simp)+
  have len: "length ?enc = length data" by simp
  have enc: "?enc \<noteq> []" "length ?enc \<le> wim_default_size"
    using data(1) len by (metis length_0_conv) (use data(2) in \<open>simp add: max_chunk_size_def wim_default_size_def\<close>)
  obtain l1 s1 where step: "decompress_step (l, bitstream_new (stored_header @ ?enc)) = (Inr (length ?enc), l1, s1)"
      "w_contents (lz_window l1) = shift_in (w_contents (lz_window l)) ?enc"
      "lz_postprocess l1 = Some (new_post_process wim_e8_translation_size)" "lz_chunk_offset l1 = 0"
    by (rule stored_step [OF l enc])
  have ok1: "lz_ok ws l1" using decompress_step_ok [of ws "(l, bitstream_new (stored_header @ ?enc))"] ok(1) step(1) by (simp add: step_ok_def)
  have loop: "decompress_loop (length data) 0 (l, bitstream_new (stored_header @ ?enc)) = Some (Inr (length data), l1, s1)"
    using step(1) data(1) len by (simp add: decompress_loop.simps)
  have first: "lz_first_chunk_read l" using l by (auto simp: lzxd_new_wim_def result_simps)
  have "(2 :: nat) ^ 15 \<le> window_value ws" using window_size_power [of ws] by (metis one_le_numeral power_increasing)
  then have view: "drop (window_value ws - length data) (w_contents (lz_window l1)) = ?enc"
    using step(2) ok(2) len data(2) by (simp add: shift_in_def max_chunk_size_def)
  have "postprocess wim_e8_translation_size 0 ?enc = data"
    using postprocess_encode_iff [of wim_e8_translation_size 0 data] e8 data(2)
    by (simp add: wim_e8_translation_size_def max_chunk_size_def)
  then have "filtered l1 ?enc = data"
    using step(3,4) len by (simp add: filtered_def new_post_process_def e8_walk_short)
  moreover obtain l2 where "finish_chunk (length data) l1 = (if length data \<le> max_chunk_size then
      Inr (filtered l1 (drop (window_value ws - length data) (w_contents (lz_window l1)))) else Inl ChunkTooLong, l2)"
    by (rule finish_chunk_outcome [OF ok1])
  ultimately show ?thesis using first loop view data(2) by (simp add: decompress_next_def try_read_first_chunk_def)
qed



lemma lzx_decompress_correct_witness:
  "\<exists>l l' st ts st'. lzxd_new_wim KB32 = Inr l \<and> decompress_next (stored_header @ [97, 98, 99]) 3 l = Some (Inr [97, 98, 99], l') \<and>
     runs st ts st' \<and> sum_list (map token_length ts) = 3"
proof -
  obtain l where l: "lzxd_new_wim KB32 = Inr l" "lz_ok KB32 l" by (rule lzxd_new_wim_ok)
  obtain l' where l': "decompress_next (stored_header @ [97, 98, 99]) 3 l = Some (Inr [97, 98, 99], l')"
    using stored_chunk_decompresses [OF l(1), of "[97, 98, 99]"] by (auto simp: max_chunk_size_def numeral_3_eq_3)
  then show ?thesis using lzx_decompress_correct [OF l(2) l'] l(1) by blast
qed

end
