(* ===== verification/Spec2Isabelle.thy ===== *)
theory Spec2Isabelle
  imports Safety_Planner Link_Order Segmented_Reader Unix_Compress Manifest Uu_Decoder Atomic_File Sevenz_Volume
    Archive_Format Lzop Extract_Loop Lzx_Decoder
begin

text \<open>
  \<^bold>\<open>Verification of the ZManager archive tool.\<close>

  ZManager lists, extracts and creates archives of many formats.  Most codecs are external crates;
  what the repository itself decides is which files an extraction may write and where, how a source
  tree becomes a list of archive entries, how files reach the disk, how multi-volume archives are
  found and read, which format a file is, how progress is accounted, and a few decoders written in
  the repository.  This development models those parts of \<open>crates/zmanager-core/src\<close>, and the LZX
  decoder of \<open>crates/zmanager-wim/src\<close>, definition by definition, and proves what makes them correct.

  \<^bold>\<open>How a run is put together.\<close>  Creating: the manifest planner walks the sources (\<open>Manifest\<close>, with
  \<open>Gitignore\<close> and \<open>Wildcard\<close>), a codec writes a temporary file, and \<open>Atomic_File\<close> or \<open>Sevenz_Volume\<close>
  puts it in place, whole or in numbered volumes.  Reading: \<open>Archive_Format\<close> chooses the format,
  \<open>Volume_Names\<close> finds the parts of a set, \<open>Segmented_Reader\<close> makes one stream of them, and decoders
  (\<open>Unix_Compress\<close>, \<open>Uu_Decoder\<close>, \<open>Lzop\<close>, \<open>Lzx_Decoder\<close>, or an external one, behind the limits of \<open>Raw_Stream\<close> and
  \<open>Extract_Loop\<close>) produce the entries.  Extracting: each entry goes through \<open>Extract_Loop\<close>, which asks
  the \<open>Safety_Planner\<close> (over \<open>Archive_Path\<close>) where it may be written, hands the answer to the backend,
  reports to the job context (\<open>Jobs\<close>), writes the file through \<open>Atomic_File\<close>, and makes deferred
  links in the order of \<open>Link_Order\<close>.

  \<^bold>\<open>Foundations.\<close>
  \<^item> \<open>Prelude\<close>: results and their sequencing with and without state, saturating and checked words,
    splitting of texts, sequences of calls on an object and the contract \<open>logged_object\<close>.
  \<^item> \<open>Rust_Path\<close>, \<open>Rust_Str\<close>: \<open>std::path\<close> on Unix as lists of components, UTF-8 and the comparisons of
    \<open>str\<close>.  Strings are lists of bytes.
  \<^item> \<open>Host_FS\<close>: one moment of the file system, as the planners see it.  \<open>File_Store\<close>: a disk that
    changes, with a plan of refused calls, so that statements over all plans cover failures and
    crashes at every point.  Both are arguments, never fixed.
  \<^item> \<open>Byte_Reader\<close>: the contract of \<open>std::io::Read\<close> (locales \<open>byte_reader\<close>, \<open>total_reader\<close>) and the client
    loop \<open>read_fully\<close>; \<open>Raw_Stream\<close> has the contract of \<open>Write\<close> (\<open>byte_writer\<close>).  Files, volumes, the
    lzop reader, the bounded decoder and the limited and reporting writers interpret them.

  \<^bold>\<open>Components, with their sources and what is shown.\<close>
  \<^item> \<open>Wildcard\<close> (\<open>wildcard.rs\<close>): the backtracking loop accepts exactly what the declarative matching of
    tokens accepts, for every choice of tokens (locale \<open>glob_tokens\<close>); \<open>Gitignore\<close> reuses it for whole
    path segments.
  \<^item> \<open>Archive_Path\<close> (\<open>safety.rs\<close>, paths, selectors, patterns): which texts are accepted, that the result
    is a relative path of plain names, and what normalizing twice does.
  \<^item> \<open>Safety_Planner\<close> (\<open>safety.rs\<close>, \<open>ExtractionSafetyPlanner\<close>): the whole of \<open>validate_entry\<close> as a state
    transition.  Invariants over all sequences of calls, each an interpretation of \<open>logged_object\<close>:
    writes and links stay below the root, no symbolic link lies on the way to a write, the limits on
    entries, bytes and ratios hold, collisions are rejected, renames never repeat; and the exact
    outcome of an overwrite conflict.
  \<^item> \<open>Link_Order\<close> (\<open>safety.rs\<close>, \<open>deferred_link_dependency_order\<close>): the order is a permutation with
    dependencies first, or there is a cycle or a missing source; it never panics.
  \<^item> \<open>Extract_Loop\<close> (\<open>extract_loop.rs\<close>, \<open>extract_materialize.rs\<close>, \<open>decoded_reader.rs\<close>): no backend is
    ever asked for a write outside the root; an entry's file is written whole or not at all, under
    cancellation and failing calls; deferred links become the files of their sources; decoders stop at
    their bound.
  \<^item> \<open>Jobs\<close> (\<open>jobs/\<close>): the projection of the emitted events agrees with the context's counters after
    a flush, no byte is lost in batching, and paths stay within their limits.
  \<^item> \<open>Atomic_File\<close> (\<open>atomic_file.rs\<close>, Linux build): secret files are all or nothing under every pattern
    of failing calls; commits do not clobber; where these promises end (a dangling link on a file
    system without hard links, a foreign temporary file) is shown by evaluation.
  \<^item> \<open>Manifest\<close>, \<open>Gitignore\<close> (\<open>manifest.rs\<close>, \<open>gitignore.rs\<close>): the walk lists exactly what is reachable
    through directories that are not excluded, in order; errors, totals, parents, collisions; parsing
    and matching of ignore rules.
  \<^item> \<open>Segmented_Reader\<close> (\<open>segmented_reader.rs\<close>): reading and seeking over parts is reading their
    concatenation.  \<open>Volume_Names\<close> (\<open>sevenz_volume.rs\<close>, \<open>engine/source.rs\<close>, \<open>archive_split.rs\<close>): the parts
    that are found and the errors for missing ones.  \<open>Sevenz_Volume\<close> (\<open>sevenz_volume.rs\<close>,
    \<open>sevenz_backend.rs\<close>): splitting onto the disk and opening again returns the archive.
  \<^item> \<open>Unix_Compress\<close>, \<open>Uu_Decoder\<close>, \<open>Lzop\<close> (\<open>unix_compress_decoder.rs\<close>, \<open>uu_decoder.rs\<close>,
    \<open>lzop_decoder.rs\<close>): refinement of abstract LZW; reading back what was encoded; which errors and
    which non-returning reads there are.
  \<^item> \<open>Lzx_Bits\<close>, \<open>Lzx_Tree\<close>, \<open>Lzx_Window\<close>, \<open>Lzx_E8\<close>, \<open>Lzx_Decoder\<close> (\<open>crates/zmanager-wim/src/lzx.rs\<close> and
    \<open>lzx/\<close>): reading takes bits from the front of the stream; decoding an element inverts the canonical
    Huffman code, which exists exactly under Kraft's equality; the ring buffer refines a list of the
    last bytes (locale \<open>sliding_window\<close>); decompressing returns on every input, its output is what the
    decoded tokens mean, a stored chunk reads back, and the E8 filter undoes the encoder's translation
    except for one value.
  \<^item> \<open>Raw_Stream\<close>, \<open>Archive_Format\<close> (\<open>raw_stream_backend.rs\<close>, \<open>archive_format.rs\<close>, \<open>strings.rs\<close>): the
    size limit on decoded streams, and which format each extension leads to.

  \<^bold>\<open>Bounds and fuel.\<close>  Loops whose end depends on the data are functions with a measure or take fuel:
  \<open>read_fully\<close>, \<open>copy_bytes_with_progress\<close> and \<open>copy_entry_loop\<close> take one unit per read, and every
  read but the last delivers a byte, so one more than the number of bytes is enough; the theorems
  state that this fuel gives a result.  \<open>write_all\<close> takes one unit per call of \<open>write\<close>.  The reads of
  the uuencode decoder have fuel for their refills; that they return, and when they do not, are
  theorems.  The loop of the LZX decoder has no bound of its own and is a partial function; every
  iteration spends a bit of the chunk, so it returns.  Following links on a disk stops after forty, as the system does.

  \<^bold>\<open>Integers.\<close>  \<open>u8\<close> to \<open>u64\<close> are words where they wrap or saturate (limits, totals, counters,
  bit buffers), and \<open>usize\<close> positions in buffers are natural numbers, because a buffer that exists has
  a length below \<open>2\<^sup>6\<^sup>4\<close>; sums of lengths that may exceed a \<open>u64\<close> are checked as the code checks them.

  \<^bold>\<open>Not modelled.\<close>  Backends that drive external libraries (ZIP, TAR, RAR, DEB, RPM, MSI, XAR, CAB,
  LHA, SquashFS, virtual disks, Apple Archive), TZAP and everything about certificates and hosted
  services, the command line, the foreign-function interface and LocalSend: their logic is calls into
  code outside the repository.  Still open, because they are code of the repository: the ZIP splitter, the AR, CPIO, WARC and MTREE parsers, and raw-stream
  extraction as a whole.  Permissions, times and extended attributes are not part of the modelled
  disk, Windows and macOS variants not part of the modelled build.
\<close>

end
